(* ===== verification/Prelude.thy ===== *)
theory Prelude
  imports Main "HOL-Library.Word" "HOL-Library.List_Lexorder"
begin

section \<open>Prelude: Python values, errors and list arithmetic\<close>

text \<open>
  Shared vocabulary of the development. A Python \<^verbatim>\<open>str\<close> is the list of its code points, a Python
  \<^verbatim>\<open>bytes\<close> object is a list of 8-bit words, a Python \<^verbatim>\<open>int\<close> is an \<open>int\<close>. A call that may raise
  returns \<open>error + 'a\<close>: \<open>Inl\<close> is the raised exception (its class and the constant part of its
  message), \<open>Inr\<close> the value. The collections \<open>py_simps\<close> and \<open>py_defs\<close> gather the rewrite rules
  that the component theories share.
\<close>

named_theorems py_simps \<open>evaluation rules of the Python vocabulary\<close>

named_theorems py_defs \<open>definitions to unfold when a concrete call is evaluated\<close>

type_synonym byte = "8 word"

type_synonym bytes = "8 word list"

type_synonym pystr = "nat list"

subsection \<open>Exceptions\<close>

text \<open>The exception classes the modelled code raises or catches, with the class relation that
  \<^verbatim>\<open>except\<close> clauses consult.\<close>

datatype exc_class =
    BaseException | ExceptionC | ValueError | TypeError | KeyError | RuntimeError | OSError
  | FileNotFoundError | FileExistsError | TimeoutError | UnicodeEncodeError | UnicodeDecodeError
  | JSONDecodeError | StructError | AssertionError
  | CaptureStorageError | PackFormatError | PackIntegrityError | PackConflictError
  | DuplicateCaptureError | HydrationLimitError | InvalidCursorError
  | PackCapacityError | PackStateError | OversizedRecordError | PipelineFailedError
  | SpoolFullError | ExtensionError
  | SnapshotPublishRaceError | SnapshotPublishConflictError | SnapshotPublishExhaustedError
  | CatalogVersionAllocationError | CatalogRebuildExhaustedError
  | PublisherLeaseError | PublisherLeaseHeldError | OverflowError

fun exc_parent :: "exc_class \<Rightarrow> exc_class option" where
  "exc_parent BaseException = None"
| "exc_parent ExceptionC = Some BaseException"
| "exc_parent UnicodeEncodeError = Some ValueError"
| "exc_parent UnicodeDecodeError = Some ValueError"
| "exc_parent JSONDecodeError = Some ValueError"
| "exc_parent FileNotFoundError = Some OSError"
| "exc_parent FileExistsError = Some OSError"
| "exc_parent TimeoutError = Some OSError"
| "exc_parent PackFormatError = Some CaptureStorageError"
| "exc_parent PackIntegrityError = Some CaptureStorageError"
| "exc_parent PackConflictError = Some CaptureStorageError"
| "exc_parent DuplicateCaptureError = Some CaptureStorageError"
| "exc_parent HydrationLimitError = Some CaptureStorageError"
| "exc_parent InvalidCursorError = Some CaptureStorageError"
| "exc_parent ExtensionError = Some CaptureStorageError"
| "exc_parent SnapshotPublishRaceError = Some CaptureStorageError"
| "exc_parent SnapshotPublishConflictError = Some CaptureStorageError"
| "exc_parent SnapshotPublishExhaustedError = Some CaptureStorageError"
| "exc_parent CatalogVersionAllocationError = Some CaptureStorageError"
| "exc_parent CatalogRebuildExhaustedError = Some CaptureStorageError"
| "exc_parent PublisherLeaseError = Some CaptureStorageError"
| "exc_parent PublisherLeaseHeldError = Some PublisherLeaseError"
| "exc_parent PackCapacityError = Some ValueError"
| "exc_parent OversizedRecordError = Some ValueError"
| "exc_parent PackStateError = Some RuntimeError"
| "exc_parent PipelineFailedError = Some RuntimeError"
| "exc_parent SpoolFullError = Some RuntimeError"
| "exc_parent _ = Some ExceptionC"

text \<open>The hierarchy is at most four levels deep below \<open>ExceptionC\<close>, so four steps up decide
  \<^verbatim>\<open>isinstance\<close>.\<close>

definition exc_ancestors :: "exc_class \<Rightarrow> exc_class list" where
  "exc_ancestors c =
     (let up = (\<lambda>cs. cs @ (case exc_parent (last cs) of None \<Rightarrow> [] | Some p \<Rightarrow> [p]))
      in up (up (up (up [c]))))"

datatype error = Error (err_class: exc_class) (err_message: string)

definition is_instance :: "error \<Rightarrow> exc_class \<Rightarrow> bool" where
  "is_instance e c \<longleftrightarrow> c \<in> set (exc_ancestors (err_class e))"

type_synonym 'a result = "error + 'a"

definition rbind :: "'a result \<Rightarrow> ('a \<Rightarrow> 'b result) \<Rightarrow> 'b result" where
  "rbind r f = (case r of Inl e \<Rightarrow> Inl e | Inr x \<Rightarrow> f x)"

lemma rbind_simps [simp]: "rbind (Inl e) f = Inl e" "rbind (Inr x) f = f x"
  by (simp_all add: rbind_def)

lemma rbind_cong [fundef_cong]:
  "r = r' \<Longrightarrow> (\<And>x. r' = Inr x \<Longrightarrow> f x = g x) \<Longrightarrow> rbind r f = rbind r' g"
  by (cases r') auto

lemma rbind_eq_Inr: "rbind r f = Inr y \<longleftrightarrow> (\<exists>x. r = Inr x \<and> f x = Inr y)"
  by (cases r) auto

lemma rbind_eq_Inl: "rbind r f = Inl e \<longleftrightarrow> r = Inl e \<or> (\<exists>x. r = Inr x \<and> f x = Inl e)"
  by (cases r) auto

text \<open>Run a fallible function over a list, stopping at the first error, as a \<^verbatim>\<open>for\<close> loop does.\<close>

fun rmap :: "('a \<Rightarrow> 'b result) \<Rightarrow> 'a list \<Rightarrow> 'b list result" where
  "rmap f [] = Inr []"
| "rmap f (x # xs) = rbind (f x) (\<lambda>y. rbind (rmap f xs) (\<lambda>ys. Inr (y # ys)))"

lemma rmap_Inr_all: "(\<And>x. x \<in> set xs \<Longrightarrow> f x = Inr (g x)) \<Longrightarrow> rmap f xs = Inr (map g xs)"
  by (induction xs) auto

lemma rmap_length: "rmap f xs = Inr ys \<Longrightarrow> length ys = length xs"
  by (induction xs arbitrary: ys) (auto simp: rbind_eq_Inr)

lemma rmap_nth: "rmap f xs = Inr ys \<Longrightarrow> i < length xs \<Longrightarrow> f (xs ! i) = Inr (ys ! i)"
  by (induction xs arbitrary: ys i) (auto simp: rbind_eq_Inr nth_Cons split: nat.splits)

subsection \<open>Text literals\<close>

definition lit :: "string \<Rightarrow> pystr" where
  "lit s = map of_char s"

lemma lit_inject [simp]: "lit s = lit t \<longleftrightarrow> s = t"
  by (simp add: lit_def inj_map_eq_map inj_of_char)

lemma lit_Nil [simp]: "lit [] = []"
  by (simp add: lit_def)

lemma length_lit [simp]: "length (lit s) = length s"
  by (simp add: lit_def)

lemma lit_eq_Nil [simp]: "lit s = [] \<longleftrightarrow> s = []" "[] = lit s \<longleftrightarrow> s = []"
  by (auto simp: lit_def)

text \<open>Characters of a literal stay below 256, and ASCII literals below 128.\<close>

lemma lit_bound: "c \<in> set (lit s) \<Longrightarrow> c < 256"
  by (auto simp: lit_def)

subsection \<open>Lists, slices and integer arithmetic\<close>

text \<open>Python's \<^verbatim>\<open>xs[a:b]\<close> for \<open>0 \<le> a\<close> and \<open>0 \<le> b\<close>: out-of-range ends are clipped.\<close>

definition slice :: "int \<Rightarrow> int \<Rightarrow> 'a list \<Rightarrow> 'a list" where
  "slice a b xs = take (nat b - nat a) (drop (nat a) xs)"

lemma slice_full [simp]: "slice 0 (int (length xs)) xs = xs"
  by (simp add: slice_def)

lemma length_slice: "0 \<le> a \<Longrightarrow> a \<le> b \<Longrightarrow> b \<le> int (length xs) \<Longrightarrow> length (slice a b xs) = nat (b - a)"
  by (simp add: slice_def nat_diff_distrib)

lemma slice_append_mid:
  "slice (int (length xs)) (int (length xs) + int (length ys)) (xs @ ys @ zs) = ys"
  by (simp add: slice_def nat_int_add)

lemma slice_append_left:
  "0 \<le> a \<Longrightarrow> b \<le> int (length xs) \<Longrightarrow> slice a b (xs @ ys) = slice a b xs"
  by (simp add: slice_def)

text \<open>The padding \<^verbatim>\<open>(-n) % k\<close>: Isabelle's \<open>mod\<close> on \<open>int\<close> rounds like Python's.\<close>

lemma aligned_mod: "(n + (- n) mod k) mod k = (0::int)"
  by (simp add: mod_add_right_eq)

lemma padding_bounds: "0 < k \<Longrightarrow> 0 \<le> (- n) mod k \<and> (- n) mod k < (k::int)"
  by simp

fun join :: "'a list \<Rightarrow> 'a list list \<Rightarrow> 'a list" where
  "join sep [] = []"
| "join sep [x] = x"
| "join sep (x # y # xs) = x @ sep @ join sep (y # xs)"

lemma join_Cons: "join sep (x # xs) = x @ (if xs = [] then [] else sep @ join sep xs)"
  by (cases xs) auto

lemma length_join:
  "length (join sep xs) = sum_list (map length xs) + (length xs - 1) * length sep"
  by (induction sep xs rule: join.induct) auto

lemma join_snoc: "join sep (xs @ [x]) = (if xs = [] then x else join sep xs @ sep @ x)"
  by (induction xs) (auto simp: join_Cons)

lemma map_join: "map f (join sep xs) = join (map f sep) (map (map f) xs)"
  by (induction sep xs rule: join.induct) auto

lemma set_join: "set (join sep xs) \<subseteq> set sep \<union> \<Union> (set ` set xs)"
  by (induction sep xs rule: join.induct) auto

text \<open>A dict built from pairs: the last value of a key wins, its first position is kept.\<close>

fun dict_set :: "'k \<Rightarrow> 'v \<Rightarrow> ('k \<times> 'v) list \<Rightarrow> ('k \<times> 'v) list" where
  "dict_set k v [] = [(k, v)]"
| "dict_set k v ((k', v') # d) = (if k = k' then (k, v) # d else (k', v') # dict_set k v d)"

lemma map_of_dict_set: "map_of (dict_set k v d) = (map_of d)(k \<mapsto> v)"
  by (induction d) auto

lemma dict_set_keys: "set (map fst (dict_set k v d)) = insert k (set (map fst d))"
proof (induction d)
  case (Cons p d)
  then show ?case by (cases p) (simp add: insert_commute)
qed simp

lemma dict_set_distinct: "distinct (map fst d) \<Longrightarrow> distinct (map fst (dict_set k v d))"
proof (induction d)
  case (Cons p d)
  then show ?case using dict_set_keys [of k v d] by (cases p) auto
qed simp

lemma dict_set_fresh: "k \<notin> set (map fst d) \<Longrightarrow> dict_set k v d = d @ [(k, v)]"
  by (induction d) auto

text \<open>\<^verbatim>\<open>dict.fromkeys(xs)\<close>: the distinct elements in the order of their first occurrence.\<close>

fun fromkeys :: "'a list \<Rightarrow> 'a list" where
  "fromkeys [] = []"
| "fromkeys (x # xs) = x # filter (\<lambda>y. y \<noteq> x) (fromkeys xs)"

lemma set_fromkeys [simp]: "set (fromkeys xs) = set xs"
  by (induction xs) auto

lemma distinct_fromkeys [simp]: "distinct (fromkeys xs)"
  by (induction xs) auto

lemma fromkeys_distinct_id: "distinct xs \<Longrightarrow> fromkeys xs = xs"
  by (induction xs) (auto simp: filter_id_conv)

end
