(* ===== verification/PyText.thy ===== *)
theory PyText
  imports Prelude
begin

section \<open>Python text: numerals, hexadecimal, UTF-8\<close>

text \<open>
  The parts of Python's \<^verbatim>\<open>str\<close>, \<^verbatim>\<open>int\<close> and codec libraries that the capture-storage code uses:
  decimal and hexadecimal numerals, and the UTF-8, UTF-16 and UTF-32 codecs. Encoders reject lone
  surrogates (\<^verbatim>\<open>str.encode\<close> is strict); the decoders are the ones \<^verbatim>\<open>json.loads\<close> applies to bytes,
  which let surrogates pass.
\<close>

subsection \<open>Decimal numerals\<close>

fun dec_of_nat :: "nat \<Rightarrow> pystr" where
  "dec_of_nat n = (if n < 10 then [48 + n] else dec_of_nat (n div 10) @ [48 + n mod 10])"

declare dec_of_nat.simps [simp del]

lemmas dec_of_nat_eval [py_simps] = dec_of_nat.simps

definition is_digit :: "nat \<Rightarrow> bool" where
  "is_digit c \<longleftrightarrow> 48 \<le> c \<and> c \<le> 57"

definition dec_val :: "pystr \<Rightarrow> nat" where
  "dec_val s = foldl (\<lambda>a c. 10 * a + (c - 48)) 0 s"

definition dec_of_int :: "int \<Rightarrow> pystr" where
  "dec_of_int i = (if i < 0 then 45 # dec_of_nat (nat (- i)) else dec_of_nat (nat i))"

lemma dec_of_nat_digits: "c \<in> set (dec_of_nat n) \<Longrightarrow> is_digit c"
  by (induction n rule: dec_of_nat.induct)
    (subst (asm) dec_of_nat.simps, auto simp: is_digit_def split: if_splits)

lemma dec_of_nat_nonempty [simp]: "dec_of_nat n \<noteq> []"
  by (subst dec_of_nat.simps) simp

lemma dec_val_of_nat [simp]: "dec_val (dec_of_nat n) = n"
proof (induction n rule: dec_of_nat.induct)
  case (1 n)
  then show ?case
    by (cases "n < 10") (simp_all add: dec_of_nat.simps [of n] dec_val_def)
qed

lemma dec_of_nat_inject [simp]: "dec_of_nat m = dec_of_nat n \<longleftrightarrow> m = n"
  by (metis dec_val_of_nat)

lemma dec_of_nat_hd_zero: "hd (dec_of_nat n) = 48 \<longleftrightarrow> n = 0"
proof (induction n rule: dec_of_nat.induct)
  case (1 n)
  show ?case
  proof (cases "n < 10")
    case True
    then show ?thesis by (simp add: dec_of_nat.simps [of n])
  next
    case False
    with 1 have "hd (dec_of_nat (n div 10)) = 48 \<longleftrightarrow> n div 10 = 0" by simp
    with False show ?thesis by (simp add: dec_of_nat.simps [of n])
  qed
qed

lemma dec_of_nat_0 [simp]: "dec_of_nat 0 = [48]"
  by (simp add: dec_of_nat.simps)

lemma length_dec_of_nat: "n < 10 ^ k \<Longrightarrow> 0 < k \<Longrightarrow> length (dec_of_nat n) \<le> k"
proof (induction n arbitrary: k rule: dec_of_nat.induct)
  case (1 n)
  show ?case
  proof (cases "n < 10")
    case True
    with "1.prems" show ?thesis by (simp add: dec_of_nat.simps [of n])
  next
    case False
    with "1.prems" obtain j where j: "k = Suc j" "0 < j"
      by (cases k; cases "k - 1") auto
    with "1.prems" have "n div 10 < 10 ^ j" by (simp add: div_less_iff_less_mult mult.commute)
    with "1.IH" False j have "length (dec_of_nat (n div 10)) \<le> j" by blast
    with False j show ?thesis by (simp add: dec_of_nat.simps [of n])
  qed
qed

subsection \<open>Hexadecimal numerals\<close>

definition hex_digit :: "nat \<Rightarrow> nat" where
  "hex_digit d = (if d < 10 then 48 + d else 87 + d)"

text \<open>The value of a hexadecimal digit of either case.\<close>

definition hex_val :: "nat \<Rightarrow> nat option" where
  "hex_val c =
     (if 48 \<le> c \<and> c \<le> 57 then Some (c - 48)
      else if 97 \<le> c \<and> c \<le> 102 then Some (c - 87)
      else if 65 \<le> c \<and> c \<le> 70 then Some (c - 55) else None)"

text \<open>The lower-case hexadecimal digits \<^verbatim>\<open>0-9a-f\<close> that the format's patterns admit.\<close>

definition is_lower_hex :: "nat \<Rightarrow> bool" where
  "is_lower_hex c \<longleftrightarrow> (48 \<le> c \<and> c \<le> 57) \<or> (97 \<le> c \<and> c \<le> 102)"

text \<open>Exactly \<open>k\<close> digits, as \<^verbatim>\<open>format(n, '0kx')\<close> prints a number below \<open>16 ^ k\<close>.\<close>

fun hex_fixed :: "nat \<Rightarrow> nat \<Rightarrow> pystr" where
  "hex_fixed 0 n = []"
| "hex_fixed (Suc k) n = hex_fixed k (n div 16) @ [hex_digit (n mod 16)]"

lemma length_hex_fixed [simp]: "length (hex_fixed k n) = k"
  by (induction k arbitrary: n) auto

lemma hex_val_digit [simp]: "d < 16 \<Longrightarrow> hex_val (hex_digit d) = Some d"
  by (auto simp: hex_val_def hex_digit_def)

lemma hex_digit_lower [simp]: "d < 16 \<Longrightarrow> is_lower_hex (hex_digit d)"
  by (auto simp: is_lower_hex_def hex_digit_def)

lemma hex_fixed_lower: "c \<in> set (hex_fixed k n) \<Longrightarrow> is_lower_hex c"
  by (induction k arbitrary: n) auto

lemma is_lower_hex_less_128: "is_lower_hex c \<Longrightarrow> c < 128"
  by (auto simp: is_lower_hex_def)

definition hex_of_bytes :: "bytes \<Rightarrow> pystr" where
  "hex_of_bytes bs = concat (map (\<lambda>b. hex_fixed 2 (unat b)) bs)"

lemma length_hex_of_bytes [simp]: "length (hex_of_bytes bs) = 2 * length bs"
  by (induction bs) (auto simp: hex_of_bytes_def)

lemma hex_of_bytes_lower: "c \<in> set (hex_of_bytes bs) \<Longrightarrow> is_lower_hex c"
  by (auto simp: hex_of_bytes_def dest: hex_fixed_lower)

text \<open>Read a run of hexadecimal digits; \<open>None\<close> when one character is not a digit.\<close>

fun hex_number :: "nat \<Rightarrow> pystr \<Rightarrow> nat option" where
  "hex_number a [] = Some a"
| "hex_number a (c # s) = (case hex_val c of None \<Rightarrow> None | Some d \<Rightarrow> hex_number (16 * a + d) s)"

lemma hex_number_append:
  "hex_number a (s @ t) = (case hex_number a s of None \<Rightarrow> None | Some b \<Rightarrow> hex_number b t)"
  by (induction a s rule: hex_number.induct) (auto split: option.splits)

lemma hex_number_fixed: "n < 16 ^ k \<Longrightarrow> hex_number a (hex_fixed k n) = Some (16 ^ k * a + n)"
proof (induction k arbitrary: n)
  case (Suc k)
  then have "n div 16 < 16 ^ k" by (simp add: div_less_iff_less_mult mult.commute)
  with Suc.IH have "hex_number a (hex_fixed k (n div 16)) = Some (16 ^ k * a + n div 16)" by simp
  then show ?case by (simp add: hex_number_append algebra_simps)
qed simp

subsection \<open>UTF-8\<close>

definition is_surrogate :: "nat \<Rightarrow> bool" where
  "is_surrogate c \<longleftrightarrow> 0xD800 \<le> c \<and> c \<le> 0xDFFF"

text \<open>A code point that \<^verbatim>\<open>str.encode\<close> accepts: a Unicode scalar value.\<close>

definition scalar_value :: "nat \<Rightarrow> bool" where
  "scalar_value c \<longleftrightarrow> c < 0x110000 \<and> \<not> is_surrogate c"

definition utf8_char :: "nat \<Rightarrow> bytes" where
  "utf8_char c =
     (if c < 0x80 then [of_nat c]
      else if c < 0x800 then [of_nat (0xC0 + c div 64), of_nat (0x80 + c mod 64)]
      else if c < 0x10000 then
        [of_nat (0xE0 + c div 4096), of_nat (0x80 + c div 64 mod 64), of_nat (0x80 + c mod 64)]
      else [of_nat (0xF0 + c div 262144), of_nat (0x80 + c div 4096 mod 64),
            of_nat (0x80 + c div 64 mod 64), of_nat (0x80 + c mod 64)])"

text \<open>\<^verbatim>\<open>s.encode("utf-8")\<close>; \<open>None\<close> stands for \<^verbatim>\<open>UnicodeEncodeError\<close>.\<close>

definition utf8_encode :: "pystr \<Rightarrow> bytes option" where
  "utf8_encode s = (if list_all scalar_value s then Some (concat (map utf8_char s)) else None)"

text \<open>ASCII text and its bytes.\<close>

definition ascii_bytes :: "pystr \<Rightarrow> bytes" where
  "ascii_bytes s = map of_nat s"

abbreviation is_ascii :: "pystr \<Rightarrow> bool" where
  "is_ascii s \<equiv> list_all (\<lambda>c. c < 128) s"

lemma length_ascii_bytes [simp]: "length (ascii_bytes s) = length s"
  by (simp add: ascii_bytes_def)

lemma ascii_bytes_append [simp]: "ascii_bytes (s @ t) = ascii_bytes s @ ascii_bytes t"
  by (simp add: ascii_bytes_def)

lemma ascii_bytes_Cons [simp]: "ascii_bytes (c # s) = of_nat c # ascii_bytes s"
  by (simp add: ascii_bytes_def)

lemma ascii_bytes_Nil [simp]: "ascii_bytes [] = []"
  by (simp add: ascii_bytes_def)

lemma ascii_scalar: "c < 128 \<Longrightarrow> scalar_value c"
  by (simp add: scalar_value_def is_surrogate_def)

lemma unat_byte: "n < 256 \<Longrightarrow> unat (of_nat n :: byte) = n"
  by (simp add: unat_of_nat)

lemma utf8_encode_ascii:
  assumes "is_ascii s"
  shows "utf8_encode s = Some (ascii_bytes s)"
proof -
  have "list_all scalar_value s" using assms by (auto simp: list_all_iff intro: ascii_scalar)
  moreover have "concat (map utf8_char s) = ascii_bytes s"
    using assms by (induction s) (auto simp: utf8_char_def)
  ultimately show ?thesis by (simp add: utf8_encode_def)
qed

lemma utf8_char_length: "utf8_char c \<noteq> []" "length (utf8_char c) \<le> 4"
  by (auto simp: utf8_char_def)

lemma utf8_encode_length:
  assumes "utf8_encode s = Some bs"
  shows "length s \<le> length bs \<and> length bs \<le> 4 * length s"
proof -
  have "length s \<le> length (concat (map utf8_char s)) \<and>
        length (concat (map utf8_char s)) \<le> 4 * length s"
  proof (induction s)
    case (Cons c s)
    obtain n where "length (utf8_char c) = Suc n" "n < 4"
      using utf8_char_length [of c] by (cases "utf8_char c") auto
    with Cons show ?case by simp
  qed simp
  with assms show ?thesis by (auto simp: utf8_encode_def split: if_splits)
qed

text \<open>The UTF-8 decoder with the \<^verbatim>\<open>surrogatepass\<close> handler: overlong forms, stray continuation
  bytes, truncated sequences and values above \<open>0x10FFFF\<close> are errors.\<close>

definition is_cont :: "byte \<Rightarrow> bool" where
  "is_cont b \<longleftrightarrow> 0x80 \<le> unat b \<and> unat b < 0xC0"

fun utf8_decode :: "bytes \<Rightarrow> pystr option" where
  "utf8_decode [] = Some []"
| "utf8_decode (a # s) =
     (if unat a < 0x80 then map_option (Cons (unat a)) (utf8_decode s)
      else if 0xC2 \<le> unat a \<and> unat a < 0xE0 then
        (case s of
           b # s' \<Rightarrow>
             if is_cont b
             then map_option (Cons ((unat a - 0xC0) * 64 + (unat b - 0x80))) (utf8_decode s')
             else None
         | [] \<Rightarrow> None)
      else if 0xE0 \<le> unat a \<and> unat a < 0xF0 then
        (case s of
           b # c # s' \<Rightarrow>
             (let v = (unat a - 0xE0) * 4096 + (unat b - 0x80) * 64 + (unat c - 0x80) in
              if is_cont b \<and> is_cont c \<and> 0x800 \<le> v
              then map_option (Cons v) (utf8_decode s') else None)
         | _ \<Rightarrow> None)
      else if 0xF0 \<le> unat a \<and> unat a < 0xF5 then
        (case s of
           b # c # d # s' \<Rightarrow>
             (let v = (unat a - 0xF0) * 262144 + (unat b - 0x80) * 4096 + (unat c - 0x80) * 64
                      + (unat d - 0x80) in
              if is_cont b \<and> is_cont c \<and> is_cont d \<and> 0x10000 \<le> v \<and> v < 0x110000
              then map_option (Cons v) (utf8_decode s') else None)
         | _ \<Rightarrow> None)
      else None)"

lemma utf8_decode_ascii: "is_ascii s \<Longrightarrow> utf8_decode (ascii_bytes s) = Some s"
  by (induction s) (simp_all add: unat_of_nat)

text \<open>Decoding inverts encoding on every text the encoder accepts.\<close>

lemma utf8_split3: "c div 4096 * 4096 + c div 64 mod 64 * 64 + c mod 64 = (c::nat)"
proof -
  have "c div 4096 = c div 64 div 64" by (simp add: div_mult2_eq [symmetric])
  then show ?thesis using div_mult_mod_eq [of "c div 64" 64] div_mult_mod_eq [of c 64] by linarith
qed

lemma utf8_split4:
  "c div 262144 * 262144 + c div 4096 mod 64 * 4096 + c div 64 mod 64 * 64 + c mod 64 = (c::nat)"
proof -
  have "c div 262144 = c div 4096 div 64" by (simp add: div_mult2_eq [symmetric])
  then show ?thesis using div_mult_mod_eq [of "c div 4096" 64] utf8_split3 [of c] by linarith
qed

lemma utf8_decode_char:
  assumes "scalar_value c"
  shows "utf8_decode (utf8_char c @ bs) = map_option (Cons c) (utf8_decode bs)"
proof -
  have c: "c < 0x110000" using assms by (simp add: scalar_value_def)
  consider (one) "c < 0x80" | (two) "0x80 \<le> c" "c < 0x800" | (three) "0x800 \<le> c" "c < 0x10000"
    | (four) "0x10000 \<le> c" "c < 0x110000"
    using c by linarith
  then show ?thesis
  proof cases
    case one
    then show ?thesis by (simp add: utf8_char_def unat_byte)
  next
    case two
    then have "c div 64 < 32" "2 \<le> c div 64" by auto
    with two show ?thesis
      by (simp add: utf8_char_def is_cont_def unat_byte del: of_nat_add of_nat_numeral)
  next
    case three
    then have "c div 4096 < 16" by auto
    with three show ?thesis
      by (simp add: utf8_char_def is_cont_def unat_byte utf8_split3 del: of_nat_add of_nat_numeral)
  next
    case four
    then have "c div 262144 < 5" by auto
    with four show ?thesis
      by (simp add: utf8_char_def is_cont_def unat_byte utf8_split4 del: of_nat_add of_nat_numeral)
  qed
qed

lemma utf8_roundtrip: "utf8_encode s = Some bs \<Longrightarrow> utf8_decode bs = Some s"
proof (induction s arbitrary: bs)
  case (Cons c s)
  then show ?case
    by (auto simp: utf8_encode_def utf8_decode_char split: if_splits)
qed (simp add: utf8_encode_def)

subsection \<open>UTF-16 and UTF-32, which \<^verbatim>\<open>json.loads\<close> also detects\<close>

fun utf16_units :: "bool \<Rightarrow> bytes \<Rightarrow> nat list option" where
  "utf16_units be [] = Some []"
| "utf16_units be [a] = None"
| "utf16_units be (a # b # s) =
     map_option (Cons (if be then unat a * 256 + unat b else unat b * 256 + unat a))
       (utf16_units be s)"

fun utf16_join :: "nat list \<Rightarrow> pystr" where
  "utf16_join [] = []"
| "utf16_join [u] = [u]"
| "utf16_join (u # v # s) =
     (if 0xD800 \<le> u \<and> u \<le> 0xDBFF \<and> 0xDC00 \<le> v \<and> v \<le> 0xDFFF
      then (0x10000 + (u - 0xD800) * 1024 + (v - 0xDC00)) # utf16_join s
      else u # utf16_join (v # s))"

definition utf16_decode :: "bool \<Rightarrow> bytes \<Rightarrow> pystr option" where
  "utf16_decode be bs = map_option utf16_join (utf16_units be bs)"

fun utf32_decode :: "bool \<Rightarrow> bytes \<Rightarrow> pystr option" where
  "utf32_decode be [] = Some []"
| "utf32_decode be (a # b # c # d # s) =
     (let v = (if be then ((unat a * 256 + unat b) * 256 + unat c) * 256 + unat d
               else ((unat d * 256 + unat c) * 256 + unat b) * 256 + unat a)
      in if v < 0x110000 then map_option (Cons v) (utf32_decode be s) else None)"
| "utf32_decode be _ = None"

text \<open>\<^verbatim>\<open>json.detect_encoding\<close> and the decoding it selects.\<close>

definition json_decode_bytes :: "bytes \<Rightarrow> pystr option" where
  "json_decode_bytes b =
     (if take 4 b = [0, 0, 0xFE, 0xFF] then utf32_decode True (drop 4 b)
      else if take 4 b = [0xFF, 0xFE, 0, 0] then utf32_decode False (drop 4 b)
      else if take 2 b = [0xFE, 0xFF] then utf16_decode True (drop 2 b)
      else if take 2 b = [0xFF, 0xFE] then utf16_decode False (drop 2 b)
      else if take 3 b = [0xEF, 0xBB, 0xBF] then utf8_decode (drop 3 b)
      else if 4 \<le> length b \<and> b ! 0 = 0 then
        (if b ! 1 \<noteq> 0 then utf16_decode True b else utf32_decode True b)
      else if 4 \<le> length b \<and> b ! 1 = 0 then
        (if b ! 2 \<noteq> 0 \<or> b ! 3 \<noteq> 0 then utf16_decode False b else utf32_decode False b)
      else if length b = 2 \<and> b ! 0 = 0 then utf16_decode True b
      else if length b = 2 \<and> b ! 1 = 0 then utf16_decode False b
      else utf8_decode b)"

text \<open>ASCII text without NUL is always taken as UTF-8.\<close>

lemma of_nat_byte_eq:
  assumes "m < 256" "n < 256"
  shows "(of_nat m :: byte) = of_nat n \<longleftrightarrow> m = n"
proof
  assume "(of_nat m :: byte) = of_nat n"
  then have "unat (of_nat m :: byte) = unat (of_nat n :: byte)" by simp
  with assms show "m = n" by (simp add: unat_of_nat)
qed simp

lemma ascii_byte_neq:
  "c < 128 \<Longrightarrow> 0 < c \<Longrightarrow> (of_nat c :: byte) \<noteq> 0"
  "c < 128 \<Longrightarrow> 128 \<le> n \<Longrightarrow> n < 256 \<Longrightarrow> (of_nat c :: byte) \<noteq> of_nat n"
  using of_nat_byte_eq [of c 0] of_nat_byte_eq [of c n] by auto

lemma json_decode_ascii:
  assumes "list_all (\<lambda>c. 0 < c \<and> c < 128) s"
  shows "json_decode_bytes (ascii_bytes s) = Some s"
proof -
  have nz: "c \<noteq> 0 \<and> c \<noteq> 0xFE \<and> c \<noteq> 0xFF \<and> c \<noteq> 0xEF" if mem: "c \<in> set (ascii_bytes s)" for c
  proof -
    from mem obtain n where n: "n \<in> set s" "c = of_nat n" by (auto simp: ascii_bytes_def)
    with assms have "0 < n" "n < 128" by (auto simp: list_all_iff)
    with n show ?thesis
      using ascii_byte_neq(1) [of n] ascii_byte_neq(2) [of n 254] ascii_byte_neq(2) [of n 255]
        ascii_byte_neq(2) [of n 239] by simp
  qed
  have tk: "x \<in> set (ascii_bytes s)" if "take k (ascii_bytes s) = x # ys" for k x ys
    using that by (metis in_set_takeD list.set_intros(1))
  have a: "take k (ascii_bytes s) \<noteq> 0 # ys" "take k (ascii_bytes s) \<noteq> 0xFE # ys"
    "take k (ascii_bytes s) \<noteq> 0xFF # ys" "take k (ascii_bytes s) \<noteq> 0xEF # ys" for k ys
    using tk nz by blast+
  have b: "s \<noteq> [] \<Longrightarrow> ascii_bytes s ! 0 \<noteq> 0" "1 < length s \<Longrightarrow> ascii_bytes s ! 1 \<noteq> 0"
    using nz nth_mem [of 0 "ascii_bytes s"] nth_mem [of 1 "ascii_bytes s"] by auto
  have d: "\<not> (2 \<le> length s \<and> ascii_bytes s ! 0 = 0)" "\<not> (2 \<le> length s \<and> ascii_bytes s ! 1 = 0)"
    using b by (cases "s = []"; simp)+
  have c: "\<not> (4 \<le> length s \<and> ascii_bytes s ! 0 = 0)" "\<not> (4 \<le> length s \<and> ascii_bytes s ! 1 = 0)"
    "\<not> (length s = 2 \<and> ascii_bytes s ! 0 = 0)" "\<not> (length s = 2 \<and> ascii_bytes s ! 1 = 0)"
    using d by linarith+
  have "is_ascii s" using assms by (auto simp: list_all_iff)
  then show ?thesis
    by (simp only: json_decode_bytes_def a c if_False length_ascii_bytes utf8_decode_ascii)
qed

end
