(* ===== verification/Json.thy ===== *)
theory Json
  imports PyText Complex_Main
begin

section \<open>JSON: \<^verbatim>\<open>json.dumps\<close> and \<^verbatim>\<open>json.loads\<close>\<close>

text \<open>
  The JSON encoder with the options the code passes (compact separators, optional key sorting,
  optional ASCII escaping) and the decoder of Python's \<^verbatim>\<open>json\<close> module: whitespace, the escape
  sequences with surrogate pairs, numbers, the \<^verbatim>\<open>NaN\<close> and \<^verbatim>\<open>Infinity\<close> extensions, duplicate
  object keys (the last one wins) and trailing data (an error). The decoder's results are the
  values \<open>pyval\<close> of Python's dynamic types. The main lemma, \<open>loads_dumps\<close>, is the round trip.
  Python's limit on the nesting depth of a document is not modelled.
\<close>

subsection \<open>Values\<close>

text \<open>A binary64 float is a rational or one of the special values; the sign of zero plays no
  role in the comparisons the code makes.\<close>

datatype pyfloat = FNaN | FInf | FNegInf | FNum rat

datatype pyval =
    PNone | PBool bool | PInt int | PFloat pyfloat | PStr pystr
  | PList "pyval list" | PDict "(pystr \<times> pyval) list"

text \<open>The values the code hands to \<^verbatim>\<open>json.dumps\<close>: it never encodes a float or a bool.\<close>

datatype jval =
    VNull | VInt int | VStr pystr | VList "jval list" | VDict "(pystr \<times> jval) list"

text \<open>Python's \<^verbatim>\<open>==\<close> between a decoded value and an \<^verbatim>\<open>int\<close>: \<^verbatim>\<open>True == 1\<close> and \<^verbatim>\<open>1.0 == 1\<close> hold.\<close>

fun py_eq_int :: "pyval \<Rightarrow> int \<Rightarrow> bool" where
  "py_eq_int (PInt j) i \<longleftrightarrow> j = i"
| "py_eq_int (PBool b) i \<longleftrightarrow> (if b then 1 else 0) = i"
| "py_eq_int (PFloat (FNum q)) i \<longleftrightarrow> q = of_int i"
| "py_eq_int _ i \<longleftrightarrow> False"

subsection \<open>Encoding\<close>

definition u_escape :: "nat \<Rightarrow> pystr" where
  "u_escape c = [92, 117] @ hex_fixed 4 c"

definition escape_char :: "bool \<Rightarrow> nat \<Rightarrow> pystr" where
  "escape_char ea c =
     (if c = 34 then [92, 34] else if c = 92 then [92, 92]
      else if c = 10 then [92, 110] else if c = 13 then [92, 114]
      else if c = 9 then [92, 116] else if c = 12 then [92, 102] else if c = 8 then [92, 98]
      else if c < 32 then u_escape c
      else if ea \<and> 126 < c then
        (if c < 0x10000 then u_escape c
         else u_escape (0xD800 + (c - 0x10000) div 1024) @ u_escape (0xDC00 + (c - 0x10000) mod 1024))
      else [c])"

definition dumps_str :: "bool \<Rightarrow> pystr \<Rightarrow> pystr" where
  "dumps_str ea s = [34] @ concat (map (escape_char ea) s) @ [34]"

definition dict_order :: "bool \<Rightarrow> (pystr \<times> 'a) list \<Rightarrow> (pystr \<times> 'a) list" where
  "dict_order srt kvs = (if srt then sort_key fst kvs else kvs)"

text \<open>\<^verbatim>\<open>json.dumps(v, sort_keys=srt, ensure_ascii=ea, separators=(",", ":"))\<close>.\<close>

fun dumps :: "bool \<Rightarrow> bool \<Rightarrow> jval \<Rightarrow> pystr" where
  "dumps srt ea VNull = [110, 117, 108, 108]"
| "dumps srt ea (VInt i) = dec_of_int i"
| "dumps srt ea (VStr s) = dumps_str ea s"
| "dumps srt ea (VList vs) = [91] @ join [44] (map (dumps srt ea) vs) @ [93]"
| "dumps srt ea (VDict kvs) =
     [123] @ join [44] (map (\<lambda>(k, t). dumps_str ea k @ [58] @ t)
                         (dict_order srt (map (\<lambda>(k, v). (k, dumps srt ea v)) kvs))) @ [125]"

text \<open>The decoded form of an encoded value: what \<open>loads\<close> gives back.\<close>

fun decoded :: "bool \<Rightarrow> jval \<Rightarrow> pyval" where
  "decoded srt VNull = PNone"
| "decoded srt (VInt i) = PInt i"
| "decoded srt (VStr s) = PStr s"
| "decoded srt (VList vs) = PList (map (decoded srt) vs)"
| "decoded srt (VDict kvs) = PDict (dict_order srt (map (\<lambda>(k, v). (k, decoded srt v)) kvs))"

subsection \<open>Decoding\<close>

definition json_error :: "string \<Rightarrow> 'a result" where
  "json_error msg = Inl (Error JSONDecodeError msg)"

lemma json_error_neq_Inr [simp]: "json_error m \<noteq> Inr x" "Inr x \<noteq> json_error m"
  by (simp_all add: json_error_def)

fun skip_ws :: "pystr \<Rightarrow> pystr" where
  "skip_ws [] = []"
| "skip_ws (c # s) = (if c = 32 \<or> c = 9 \<or> c = 10 \<or> c = 13 then skip_ws s else c # s)"

lemma length_skip_ws: "length (skip_ws s) \<le> length s"
  by (induction s) auto

lemma skip_ws_noop: "s \<noteq> [] \<Longrightarrow> hd s \<notin> {32, 9, 10, 13} \<Longrightarrow> skip_ws s = s"
  by (cases s) auto

text \<open>Binary rounding of a rational to the nearest binary64 value, ties to even.\<close>

definition round_half_even :: "rat \<Rightarrow> int" where
  "round_half_even q =
     (let f = \<lfloor>q\<rfloor>; d = q - of_int f in
      if d < 1 / 2 then f else if 1 / 2 < d then f + 1 else if even f then f else f + 1)"

fun bit_len :: "nat \<Rightarrow> nat" where
  "bit_len n = (if n = 0 then 0 else Suc (bit_len (n div 2)))"

declare bit_len.simps [simp del]

definition pow2 :: "int \<Rightarrow> rat" where
  "pow2 e = (if 0 \<le> e then 2 ^ nat e else 1 / 2 ^ nat (- e))"

definition round64 :: "rat \<Rightarrow> pyfloat" where
  "round64 q =
     (if q = 0 then FNum 0
      else
        let (a, b) = quotient_of \<bar>q\<bar>;
            k = int (bit_len (nat a)) - int (bit_len (nat b));
            l = (if pow2 k \<le> \<bar>q\<bar> then k else k - 1);
            e = max (l - 52) (- 1074);
            r = of_int (round_half_even (q / pow2 e)) * pow2 e
        in if pow2 1024 \<le> r then FInf else if r \<le> - pow2 1024 then FNegInf else FNum r)"

text \<open>Numbers: \<^verbatim>\<open>-?(0|[1-9][0-9]*)(\.[0-9]+)?([eE][-+]?[0-9]+)?\<close>. An integer of more than 4300
  digits raises a plain \<^verbatim>\<open>ValueError\<close>, Python's guard on integer conversion.\<close>

definition scan_frac :: "pystr \<Rightarrow> pystr \<times> pystr" where
  "scan_frac s =
     (case s of
        c # d # s' \<Rightarrow>
          if c = 46 \<and> is_digit d
          then (takeWhile is_digit (d # s'), dropWhile is_digit (d # s')) else ([], s)
      | _ \<Rightarrow> ([], s))"

definition scan_exp :: "pystr \<Rightarrow> (int \<times> pystr) option" where
  "scan_exp s =
     (case s of
        c # s' \<Rightarrow>
          if c = 101 \<or> c = 69 then
            (let (sg, t) = (case s' of x # t' \<Rightarrow> if x = 45 then (- 1, t') else if x = 43 then (1, t')
                                                 else (1, s')
                                     | [] \<Rightarrow> (1, s')) in
             case t of
               d # _ \<Rightarrow>
                 if is_digit d
                 then Some (sg * int (dec_val (takeWhile is_digit t)), dropWhile is_digit t)
                 else None
             | [] \<Rightarrow> None)
          else None
      | [] \<Rightarrow> None)"

definition pow10 :: "int \<Rightarrow> rat" where
  "pow10 e = (if 0 \<le> e then 10 ^ nat e else 1 / 10 ^ nat (- e))"

definition number_value :: "bool \<Rightarrow> pystr \<Rightarrow> pystr \<Rightarrow> int \<Rightarrow> rat" where
  "number_value neg ip fp ex =
     (if neg then - 1 else 1) * of_nat (dec_val (ip @ fp)) * pow10 (ex - int (length fp))"

definition int_digits_limit :: nat where
  "int_digits_limit = 4300"

definition finish_number :: "bool \<Rightarrow> pystr \<Rightarrow> pystr \<Rightarrow> (pyval \<times> pystr) result" where
  "finish_number neg ip s =
     (let (fp, s1) = scan_frac s in
      case scan_exp s1 of
        Some (ex, s2) \<Rightarrow> Inr (PFloat (round64 (number_value neg ip fp ex)), s2)
      | None \<Rightarrow>
          if fp \<noteq> [] then Inr (PFloat (round64 (number_value neg ip fp 0)), s1)
          else if int_digits_limit < length ip
          then Inl (Error ValueError ''Exceeds the limit for integer string conversion'')
          else Inr (PInt ((if neg then - 1 else 1) * int (dec_val ip)), s1))"

definition scan_number :: "pystr \<Rightarrow> (pyval \<times> pystr) result" where
  "scan_number s =
     (let neg = (s \<noteq> [] \<and> hd s = 45); t = (if neg then tl s else s) in
      case t of
        [] \<Rightarrow> json_error ''Expecting value''
      | d # t' \<Rightarrow>
          if d = 48 then finish_number neg [48] t'
          else if is_digit d then finish_number neg (takeWhile is_digit t) (dropWhile is_digit t)
          else json_error ''Expecting value'')"

text \<open>String bodies, after the opening quote.\<close>

definition simple_escape :: "nat \<Rightarrow> nat option" where
  "simple_escape e =
     (if e = 34 then Some 34 else if e = 92 then Some 92 else if e = 47 then Some 47
      else if e = 98 then Some 8 else if e = 102 then Some 12 else if e = 110 then Some 10
      else if e = 114 then Some 13 else if e = 116 then Some 9 else None)"

text \<open>A second escape that is a low surrogate joins a preceding high surrogate.\<close>

definition low_surrogate :: "pystr \<Rightarrow> nat option" where
  "low_surrogate s =
     (if length s \<ge> 6 \<and> take 2 s = [92, 117]
      then (case hex_number 0 (take 4 (drop 2 s)) of
              Some v \<Rightarrow> if 0xDC00 \<le> v \<and> v \<le> 0xDFFF then Some v else None
            | None \<Rightarrow> None)
      else None)"

fun scan_string :: "pystr \<Rightarrow> (pystr \<times> pystr) option" where
  "scan_string [] = None"
| "scan_string (c # s) =
     (if c = 34 then Some ([], s)
      else if c = 92 then
        (case s of
           [] \<Rightarrow> None
         | e # s1 \<Rightarrow>
             if e = 117 then
               (case s1 of
                  a # b # d # f # s2 \<Rightarrow>
                    (case hex_number 0 [a, b, d, f] of
                       None \<Rightarrow> None
                     | Some u \<Rightarrow>
                         if 0xD800 \<le> u \<and> u \<le> 0xDBFF \<and> low_surrogate s2 \<noteq> None
                         then map_option
                                (\<lambda>(t, r). ((0x10000 + (u - 0xD800) * 1024
                                            + (the (low_surrogate s2) - 0xDC00)) # t, r))
                                (scan_string (drop 6 s2))
                         else map_option (\<lambda>(t, r). (u # t, r)) (scan_string s2))
                | _ \<Rightarrow> None)
             else (case simple_escape e of
                     None \<Rightarrow> None
                   | Some d \<Rightarrow> map_option (\<lambda>(t, r). (d # t, r)) (scan_string s1)))
      else if c < 32 then None
      else map_option (\<lambda>(t, r). (c # t, r)) (scan_string s))"

declare scan_string.simps(2) [simp del]

lemma scan_string_suffix:
  assumes "scan_string (c # s) = Some (t, r)"
  shows "r = s \<or> (\<exists>s' t'. scan_string s' = Some (t', r) \<and> length s' \<le> length s)"
  using assms
  by (subst (asm) scan_string.simps(2))
    (fastforce split: if_splits list.splits option.splits)

lemma scan_string_shorter: "scan_string s = Some (t, r) \<Longrightarrow> length r < length s"
proof (induction "length s" arbitrary: s t r rule: less_induct)
  case less
  then obtain c s' where s: "s = c # s'" by (cases s) auto
  with less.prems scan_string_suffix consider "r = s'"
    | u t' where "scan_string u = Some (t', r)" "length u \<le> length s'" by blast
  then show ?case
  proof cases
    case 2
    with less.hyps [of u t' r] s show ?thesis by simp
  qed (simp add: s)
qed

definition scan_literal :: "pystr \<Rightarrow> (pyval \<times> pystr) option" where
  "scan_literal s =
     (if take 4 s = lit ''null'' then Some (PNone, drop 4 s)
      else if take 4 s = lit ''true'' then Some (PBool True, drop 4 s)
      else if take 5 s = lit ''false'' then Some (PBool False, drop 5 s)
      else if take 3 s = lit ''NaN'' then Some (PFloat FNaN, drop 3 s)
      else if take 8 s = lit ''Infinity'' then Some (PFloat FInf, drop 8 s)
      else if take 9 s = lit ''-Infinity'' then Some (PFloat FNegInf, drop 9 s)
      else None)"

lemma scan_literal_shorter: "scan_literal s = Some (v, r) \<Longrightarrow> s \<noteq> [] \<Longrightarrow> length r < length s"
  by (auto simp: scan_literal_def split: if_splits)

lemma skip_ws_Cons_length: "skip_ws s = c # r \<Longrightarrow> length r < length s"
  using length_skip_ws [of s] by simp

lemma skip_ws_less: "length s < n \<Longrightarrow> length (skip_ws s) < n"
  using length_skip_ws [of s] by simp

text \<open>One value at the head of the input and the input that follows it. The length tests on the
  remaining input always succeed (\<open>scan_value_shorter\<close>); they make the recursion well-founded.\<close>

definition scan_key :: "pystr \<Rightarrow> (pystr \<times> pystr) result" where
  "scan_key s =
     (case s of
        [] \<Rightarrow> json_error ''Expecting property name enclosed in double quotes''
      | c # s' \<Rightarrow>
          if c \<noteq> 34 then json_error ''Expecting property name enclosed in double quotes''
          else
            (case scan_string s' of
               None \<Rightarrow> json_error ''Invalid string''
             | Some (k, r) \<Rightarrow>
                 (case skip_ws r of
                    d # r' \<Rightarrow> if d = 58 then Inr (k, skip_ws r')
                              else json_error ''Expecting : delimiter''
                  | [] \<Rightarrow> json_error ''Expecting : delimiter'')))"

lemma scan_key_shorter: "scan_key s = Inr (k, r) \<Longrightarrow> length r < length s"
proof -
  assume "scan_key s = Inr (k, r)"
  then obtain s' t d r' where "s = 34 # s'" "scan_string s' = Some (k, t)" "skip_ws t = d # r'"
    "r = skip_ws r'"
    by (auto simp: scan_key_def split: list.splits option.splits if_splits)
  then show ?thesis
    using scan_string_shorter [of s' k t] length_skip_ws [of t] length_skip_ws [of r'] by simp
qed

function (sequential) scan_value :: "pystr \<Rightarrow> (pyval \<times> pystr) result"
  and scan_elems :: "pystr \<Rightarrow> (pyval list \<times> pystr) result"
  and scan_members :: "pystr \<Rightarrow> ((pystr \<times> pyval) list \<times> pystr) result" where
  "scan_value s =
     (case s of
        [] \<Rightarrow> json_error ''Expecting value''
      | c # s' \<Rightarrow>
          if c = 34 then
            (case scan_string s' of
               None \<Rightarrow> json_error ''Invalid string''
             | Some (t, r) \<Rightarrow> Inr (PStr t, r))
          else if c = 123 then
            (case skip_ws s' of
               [] \<Rightarrow> json_error ''Expecting property name enclosed in double quotes''
             | d # r \<Rightarrow>
                 if d = 125 then Inr (PDict [], r)
                 else rbind (scan_members (skip_ws s'))
                        (\<lambda>(ms, r). Inr (PDict (foldl (\<lambda>d (k, v). dict_set k v d) [] ms), r)))
          else if c = 91 then
            (case skip_ws s' of
               [] \<Rightarrow> json_error ''Expecting value''
             | d # r \<Rightarrow>
                 if d = 93 then Inr (PList [], r)
                 else rbind (scan_elems (skip_ws s')) (\<lambda>(vs, r). Inr (PList vs, r)))
          else (case scan_literal s of Some vr \<Rightarrow> Inr vr | None \<Rightarrow> scan_number s))"
| "scan_elems s =
     rbind (scan_value s) (\<lambda>(v, r).
       case skip_ws r of
         [] \<Rightarrow> json_error ''Expecting , delimiter''
       | d # r' \<Rightarrow>
           if d = 93 then Inr ([v], r')
           else if d = 44 \<and> length r' < length s then
             rbind (scan_elems (skip_ws r')) (\<lambda>(vs, r''). Inr (v # vs, r''))
           else json_error ''Expecting , delimiter'')"
| "scan_members s =
     rbind (scan_key s) (\<lambda>(k, t).
       if \<not> length t < length s then json_error ''Expecting value''
       else rbind (scan_value t) (\<lambda>(v, r).
         case skip_ws r of
           [] \<Rightarrow> json_error ''Expecting , delimiter''
         | d # r' \<Rightarrow>
             if d = 125 then Inr ([(k, v)], r')
             else if d = 44 \<and> length r' < length s then
               rbind (scan_members (skip_ws r')) (\<lambda>(ms, r''). Inr ((k, v) # ms, r''))
             else json_error ''Expecting , delimiter''))"
  by pat_completeness auto

termination
  by (relation "measure (\<lambda>x. case x of Inl s \<Rightarrow> 2 * length s
                                 | Inr (Inl s) \<Rightarrow> 2 * length s + 1
                                 | Inr (Inr s) \<Rightarrow> 2 * length s + 1)")
    (auto dest: skip_ws_Cons_length simp: skip_ws_less less_Suc_eq_le Suc_le_eq)

declare scan_value.simps [simp del] scan_elems.simps [simp del] scan_members.simps [simp del]

text \<open>\<^verbatim>\<open>json.loads\<close> of a \<^verbatim>\<open>str\<close> and of a \<^verbatim>\<open>bytes\<close> object.\<close>

definition loads :: "pystr \<Rightarrow> pyval result" where
  "loads s =
     (if s \<noteq> [] \<and> hd s = 0xFEFF then json_error ''Unexpected UTF-8 BOM (decode using utf-8-sig)''
      else rbind (scan_value (skip_ws s)) (\<lambda>(v, r).
        if skip_ws r = [] then Inr v else json_error ''Extra data''))"

definition loads_bytes :: "bytes \<Rightarrow> pyval result" where
  "loads_bytes b =
     (case json_decode_bytes b of
        None \<Rightarrow> Inl (Error UnicodeDecodeError ''invalid encoding'')
      | Some s \<Rightarrow> loads s)"

subsection \<open>The decoder consumes its input\<close>

lemma dropWhile_length_le: "length (dropWhile P xs) \<le> length xs"
  by (induction xs) auto

lemma scan_frac_length: "scan_frac s = (fp, r) \<Longrightarrow> length r \<le> length s"
  using dropWhile_length_le [of is_digit]
  by (auto simp: scan_frac_def le_Suc_eq split: list.splits if_splits)

lemma scan_exp_length: "scan_exp s = Some (e, r) \<Longrightarrow> length r \<le> length s"
  using dropWhile_length_le [of is_digit]
  by (auto simp: scan_exp_def le_Suc_eq Let_def split: list.splits if_splits)

lemma finish_number_length: "finish_number neg ip s = Inr (v, r) \<Longrightarrow> length r \<le> length s"
  by (auto simp: finish_number_def Let_def split: prod.splits option.splits if_splits
      dest: scan_frac_length scan_exp_length dest!: le_trans [OF scan_exp_length scan_frac_length])

lemma scan_number_length: "scan_number s = Inr (v, r) \<Longrightarrow> length r < length s"
proof -
  assume h: "scan_number s = Inr (v, r)"
  define neg where "neg = (s \<noteq> [] \<and> hd s = 45)"
  define t where "t = (if neg then tl s else s)"
  have ts: "length t \<le> length s" by (simp add: t_def)
  from h obtain d t' where t: "t = d # t'"
    by (auto simp: scan_number_def Let_def neg_def t_def split: list.splits)
  consider "finish_number neg [48] t' = Inr (v, r)"
    | "is_digit d" "finish_number neg (takeWhile is_digit t) (dropWhile is_digit t) = Inr (v, r)"
    using h t by (auto simp: scan_number_def Let_def neg_def t_def split: if_splits)
  then show ?thesis
  proof cases
    case 1
    from finish_number_length [OF this] t ts show ?thesis by simp
  next
    case 2
    have "length (dropWhile is_digit t) \<le> length t'"
      using 2(1) t dropWhile_length_le [of is_digit t'] by simp
    with finish_number_length [OF 2(2)] t ts show ?thesis by simp
  qed
qed

text \<open>Every decoded value consumes input, so the length tests of the recursion never reject.\<close>

lemma scan_value_Nil: "scan_value [] = json_error ''Expecting value''"
  by (simp add: scan_value.simps)

lemma scan_value_shapes:
  assumes "scan_value (c # s) = Inr (v, r)"
  obtains (str) t where "c = 34" "scan_string s = Some (t, r)"
    | (empty) d where "skip_ws s = d # r"
    | (dict) d t ms where "c = 123" "skip_ws s = d # t" "d \<noteq> 125" "scan_members (skip_ws s) = Inr (ms, r)"
    | (list) d t vs where "c = 91" "skip_ws s = d # t" "d \<noteq> 93" "scan_elems (skip_ws s) = Inr (vs, r)"
    | (lit) "scan_literal (c # s) = Some (v, r)"
    | (num) "scan_number (c # s) = Inr (v, r)"
proof -
  consider "c = 34" | "c = 123" | "c = 91" | "c \<noteq> 34" "c \<noteq> 123" "c \<noteq> 91" by blast
  then show ?thesis
  proof cases
    case 1
    with assms str show ?thesis
      by (subst (asm) scan_value.simps) (simp split: option.splits prod.splits)
  next
    case 2
    with assms show ?thesis
      by (subst (asm) scan_value.simps)
        (auto simp: rbind_eq_Inr split: list.splits if_splits intro: empty dict)
  next
    case 3
    with assms show ?thesis
      by (subst (asm) scan_value.simps)
        (auto simp: rbind_eq_Inr split: list.splits if_splits intro: empty list)
  next
    case 4
    with assms have "(case scan_literal (c # s) of Some vr \<Rightarrow> Inr vr | None \<Rightarrow> scan_number (c # s)) = Inr (v, r)"
      by (subst (asm) scan_value.simps) simp
    then show ?thesis by (cases "scan_literal (c # s)") (auto intro: lit num)
  qed
qed

lemma scan_value_shorter:
  "scan_value s = Inr (v, r) \<Longrightarrow> length r < length s"
  "scan_elems s = Inr (vs, r) \<Longrightarrow> length r < length s"
  "scan_members s = Inr (ms, r) \<Longrightarrow> length r < length s"
proof (induction s and s and s arbitrary: v r and vs r and ms r
    rule: scan_value_scan_elems_scan_members.induct)
  case (1 s)
  obtain c s' where s: "s = c # s'"
    using "1.prems" scan_value_Nil by (cases s) auto
  have sw: "length (skip_ws s') \<le> length s'" by (rule length_skip_ws)
  from "1.prems" [unfolded s] show ?case
  proof (cases rule: scan_value_shapes)
    case (dict d t ms)
    have "length r < length (skip_ws s')"
      by (rule "1.IH"(1) [OF s _ dict]) (simp add: dict(1))
    with sw s show ?thesis by simp
  next
    case (list d t ws)
    have "length r < length (skip_ws s')"
      by (rule "1.IH"(2) [OF s _ _ list]) (simp_all add: list(1))
    with sw s show ?thesis by simp
  next
    case (empty d)
    with sw s show ?thesis by simp
  next
    case (str t)
    then show ?thesis using s by (auto dest: scan_string_shorter)
  next
    case lit
    then show ?thesis using s by (auto dest: scan_literal_shorter)
  next
    case num
    then show ?thesis using s by (auto dest: scan_number_length)
  qed
next
  case (2 s)
  from "2.prems" obtain v t where v: "scan_value s = Inr (v, t)"
    by (auto simp: scan_elems.simps [of s] rbind_eq_Inr)
  from "2.prems" v obtain d t' where d: "skip_ws t = d # t'"
    by (auto simp: scan_elems.simps [of s] split: list.splits)
  have t: "length t' < length s"
    using "2.IH"(1) [OF v] skip_ws_Cons_length [OF d] by simp
  show ?case
  proof (cases "d = 93")
    case True
    with "2.prems" v d t show ?thesis by (auto simp: scan_elems.simps [of s])
  next
    case False
    with "2.prems" v d t obtain ws where ws: "d = 44" "scan_elems (skip_ws t') = Inr (ws, r)"
      by (auto simp: scan_elems.simps [of s] rbind_eq_Inr split: if_splits)
    have "length r < length (skip_ws t')"
      by (rule "2.IH"(2) [OF v refl d False _ ws(2)]) (simp add: ws(1) t)
    with t length_skip_ws [of t'] show ?thesis by simp
  qed
next
  case (3 s)
  from "3.prems" obtain k u where k: "scan_key s = Inr (k, u)"
    by (auto simp: scan_members.simps [of s] rbind_eq_Inr)
  have u: "length u < length s" using k by (rule scan_key_shorter)
  from "3.prems" k u obtain v t where v: "scan_value u = Inr (v, t)"
    by (auto simp: scan_members.simps [of s] rbind_eq_Inr)
  from "3.prems" k u v obtain d t' where d: "skip_ws t = d # t'"
    by (auto simp: scan_members.simps [of s] split: list.splits)
  have "length t < length u" by (rule "3.IH"(1) [OF k refl _ v]) (simp add: u)
  then have t: "length t' < length s" using u skip_ws_Cons_length [OF d] by simp
  show ?case
  proof (cases "d = 125")
    case True
    with "3.prems" k u v d t show ?thesis by (auto simp: scan_members.simps [of s])
  next
    case False
    with "3.prems" k u v d t obtain ws where ws: "d = 44" "scan_members (skip_ws t') = Inr (ws, r)"
      by (auto simp: scan_members.simps [of s] rbind_eq_Inr split: if_splits)
    have "length r < length (skip_ws t')"
      by (rule "3.IH"(2) [OF k refl _ v refl d False _ ws(2)]) (simp_all add: ws(1) t u)
    with t length_skip_ws [of t'] show ?thesis by simp
  qed
qed

subsection \<open>Strings round-trip\<close>

lemma hex_fixed_4_ex: "\<exists>a b c d. hex_fixed 4 n = [a, b, c, d]"
proof -
  have "length xs = 4 \<Longrightarrow> \<exists>a b c d. xs = [a, b, c, d]" for xs :: pystr
    by (auto simp: numeral_eq_Suc length_Suc_conv)
  then show ?thesis by simp
qed

lemma scan_string_u_raw:
  assumes "u < 0x10000"
  shows "scan_string (u_escape u @ s) =
     (if 0xD800 \<le> u \<and> u \<le> 0xDBFF \<and> low_surrogate s \<noteq> None
      then map_option (\<lambda>(t, r). ((0x10000 + (u - 0xD800) * 1024 + (the (low_surrogate s) - 0xDC00)) # t, r))
             (scan_string (drop 6 s))
      else map_option (\<lambda>(t, r). (u # t, r)) (scan_string s))"
proof -
  obtain a b c d where h: "hex_fixed 4 u = [a, b, c, d]" using hex_fixed_4_ex by blast
  with assms have n: "hex_number 0 [a, b, c, d] = Some u" using hex_number_fixed [of u 4 0] by simp
  have "u_escape u @ s = 92 # 117 # a # b # c # d # s" by (simp add: u_escape_def h)
  then have "scan_string (u_escape u @ s) = scan_string (92 # 117 # a # b # c # d # s)" by (rule arg_cong)
  also have "\<dots> = (if 0xD800 \<le> u \<and> u \<le> 0xDBFF \<and> low_surrogate s \<noteq> None
      then map_option (\<lambda>(t, r). ((0x10000 + (u - 0xD800) * 1024 + (the (low_surrogate s) - 0xDC00)) # t, r))
             (scan_string (drop 6 s))
      else map_option (\<lambda>(t, r). (u # t, r)) (scan_string s))"
    by (subst scan_string.simps(2)) (simp add: n del: hex_number.simps)
  finally show ?thesis .
qed

lemma scan_string_u:
  assumes "u < 0x10000" "\<not> (0xD800 \<le> u \<and> u \<le> 0xDBFF)"
  shows "scan_string (u_escape u @ s) = map_option (\<lambda>(t, r). (u # t, r)) (scan_string s)"
  using assms(2) by (subst scan_string_u_raw [OF assms(1)]) auto

lemma low_surrogate_u:
  assumes "0xDC00 \<le> u" "u \<le> 0xDFFF"
  shows "low_surrogate (u_escape u @ s) = Some u"
  using assms hex_number_fixed [of u 4 0] by (simp add: low_surrogate_def u_escape_def)

lemma scan_string_pair:
  assumes "0x10000 \<le> c" "c < 0x110000"
  shows "scan_string (u_escape (0xD800 + (c - 0x10000) div 1024)
            @ u_escape (0xDC00 + (c - 0x10000) mod 1024) @ s)
         = map_option (\<lambda>(t, r). (c # t, r)) (scan_string s)"
proof -
  define h where "h = 0xD800 + (c - 0x10000) div 1024"
  define l where "l = 0xDC00 + (c - 0x10000) mod 1024"
  have h: "0xD800 \<le> h" "h \<le> 0xDBFF" using assms by (auto simp: h_def)
  have l: "0xDC00 \<le> l" "l \<le> 0xDFFF" by (auto simp: l_def)
  have c: "0x10000 + (h - 0xD800) * 1024 + (l - 0xDC00) = c"
    using assms(1) div_mult_mod_eq [of "c - 0x10000" 1024] by (simp add: h_def l_def)
  have dr: "drop 6 (u_escape l @ s) = s" by (simp add: u_escape_def)
  have "scan_string (u_escape h @ u_escape l @ s) = map_option (\<lambda>(t, r). (c # t, r)) (scan_string s)"
    using h(2) by (subst scan_string_u_raw, simp,
        simp only: h low_surrogate_u [OF l] option.sel option.distinct simp_thms if_True c dr)
  then show ?thesis unfolding h_def l_def .
qed

lemma escape_char_cases:
  obtains (short) e where "escape_char ea c = [92, e]" "simple_escape e = Some c" "e \<noteq> 117"
  | (one) "escape_char ea c = u_escape c" "c < 0x10000"
  | (two) "0x10000 \<le> c"
      "escape_char ea c = u_escape (0xD800 + (c - 0x10000) div 1024)
                          @ u_escape (0xDC00 + (c - 0x10000) mod 1024)"
  | (plain) "escape_char ea c = [c]" "32 \<le> c" "c \<noteq> 34" "c \<noteq> 92"
proof (cases "c \<in> {34, 92, 10, 13, 9, 12, 8}")
  case True
  then have "\<exists>e. escape_char ea c = [92, e] \<and> simple_escape e = Some c \<and> e \<noteq> 117"
    by (elim insertE emptyE) (simp_all add: escape_char_def simple_escape_def)
  then show ?thesis using short by blast
next
  case False
  then have n: "c \<noteq> 34" "c \<noteq> 92" "c \<noteq> 10" "c \<noteq> 13" "c \<noteq> 9" "c \<noteq> 12" "c \<noteq> 8" by blast+
  have e: "escape_char ea c =
      (if c < 32 then u_escape c
       else if ea \<and> 126 < c then
         (if c < 0x10000 then u_escape c
          else u_escape (0xD800 + (c - 0x10000) div 1024) @ u_escape (0xDC00 + (c - 0x10000) mod 1024))
       else [c])"
    by (simp only: escape_char_def n if_False)
  consider "c < 32" | "\<not> c < 32" "ea \<and> 126 < c" "c < 0x10000"
    | "\<not> c < 32" "ea \<and> 126 < c" "\<not> c < 0x10000" | "\<not> c < 32" "\<not> (ea \<and> 126 < c)"
    by blast
  then show ?thesis
  proof cases
    assume "c < 32"
    then have "escape_char ea c = u_escape c" by (simp only: e if_True)
    with \<open>c < 32\<close> show ?thesis by (intro one) simp_all
  next
    assume h: "\<not> c < 32" "ea \<and> 126 < c" "c < 0x10000"
    have "escape_char ea c = u_escape c" unfolding e by (simp only: h if_True if_False simp_thms)
    with h(3) show ?thesis by (rule one [rotated])
  next
    assume h: "\<not> c < 32" "ea \<and> 126 < c" "\<not> c < 0x10000"
    have "escape_char ea c = u_escape (0xD800 + (c - 0x10000) div 1024)
            @ u_escape (0xDC00 + (c - 0x10000) mod 1024)"
      unfolding e by (simp only: h if_True if_False simp_thms)
    with h(3) show ?thesis by (intro two) (simp_all only: not_less)
  next
    assume h: "\<not> c < 32" "\<not> (ea \<and> 126 < c)"
    have "escape_char ea c = [c]" unfolding e by (simp only: h if_False)
    moreover have "32 \<le> c" using h(1) by simp
    ultimately show ?thesis using n(1,2) by (rule plain)
  qed
qed

lemma scan_string_escape:
  assumes "scalar_value c"
  shows "scan_string (escape_char ea c @ s) = map_option (\<lambda>(t, r). (c # t, r)) (scan_string s)"
proof -
  have sv: "c < 0x110000" "\<not> (0xD800 \<le> c \<and> c \<le> 0xDBFF)"
    using assms by (auto simp: scalar_value_def is_surrogate_def)
  show ?thesis
  proof (cases ea c rule: escape_char_cases)
    case (short e)
    then show ?thesis by (simp add: scan_string.simps(2))
  next
    case one
    then show ?thesis using sv scan_string_u by simp
  next
    case two
    then show ?thesis using sv scan_string_pair by simp
  next
    case plain
    then show ?thesis by (simp add: scan_string.simps(2))
  qed
qed

lemma scan_string_dumps:
  "list_all scalar_value s \<Longrightarrow>
   scan_string (concat (map (escape_char ea) s) @ 34 # r) = Some (s, r)"
  by (induction s) (simp_all add: scan_string_escape scan_string.simps(2))

subsection \<open>The round trip\<close>

text \<open>Values within the encoder's domain: encodable text, integers within Python's conversion
  limit, and dicts whose keys are distinct.\<close>

fun jval_ok :: "jval \<Rightarrow> bool" where
  "jval_ok VNull = True"
| "jval_ok (VInt i) = (\<bar>i\<bar> < 10 ^ int_digits_limit)"
| "jval_ok (VStr s) = list_all scalar_value s"
| "jval_ok (VList vs) = list_all jval_ok vs"
| "jval_ok (VDict kvs) =
     (distinct (map fst kvs) \<and> list_all (\<lambda>(k, v). list_all scalar_value k \<and> jval_ok v) kvs)"

definition stops :: "pystr \<Rightarrow> bool" where
  "stops r \<longleftrightarrow> (case r of [] \<Rightarrow> True | c # _ \<Rightarrow> \<not> is_digit c \<and> c \<noteq> 46 \<and> c \<noteq> 101 \<and> c \<noteq> 69)"

lemma stops_simps [simp]: "stops []" "stops (44 # r)" "stops (93 # r)" "stops (125 # r)"
  by (simp_all add: stops_def is_digit_def)

lemma takeWhile_digits_stop:
  assumes "\<And>c. c \<in> set ds \<Longrightarrow> is_digit c" "stops r"
  shows "takeWhile is_digit (ds @ r) = ds" "dropWhile is_digit (ds @ r) = r"
proof -
  have "takeWhile is_digit r = [] \<and> dropWhile is_digit r = r"
    using assms(2) by (cases r) (auto simp: stops_def)
  with assms(1) show "takeWhile is_digit (ds @ r) = ds" "dropWhile is_digit (ds @ r) = r"
    by (auto simp: takeWhile_append dropWhile_append dropWhile_eq_Nil_conv takeWhile_eq_all_conv)
qed

lemma finish_number_stop:
  assumes "stops r" "length ip \<le> int_digits_limit"
  shows "finish_number neg ip r = Inr (PInt ((if neg then - 1 else 1) * int (dec_val ip)), r)"
proof -
  have "scan_frac r = ([], r)" "scan_exp r = None"
    using assms(1) by (auto simp: scan_frac_def scan_exp_def stops_def split: list.splits)
  with assms(2) show ?thesis by (simp add: finish_number_def)
qed

lemma finish_digits:
  assumes "stops r" "n < 10 ^ int_digits_limit" "dec_of_nat n = d # ds"
  shows "(if d = 48 then finish_number neg [48] (ds @ r)
          else if is_digit d
          then finish_number neg (takeWhile is_digit (d # ds @ r)) (dropWhile is_digit (d # ds @ r))
          else e) = Inr (PInt ((if neg then - 1 else 1) * int n), r)"
proof -
  have dd: "is_digit d" using dec_of_nat_digits [of d n] assms(3) by simp
  have "length (dec_of_nat n) \<le> int_digits_limit"
    by (rule length_dec_of_nat [OF assms(2)]) (simp add: int_digits_limit_def)
  then have fin: "finish_number neg (d # ds) r = Inr (PInt ((if neg then - 1 else 1) * int n), r)"
    using finish_number_stop [OF assms(1), of "dec_of_nat n" neg] by (simp only: assms(3) [symmetric] dec_val_of_nat)
  have tw: "takeWhile is_digit (d # ds @ r) = d # ds" "dropWhile is_digit (d # ds @ r) = r"
    using takeWhile_digits_stop [OF dec_of_nat_digits assms(1)] by (simp_all only: append_Cons [symmetric] assms(3) [symmetric])
  show ?thesis
  proof (cases "n = 0")
    case True
    then have "d = 48" "ds = []" using assms(3) by (simp_all add: dec_of_nat_0)
    with fin show ?thesis by (simp only: if_True append_Nil simp_thms)
  next
    case False
    then have "d \<noteq> 48" using dec_of_nat_hd_zero [of n] assms(3) by simp
    with dd fin show ?thesis by (simp only: tw if_False if_True)
  qed
qed

lemma scan_number_dec:
  assumes "stops r" "\<bar>i\<bar> < 10 ^ int_digits_limit"
  shows "scan_number (dec_of_int i @ r) = Inr (PInt i, r)"
proof -
  have b: "nat \<bar>i\<bar> < 10 ^ int_digits_limit" using assms(2) by (simp add: nat_less_iff)
  obtain d ds where d: "dec_of_nat (nat \<bar>i\<bar>) = d # ds" by (cases "dec_of_nat (nat \<bar>i\<bar>)") auto
  have n45: "(d = 45) = False" using dec_of_nat_digits [of d "nat \<bar>i\<bar>"] d by (auto simp: is_digit_def)
  have di: "dec_of_int i = (if i < 0 then 45 # d # ds else d # ds)"
    using d by (auto simp: dec_of_int_def)
  have v: "(if i < 0 then - 1 else 1) * int (nat \<bar>i\<bar>) = i" by simp
  from finish_digits [OF assms(1) b d, of "i < 0"] v show ?thesis
    by (cases "i < 0") (simp_all only: scan_number_def di Let_def if_True if_False n45
        list.case list.sel append_Cons simp_thms list.distinct)
qed

text \<open>The first character of an encoded value selects the decoder's branch.\<close>

lemma dec_of_int_head:
  obtains c s where "dec_of_int i = c # s" "is_digit c \<or> c = 45 \<and> s \<noteq> [] \<and> is_digit (hd s)"
proof (cases "dec_of_int i")
  case Nil
  then show ?thesis by (simp add: dec_of_int_def split: if_splits)
next
  case (Cons c s)
  have "is_digit (hd (dec_of_nat n))" for n
    using dec_of_nat_digits [of "hd (dec_of_nat n)" n] by simp
  note h = this [of "nat (- i)"] this [of "nat i"]
  have "is_digit c \<or> c = 45 \<and> s \<noteq> [] \<and> is_digit (hd s)"
    by (cases "i < 0") (use Cons h in \<open>auto simp: dec_of_int_def\<close>)
  with Cons show ?thesis by (rule that)
qed

lemma dumps_head:
  "\<exists>c s. dumps srt ea v = c # s \<and> (is_digit c \<or> c \<in> {45, 110, 34, 91, 123})"
proof (cases v)
  case (VInt i)
  then show ?thesis by (cases rule: dec_of_int_head [of i]) auto
qed (auto simp: dumps_str_def)

lemma scan_value_string:
  assumes "list_all scalar_value s"
  shows "scan_value (dumps_str ea s @ r) = Inr (PStr s, r)"
  using scan_string_dumps [OF assms, of ea r]
  by (subst scan_value.simps) (simp add: dumps_str_def)

lemma take_lit_neq: "c \<noteq> d \<Longrightarrow> take n (c # s) \<noteq> d # u"
  by (cases n) auto

lemma scan_value_number:
  assumes "is_digit c \<or> c = 45 \<and> s \<noteq> [] \<and> is_digit (hd s)"
  shows "scan_value (c # s) = scan_number (c # s)"
proof -
  have neq: "(c = 34) = False" "(c = 123) = False" "(c = 91) = False"
    using assms by (auto simp: is_digit_def)
  have "c \<noteq> 110" "c \<noteq> 116" "c \<noteq> 102" "c \<noteq> 78" "c \<noteq> 73"
    using assms by (auto simp: is_digit_def)
  then have t: "take 4 (c # s) \<noteq> lit ''null''" "take 4 (c # s) \<noteq> lit ''true''"
    "take 5 (c # s) \<noteq> lit ''false''" "take 3 (c # s) \<noteq> lit ''NaN''" "take 8 (c # s) \<noteq> lit ''Infinity''"
    unfolding lit_def by (simp_all del: take_Cons_numeral add: take_lit_neq)
  have mi: "take 9 (c # s) \<noteq> lit ''-Infinity''"
  proof
    assume "take 9 (c # s) = lit ''-Infinity''"
    then have "c = 45" "hd s = 73" by (cases s; simp add: lit_def)+
    with assms show False by (simp add: is_digit_def)
  qed
  have "scan_literal (c # s) = None" by (simp only: scan_literal_def t mi if_False)
  then show ?thesis by (subst scan_value.simps) (simp only: list.case neq if_False option.case)
qed

lemma scan_value_int:
  assumes "stops r" "\<bar>i\<bar> < 10 ^ int_digits_limit"
  shows "scan_value (dec_of_int i @ r) = Inr (PInt i, r)"
proof -
  obtain c s where c: "dec_of_int i = c # s"
    and cs: "is_digit c \<or> c = 45 \<and> s \<noteq> [] \<and> is_digit (hd s)" by (rule dec_of_int_head)
  from cs have "is_digit c \<or> c = 45 \<and> s @ r \<noteq> [] \<and> is_digit (hd (s @ r))" by auto
  from scan_value_number [OF this] scan_number_dec [OF assms] show ?thesis
    by (simp only: c append_Cons)
qed

lemma scan_key_dumps:
  assumes "list_all scalar_value k" "t \<noteq> []" "hd t \<notin> {32, 9, 10, 13}"
  shows "scan_key (dumps_str ea k @ [58] @ t) = Inr (k, t)"
  using scan_string_dumps [OF assms(1), of ea "58 # t"] skip_ws_noop [OF assms(2,3)]
  by (simp add: scan_key_def dumps_str_def)

definition scans :: "pystr \<Rightarrow> pyval \<Rightarrow> bool" where
  "scans t v \<longleftrightarrow> t \<noteq> [] \<and> hd t \<notin> {32, 9, 10, 13, 93, 125} \<and>
     (\<forall>r. stops r \<longrightarrow> scan_value (t @ r) = Inr (v, r))"

lemma scans_skip: "scans t v \<Longrightarrow> skip_ws (t @ r) = t @ r"
  by (rule skip_ws_noop) (auto simp: scans_def)


lemma scans_join_skip:
  assumes "list_all2 scans ts vs" "ts \<noteq> []"
  shows "skip_ws (join [44] ts @ r) = join [44] ts @ r"
    "\<exists>c s. join [44] ts @ r = c # s \<and> c \<notin> {93, 125}"
proof -
  obtain t ts' where ts: "ts = t # ts'" using assms(2) by (cases ts) auto
  then obtain v where t: "scans t v" using assms(1) by (auto simp: list_all2_Cons1)
  have e: "join [44] ts @ r = t @ (if ts' = [] then r else 44 # join [44] ts' @ r)"
    using ts by (simp add: join_Cons)
  show "skip_ws (join [44] ts @ r) = join [44] ts @ r" by (simp only: e scans_skip [OF t])
  show "\<exists>c s. join [44] ts @ r = c # s \<and> c \<notin> {93, 125}"
    using t by (cases t) (auto simp: e scans_def)
qed

lemma scan_elems_join:
  assumes "list_all2 scans ts vs" "ts \<noteq> []"
  shows "scan_elems (join [44] ts @ 93 # r) = Inr (vs, r)"
  using assms
proof (induction ts arbitrary: vs)
  case (Cons t ts)
  then obtain v us where vs: "vs = v # us" "scans t v" "list_all2 scans ts us"
    by (auto simp: list_all2_Cons1)
  show ?case
  proof (cases "ts = []")
    case True
    have "scan_value (t @ 93 # r) = Inr (v, 93 # r)" using vs by (simp add: scans_def)
    moreover have "us = []" using vs True by simp
    ultimately show ?thesis
      using True vs by (subst scan_elems.simps) (simp add: join_Cons skip_ws_noop)
  next
    case False
    let ?rest = "join [44] ts @ 93 # r"
    have sv: "scan_value (t @ 44 # ?rest) = Inr (v, 44 # ?rest)" using vs by (simp add: scans_def)
    have "length t > 0" using vs by (simp add: scans_def)
    with sv scans_join_skip(1) [OF vs(3) False, of "93 # r"] Cons.IH [OF vs(3) False] vs(1) False
    show ?thesis by (subst scan_elems.simps) (simp add: join_Cons skip_ws_noop)
  qed
qed simp

text \<open>A member is a key, a colon and a value.\<close>

definition scans_member :: "pystr \<Rightarrow> pystr \<times> pyval \<Rightarrow> bool" where
  "scans_member t kv \<longleftrightarrow> (\<exists>ea u. t = dumps_str ea (fst kv) @ [58] @ u \<and>
     list_all scalar_value (fst kv) \<and> scans u (snd kv))"

lemma scan_members_join:
  assumes "list_all2 scans_member ts kvs" "ts \<noteq> []"
  shows "scan_members (join [44] ts @ 125 # r) = Inr (kvs, r)"
  using assms
proof (induction ts arbitrary: kvs)
  case (Cons t ts)
  then obtain k v us where vs: "kvs = (k, v) # us" "scans_member t (k, v)" "list_all2 scans_member ts us"
    by (auto simp: list_all2_Cons1)
  then obtain ea u where t: "t = dumps_str ea k @ [58] @ u" "list_all scalar_value k" "scans u v"
    by (auto simp: scans_member_def)
  have key: "scan_key (t @ w) = Inr (k, u @ w)" for w
    using scan_key_dumps [OF t(2), of "u @ w" ea] t(1,3) by (simp add: scans_def)
  have len: "length (u @ w) < length (t @ w)" for w using t(1) by simp
  show ?case
  proof (cases "ts = []")
    case True
    have "scan_value (u @ 125 # r) = Inr (v, 125 # r)" using t by (simp add: scans_def)
    moreover have "us = []" using vs True by simp
    ultimately show ?thesis
      using True vs key len by (subst scan_members.simps) (simp add: join_Cons skip_ws_noop)
  next
    case False
    let ?rest = "join [44] ts @ 125 # r"
    obtain t' ts' where ts: "ts = t' # ts'" using False by (cases ts) auto
    then have "\<exists>s. ?rest = 34 # s"
      using vs(3) by (auto simp: join_Cons list_all2_Cons1 scans_member_def dumps_str_def)
    then have sk: "skip_ws ?rest = ?rest" by (auto simp: skip_ws_noop)
    have sv: "scan_value (u @ 44 # ?rest) = Inr (v, 44 # ?rest)" using t by (simp add: scans_def)
    from sv sk key len Cons.IH [OF vs(3) False] vs(1) False
    show ?thesis by (subst scan_members.simps) (simp add: join_Cons skip_ws_noop)
  qed
qed simp

lemma insort_key_fst_map:
  "insort_key fst (k, f v) (map (\<lambda>(k, v). (k, f v)) kvs)
   = map (\<lambda>(k, v). (k, f v)) (insort_key fst (k, v) kvs)"
  by (induction kvs) auto

lemma dict_order_map:
  "dict_order srt (map (\<lambda>(k, v). (k, f v)) kvs) = map (\<lambda>(k, v). (k, f v)) (dict_order srt kvs)"
proof -
  have "sort_key fst (map (\<lambda>(k, v). (k, f v)) kvs) = map (\<lambda>(k, v). (k, f v)) (sort_key fst kvs)"
    by (induction kvs) (auto simp: insort_key_fst_map)
  then show ?thesis by (simp add: dict_order_def)
qed

lemma dumps_dict:
  "dumps srt ea (VDict kvs) = [123] @ join [44]
     (map (\<lambda>(k, v). dumps_str ea k @ [58] @ dumps srt ea v) (dict_order srt kvs)) @ [125]"
  unfolding dumps.simps dict_order_map map_map
  by (rule arg_cong [where f = "\<lambda>x. [123] @ join [44] x @ [125]"]) (auto simp: comp_def)

lemma decoded_dict:
  "decoded srt (VDict kvs) = PDict (map (\<lambda>(k, v). (k, decoded srt v)) (dict_order srt kvs))"
  by (simp add: dict_order_map)

lemma set_dict_order [simp]: "set (dict_order srt kvs) = set kvs"
  by (simp add: dict_order_def)

lemma distinct_dict_order [simp]:
  "distinct (map fst (dict_order srt kvs)) \<longleftrightarrow> distinct (map fst kvs)"
  by (simp add: dict_order_def distinct_map)

lemma map_of_dict_order:
  "distinct (map fst kvs) \<Longrightarrow> map_of (dict_order srt kvs) = map_of kvs"
  by (rule map_of_inject_set [THEN iffD2]) simp_all

lemma foldl_dict_set:
  "distinct (map fst (d @ ms)) \<Longrightarrow> foldl (\<lambda>d (k, v). dict_set k v d) d ms = d @ ms"
proof (induction ms arbitrary: d)
  case (Cons kv ms)
  then have "dict_set (fst kv) (snd kv) d = d @ [kv]" by (subst dict_set_fresh) auto
  with Cons.IH [of "d @ [kv]"] Cons.prems show ?case by (simp add: case_prod_beta)
qed simp

lemma dumps_scans: "jval_ok v \<Longrightarrow> scans (dumps srt ea v) (decoded srt v)"
proof (induction v)
  case VNull
  have "scan_literal (110 # 117 # 108 # 108 # r) = Some (PNone, r)" for r
    by (simp add: scan_literal_def lit_def)
  then have "scan_value (110 # 117 # 108 # 108 # r) = Inr (PNone, r)" for r
    by (subst scan_value.simps) simp
  then show ?case by (simp add: scans_def)
next
  case (VInt i)
  then have "\<bar>i\<bar> < 10 ^ int_digits_limit" by (simp only: jval_ok.simps)
  then have "\<forall>r. stops r \<longrightarrow> scan_value (dec_of_int i @ r) = Inr (PInt i, r)" by (simp add: scan_value_int)
  moreover obtain c s where "dec_of_int i = c # s" "is_digit c \<or> c = 45 \<and> s \<noteq> [] \<and> is_digit (hd s)"
    by (rule dec_of_int_head)
  ultimately show ?case by (auto simp: scans_def is_digit_def)
next
  case (VStr s)
  then show ?case by (auto simp: scans_def scan_value_string) (simp_all add: dumps_str_def)
next
  case (VList vs)
  have all: "list_all2 scans (map (dumps srt ea) vs) (map (decoded srt) vs)"
    using VList by (auto simp: list_all2_conv_all_nth list_all_iff)
  have "scan_value (91 # join [44] (map (dumps srt ea) vs) @ 93 # r) = Inr (PList (map (decoded srt) vs), r)" for r
  proof (cases "vs = []")
    case False
    then have ne: "map (dumps srt ea) vs \<noteq> []" by simp
    note j = scans_join_skip [OF all ne, of "93 # r"]
    obtain c t where ct: "join [44] (map (dumps srt ea) vs) @ 93 # r = c # t" "c \<noteq> 93" using j(2) by auto
    with scan_elems_join [OF all ne, of r] j(1) show ?thesis
      by (subst scan_value.simps) simp
  qed (subst scan_value.simps, simp)
  then show ?case by (simp add: scans_def)
next
  case (VDict kvs)
  let ?o = "dict_order srt kvs"
  let ?ts = "map (\<lambda>(k, v). dumps_str ea k @ [58] @ dumps srt ea v) ?o"
  let ?ms = "map (\<lambda>(k, v). (k, decoded srt v)) ?o"
  have d: "distinct (map fst kvs)" and ok: "\<And>k v. (k, v) \<in> set kvs \<Longrightarrow> list_all scalar_value k \<and> jval_ok v"
    using VDict.prems by (auto simp: list_all_iff)
  have all: "list_all2 scans_member ?ts ?ms"
    unfolding list_all2_map1 list_all2_map2 list_all2_same
  proof
    fix kv assume "kv \<in> set ?o"
    then have "kv \<in> set kvs" by simp
    with VDict.IH [OF this _ , of "snd kv"] ok [of "fst kv" "snd kv"]
    show "scans_member (case kv of (k, v) \<Rightarrow> dumps_str ea k @ [58] @ dumps srt ea v) (case kv of (k, v) \<Rightarrow> (k, decoded srt v))"
      by (cases kv) (auto simp: scans_member_def)
  qed
  have "scan_value (123 # join [44] ?ts @ 125 # r) = Inr (PDict ?ms, r)" for r
  proof (cases "kvs = []")
    case False
    then have ne: "?ts \<noteq> []" by (metis set_dict_order map_is_Nil_conv set_empty)
    obtain t where t: "join [44] ?ts @ 125 # r = 34 # t"
      using ne by (cases ?o) (auto simp: join_Cons dumps_str_def)
    have f: "foldl (\<lambda>d (k, v). dict_set k v d) [] ?ms = ?ms"
      using d by (subst foldl_dict_set) (simp_all add: comp_def case_prod_beta)
    from t f scan_members_join [OF all ne, of r] show ?thesis
      by (subst scan_value.simps) (simp add: skip_ws_noop)
  qed (subst scan_value.simps, simp add: dict_order_def)
  then show ?case by (simp add: scans_def dumps_dict decoded_dict del: dumps.simps decoded.simps)
qed

text \<open>Decoding the encoder's output gives the value back, in either character mode.\<close>

lemma loads_dumps:
  assumes "jval_ok v"
  shows "loads (dumps srt ea v) = Inr (decoded srt v)"
proof -
  note h = dumps_scans [OF assms, of srt ea]
  obtain c s where "dumps srt ea v = c # s" "is_digit c \<or> c \<in> {45, 110, 34, 91, 123}"
    using dumps_head by blast
  then have "hd (dumps srt ea v) \<noteq> 0xFEFF" by (auto simp: is_digit_def)
  moreover have "scan_value (skip_ws (dumps srt ea v)) = Inr (decoded srt v, [])"
    using h scans_skip [OF h, of "[]"] by (auto simp: scans_def dest: spec [of _ "[]"])
  ultimately show ?thesis by (simp add: loads_def)
qed

text \<open>With \<^verbatim>\<open>ensure_ascii\<close> the output is printable ASCII.\<close>

lemma escape_char_ascii: "scalar_value c \<Longrightarrow> list_all (\<lambda>d. 31 < d \<and> d < 127) (escape_char True c)"
proof -
  have hf: "list_all (\<lambda>d. 31 < d \<and> d < 127) (u_escape n)" for n
    using hex_fixed_lower [of _ 4 n]
    by (fastforce simp: u_escape_def list_all_iff is_lower_hex_def)
  show ?thesis using hf by (auto simp: escape_char_def)
qed

lemma dumps_str_ascii:
  "list_all scalar_value s \<Longrightarrow> list_all (\<lambda>d. 31 < d \<and> d < 127) (dumps_str True s)"
  using escape_char_ascii by (auto simp: dumps_str_def list_all_iff)

lemma dec_of_int_ascii: "list_all (\<lambda>d. 31 < d \<and> d < 127) (dec_of_int i)"
  using dec_of_nat_digits by (fastforce simp: dec_of_int_def list_all_iff is_digit_def)

lemma list_all_join:
  "list_all P sep \<Longrightarrow> \<forall>x \<in> set xs. list_all P x \<Longrightarrow> list_all P (join sep xs)"
  by (induction xs) (auto simp: join_Cons)

lemma dumps_ascii: "jval_ok v \<Longrightarrow> list_all (\<lambda>d. 31 < d \<and> d < 127) (dumps srt True v)"
proof (induction v)
  case (VList vs)
  then have "\<forall>t \<in> set (map (dumps srt True) vs). list_all (\<lambda>d. 31 < d \<and> d < 127) t"
    by (auto simp: list_all_iff)
  then show ?case by (simp add: list_all_join)
next
  case (VDict kvs)
  have "list_all (\<lambda>d. 31 < d \<and> d < 127) (dumps_str True k @ [58] @ dumps srt True v)" if "(k, v) \<in> set kvs" for k v
    using VDict.prems that VDict.IH [OF that, of v] dumps_str_ascii [of k] by (auto simp: list_all_iff)
  then show ?case by (auto simp: dict_order_map intro!: list_all_join)
qed (auto simp: dumps_str_ascii dec_of_int_ascii)

lemma loads_dumps_bytes:
  assumes "jval_ok v"
  shows "loads_bytes (ascii_bytes (dumps srt True v)) = Inr (decoded srt v)"
proof -
  have "list_all (\<lambda>c. 0 < c \<and> c < 128) (dumps srt True v)"
    using dumps_ascii [OF assms, of srt] by (auto simp: list_all_iff)
  then show ?thesis by (simp add: loads_bytes_def json_decode_ascii loads_dumps [OF assms])
qed

end
