(* ===== verification/Digest.thy ===== *)
theory Digest
  imports PyText
begin

unbundle bit_operations_syntax

text \<open>
  The standard-library byte formats the pack format is built on: little-endian \<^verbatim>\<open>struct\<close> fields,
  \<^verbatim>\<open>zlib.crc32\<close>, \<^verbatim>\<open>hashlib.sha256\<close> and \<^verbatim>\<open>uuid.UUID\<close>. Integers of a fixed-width field are naturals
  with their bound written out; the checksums compute on 32-bit words.
\<close>

section \<open>Little-endian fields\<close>

fun le_bytes :: "nat \<Rightarrow> nat \<Rightarrow> bytes" where
  "le_bytes 0 n = []"
| "le_bytes (Suc k) n = of_nat (n mod 256) # le_bytes k (n div 256)"

fun le_val :: "bytes \<Rightarrow> nat" where
  "le_val [] = 0"
| "le_val (b # bs) = unat b + 256 * le_val bs"

lemma length_le_bytes [simp]: "length (le_bytes k n) = k"
  by (induction k arbitrary: n) auto

lemma unat_of_nat_mod_256 [simp]: "unat (of_nat (n mod 256) :: byte) = n mod 256"
  by (simp add: unat_of_nat)

lemma le_val_le_bytes [simp]: "n < 256 ^ k \<Longrightarrow> le_val (le_bytes k n) = n"
proof (induction k arbitrary: n)
  case (Suc k)
  then have "n div 256 < 256 ^ k" by (simp add: less_mult_imp_div_less mult.commute)
  with Suc.IH [of "n div 256"] show ?case by (simp only: le_bytes.simps le_val.simps unat_of_nat_mod_256 mod_mult_div_eq)
qed simp

lemma le_val_bound: "le_val bs < 256 ^ length bs"
proof (induction bs)
  case (Cons b bs)
  have "unat b < 256" using unsigned_less [of b] by simp
  with Cons show ?case by simp
qed simp

section \<open>CRC-32\<close>

definition crc_bit :: "32 word \<Rightarrow> 32 word" where
  "crc_bit c = (if bit c 0 then drop_bit 1 c XOR 0xEDB88320 else drop_bit 1 c)"

definition crc_byte :: "32 word \<Rightarrow> byte \<Rightarrow> 32 word" where
  "crc_byte c b = (crc_bit ^^ 8) (c XOR ucast b)"

definition crc32 :: "bytes \<Rightarrow> 32 word" where
  "crc32 bs = NOT (foldl crc_byte 0xFFFFFFFF bs)"

lemma crc32_bound: "unat (crc32 bs) < 2 ^ 32"
  using unsigned_less [of "crc32 bs"] by simp

section \<open>SHA-256\<close>

definition sha_k :: "32 word list" where
  "sha_k =
    [0x428A2F98, 0x71374491, 0xB5C0FBCF, 0xE9B5DBA5, 0x3956C25B, 0x59F111F1,
     0x923F82A4, 0xAB1C5ED5, 0xD807AA98, 0x12835B01, 0x243185BE, 0x550C7DC3,
     0x72BE5D74, 0x80DEB1FE, 0x9BDC06A7, 0xC19BF174, 0xE49B69C1, 0xEFBE4786,
     0x0FC19DC6, 0x240CA1CC, 0x2DE92C6F, 0x4A7484AA, 0x5CB0A9DC, 0x76F988DA,
     0x983E5152, 0xA831C66D, 0xB00327C8, 0xBF597FC7, 0xC6E00BF3, 0xD5A79147,
     0x06CA6351, 0x14292967, 0x27B70A85, 0x2E1B2138, 0x4D2C6DFC, 0x53380D13,
     0x650A7354, 0x766A0ABB, 0x81C2C92E, 0x92722C85, 0xA2BFE8A1, 0xA81A664B,
     0xC24B8B70, 0xC76C51A3, 0xD192E819, 0xD6990624, 0xF40E3585, 0x106AA070,
     0x19A4C116, 0x1E376C08, 0x2748774C, 0x34B0BCB5, 0x391C0CB3, 0x4ED8AA4A,
     0x5B9CCA4F, 0x682E6FF3, 0x748F82EE, 0x78A5636F, 0x84C87814, 0x8CC70208,
     0x90BEFFFA, 0xA4506CEB, 0xBEF9A3F7, 0xC67178F2]"

definition sha_init :: "32 word list" where
  "sha_init =
    [0x6A09E667, 0xBB67AE85, 0x3C6EF372, 0xA54FF53A, 0x510E527F, 0x9B05688C,
     0x1F83D9AB, 0x5BE0CD19]"

definition rotr32 :: "nat \<Rightarrow> 32 word \<Rightarrow> 32 word" where
  "rotr32 n x = drop_bit n x OR push_bit (32 - n) x"

fun be_words :: "bytes \<Rightarrow> 32 word list" where
  "be_words (a # b # c # d # bs) =
     (push_bit 24 (ucast a) OR push_bit 16 (ucast b) OR push_bit 8 (ucast c) OR ucast d) # be_words bs"
| "be_words _ = []"

definition sha_pad :: "bytes \<Rightarrow> bytes" where
  "sha_pad m = m @ [0x80] @ replicate ((119 - length m mod 64) mod 64) 0
     @ rev (le_bytes 8 (8 * length m))"

text \<open>The message schedule, kept as the last sixteen words, newest first.\<close>

fun sha_schedule :: "nat \<Rightarrow> 32 word list \<Rightarrow> 32 word list" where
  "sha_schedule 0 ws = []"
| "sha_schedule (Suc n) ws =
     (let a = ws ! 14; b = ws ! 1;
          s0 = rotr32 7 a XOR rotr32 18 a XOR drop_bit 3 a;
          s1 = rotr32 17 b XOR rotr32 19 b XOR drop_bit 10 b;
          w = ws ! 15 + s0 + ws ! 6 + s1
      in w # sha_schedule n (w # take 15 ws))"

fun sha_round :: "32 word list \<Rightarrow> 32 word \<times> 32 word \<Rightarrow> 32 word list" where
  "sha_round [a, b, c, d, e, f, g, h] (k, w) =
     (let s1 = rotr32 6 e XOR rotr32 11 e XOR rotr32 25 e;
          ch = (e AND f) XOR (NOT e AND g);
          t1 = h + s1 + ch + k + w;
          s0 = rotr32 2 a XOR rotr32 13 a XOR rotr32 22 a;
          mj = (a AND b) XOR (a AND c) XOR (b AND c)
      in [t1 + (s0 + mj), a, b, c, d + t1, e, f, g])"
| "sha_round hs _ = hs"

definition sha_block :: "32 word list \<Rightarrow> bytes \<Rightarrow> 32 word list" where
  "sha_block hs blk =
     (let ws = be_words blk
      in map2 (+) hs (foldl sha_round hs (zip sha_k (ws @ sha_schedule 48 (rev ws)))))"

fun sha_blocks :: "nat \<Rightarrow> 32 word list \<Rightarrow> bytes \<Rightarrow> 32 word list" where
  "sha_blocks 0 hs bs = hs"
| "sha_blocks (Suc n) hs bs = sha_blocks n (sha_block hs (take 64 bs)) (drop 64 bs)"

definition sha256 :: "bytes \<Rightarrow> bytes" where
  "sha256 m = concat (map (\<lambda>w. rev (le_bytes 4 (unat w)))
     (let p = sha_pad m in sha_blocks (length p div 64) sha_init p))"

definition hexdigest :: "bytes \<Rightarrow> pystr" where
  "hexdigest m = hex_of_bytes (sha256 m)"

lemma length_sha_round [simp]: "length (sha_round hs kw) = length hs"
  by (cases "(hs, kw)" rule: sha_round.cases) (auto simp: Let_def)

lemma length_foldl_sha_round [simp]: "length (foldl sha_round hs kws) = length hs"
  by (induction kws arbitrary: hs) auto

lemma length_sha_blocks [simp]: "length (sha_blocks n hs bs) = length hs"
  by (induction n arbitrary: hs bs) (auto simp: sha_block_def Let_def)

lemma length_sha256 [simp]: "length (sha256 m) = 32"
proof -
  have "length (concat (map (\<lambda>w. rev (le_bytes 4 (unat w))) ws)) = 4 * length ws" for ws :: "32 word list"
    by (induction ws) auto
  then show ?thesis by (simp add: sha256_def Let_def sha_init_def)
qed

lemma length_hexdigest [simp]: "length (hexdigest m) = 64"
  by (simp add: hexdigest_def)

section \<open>UUIDs\<close>

text \<open>A UUID is its 128-bit integer. \<open>uuid_bytes\<close> is \<^verbatim>\<open>UUID.bytes\<close>, \<open>uuid_of_bytes\<close> the \<^verbatim>\<open>UUID(bytes=...)\<close>
  constructor and \<open>uuid_str\<close> its text.\<close>

type_synonym uuid = nat

definition uuid_bytes :: "uuid \<Rightarrow> bytes" where
  "uuid_bytes u = rev (le_bytes 16 u)"

definition uuid_of_bytes :: "bytes \<Rightarrow> uuid" where
  "uuid_of_bytes bs = le_val (rev bs)"

definition uuid_str :: "uuid \<Rightarrow> pystr" where
  "uuid_str u =
     (let h = hex_fixed 32 u
      in take 8 h @ [45] @ take 4 (drop 8 h) @ [45] @ take 4 (drop 12 h) @ [45]
         @ take 4 (drop 16 h) @ [45] @ drop 20 h)"

text \<open>\<^verbatim>\<open>s.replace(pat, "")\<close> for a non-empty pattern.\<close>

function remove_all :: "pystr \<Rightarrow> pystr \<Rightarrow> pystr" where
  "remove_all pat s =
     (case s of
        [] \<Rightarrow> []
      | c # s' \<Rightarrow>
          if pat \<noteq> [] \<and> take (length pat) s = pat then remove_all pat (drop (length pat) s)
          else c # remove_all pat s')"
  by pat_completeness auto
termination
  by (relation "measure (\<lambda>(p, s). length s)") auto

declare remove_all.simps [simp del]

text \<open>\<^verbatim>\<open>int(s, 16)\<close>: surrounding whitespace, a sign, the \<^verbatim>\<open>0x\<close> prefix and single underscores between
  digits are all accepted, and so is every Unicode decimal digit.\<close>

definition unicode_spaces :: "nat list" where
  "unicode_spaces =
     [0x85, 0xA0, 0x1680, 0x2000, 0x2001, 0x2002, 0x2003, 0x2004, 0x2005, 0x2006, 0x2007, 0x2008,
      0x2009, 0x200A, 0x2028, 0x2029, 0x202F, 0x205F, 0x3000]"

definition decimal_zeros :: "nat list" where
  "decimal_zeros =
    [0x30, 0x660, 0x6F0, 0x7C0, 0x966, 0x9E6, 0xA66, 0xAE6, 0xB66,
     0xBE6, 0xC66, 0xCE6, 0xD66, 0xDE6, 0xE50, 0xED0, 0xF20, 0x1040,
     0x1090, 0x17E0, 0x1810, 0x1946, 0x19D0, 0x1A80, 0x1A90, 0x1B50, 0x1BB0,
     0x1C40, 0x1C50, 0xA620, 0xA8D0, 0xA900, 0xA9D0, 0xA9F0, 0xAA50, 0xABF0,
     0xFF10, 0x104A0, 0x10D30, 0x11066, 0x110F0, 0x11136, 0x111D0, 0x112F0, 0x11450,
     0x114D0, 0x11650, 0x116C0, 0x11730, 0x118E0, 0x11950, 0x11C50, 0x11D50, 0x11DA0,
     0x16A60, 0x16AC0, 0x16B50, 0x1D7CE, 0x1D7D8, 0x1D7E2, 0x1D7EC, 0x1D7F6, 0x1E140,
     0x1E2F0, 0x1E950, 0x1FBF0]"

definition ascii_of_char :: "nat \<Rightarrow> nat" where
  "ascii_of_char c =
     (if c < 127 then c
      else if c \<in> set unicode_spaces then 32
      else case find (\<lambda>z. z \<le> c \<and> c < z + 10) decimal_zeros of
             Some z \<Rightarrow> 48 + (c - z) | None \<Rightarrow> 63)"

definition is_c_space :: "nat \<Rightarrow> bool" where
  "is_c_space c \<longleftrightarrow> c = 32 \<or> 9 \<le> c \<and> c \<le> 13"

fun hex_digits :: "nat \<Rightarrow> pystr \<Rightarrow> nat option" where
  "hex_digits a [] = Some a"
| "hex_digits a (c # s) =
     (if c = 95 then
        (case s of
           [] \<Rightarrow> None
         | d # s' \<Rightarrow> (case hex_val d of None \<Rightarrow> None | Some v \<Rightarrow> hex_digits (16 * a + v) s'))
      else case hex_val c of None \<Rightarrow> None | Some v \<Rightarrow> hex_digits (16 * a + v) s)"

definition hex_body :: "pystr \<Rightarrow> nat option" where
  "hex_body s =
     (let p = (take 2 s = [48, 120] \<or> take 2 s = [48, 88]);
          t = (if p then drop 2 s else s);
          u = (if p \<and> take 1 t = [95] then drop 1 t else t)
      in if u = [] \<or> hd u = 95 then None else hex_digits 0 u)"

definition strip_by :: "(nat \<Rightarrow> bool) \<Rightarrow> pystr \<Rightarrow> pystr" where
  "strip_by P s = rev (dropWhile P (rev (dropWhile P s)))"

definition int16_of :: "pystr \<Rightarrow> int option" where
  "int16_of s =
     (let t = strip_by is_c_space (if is_ascii s then s else map ascii_of_char s)
      in if take 1 t = [45] then map_option (\<lambda>n. - int n) (hex_body (drop 1 t))
         else if take 1 t = [43] then map_option int (hex_body (drop 1 t))
         else map_option int (hex_body t))"

definition uuid_parse :: "pystr \<Rightarrow> uuid option" where
  "uuid_parse s =
     (let t = remove_all (lit ''uuid:'') (remove_all (lit ''urn:'') s);
          h = remove_all (lit ''-'') (strip_by (\<lambda>c. c = 123 \<or> c = 125) t)
      in if length h \<noteq> 32 then None
         else case int16_of h of
                None \<Rightarrow> None
              | Some i \<Rightarrow> if 0 \<le> i \<and> i < 2 ^ 128 then Some (nat i) else None)"

text \<open>The canonical text parses to the identifier it prints.\<close>

lemma remove_all_absent:
  assumes "p \<notin> set s"
  shows "remove_all (p # ps) s = s"
  using assms
proof (induction s)
  case (Cons c s)
  then have "take (length (p # ps)) (c # s) \<noteq> p # ps" by auto
  with Cons show ?case by (subst remove_all.simps) auto
qed (simp add: remove_all.simps)

lemma remove_all_single: "remove_all [p] s = filter (\<lambda>c. c \<noteq> p) s"
proof (induction s)
  case (Cons c s)
  then show ?case by (subst remove_all.simps) simp
qed (simp add: remove_all.simps)

lemma strip_by_none: "\<forall>c \<in> set s. \<not> P c \<Longrightarrow> strip_by P s = s"
proof -
  assume h: "\<forall>c \<in> set s. \<not> P c"
  have d: "dropWhile P t = t" if "\<forall>c \<in> set t. \<not> P c" for t using that by (cases t) auto
  show ?thesis using h by (simp add: strip_by_def d)
qed

lemma hex_digits_number: "95 \<notin> set s \<Longrightarrow> hex_digits a s = hex_number a s"
  by (induction s arbitrary: a) (auto split: option.splits)

lemma int16_of_hex:
  assumes "\<forall>c \<in> set s. is_lower_hex c" "s \<noteq> []"
  shows "int16_of s = map_option int (hex_number 0 s)"
proof -
  have n: "c \<notin> set s" if "\<not> is_lower_hex c" for c using that assms(1) by blast
  have a: "is_ascii s" using assms(1) by (auto simp: list_all_iff is_lower_hex_def)
  have sp: "strip_by is_c_space s = s"
    by (rule strip_by_none) (use assms(1) in \<open>auto simp: is_lower_hex_def is_c_space_def\<close>)
  have t: "take 1 s \<noteq> [45]" "take 1 s \<noteq> [43]" "hd s \<noteq> 95"
    using n [of 45] n [of 43] n [of 95] assms(2) by (cases s; auto simp: is_lower_hex_def)+
  have "120 \<notin> set s" "88 \<notin> set s" using n by (simp_all add: is_lower_hex_def)
  then have x: "take 2 s \<noteq> [48, 120]" "take 2 s \<noteq> [48, 88]"
    by (metis in_set_takeD list.set_intros(1,2))+
  have "hex_body s = hex_number 0 s"
    using t(3) x assms(2) n [of 95] by (simp add: hex_body_def hex_digits_number is_lower_hex_def)
  with a sp t show ?thesis by (simp add: int16_of_def)
qed

lemma uuid_str_chars: "c \<in> set (uuid_str u) \<Longrightarrow> is_lower_hex c \<or> c = 45"
  using hex_fixed_lower [of _ 32 u]
  by (auto simp: uuid_str_def Let_def dest: in_set_takeD in_set_dropD)

lemma filter_uuid_str: "filter (\<lambda>c. c \<noteq> 45) (uuid_str u) = hex_fixed 32 u"
proof -
  let ?h = "hex_fixed 32 u"
  have f: "filter (\<lambda>c. c \<noteq> 45) t = t" if "set t \<subseteq> set ?h" for t
  proof -
    have "c \<noteq> 45" if "c \<in> set t" for c
      using hex_fixed_lower [of c 32 u] \<open>set t \<subseteq> set ?h\<close> that by (auto simp: is_lower_hex_def)
    then show ?thesis by simp
  qed
  have "take 8 ?h @ take 4 (drop 8 ?h) @ take 4 (drop 12 ?h) @ take 4 (drop 16 ?h) @ drop 20 ?h = ?h"
    using append_take_drop_id [of 8 ?h] append_take_drop_id [of 4 "drop 8 ?h"]
      append_take_drop_id [of 4 "drop 12 ?h"] append_take_drop_id [of 4 "drop 16 ?h"] by simp
  moreover have "set (take n (drop m ?h)) \<subseteq> set ?h" "set (drop m ?h) \<subseteq> set ?h" "set (take n ?h) \<subseteq> set ?h" for n m
    by (auto dest: in_set_takeD in_set_dropD)
  ultimately show ?thesis by (simp add: uuid_str_def Let_def f)
qed

lemma uuid_parse_str [simp]:
  assumes "u < 2 ^ 128"
  shows "uuid_parse (uuid_str u) = Some u"
proof -
  have "117 \<notin> set (uuid_str u)" using uuid_str_chars [of 117 u] by (auto simp: is_lower_hex_def)
  then have r: "remove_all (lit ''uuid:'') (remove_all (lit ''urn:'') (uuid_str u)) = uuid_str u"
    by (simp add: lit_def remove_all_absent)
  have s: "strip_by (\<lambda>c. c = 123 \<or> c = 125) (uuid_str u) = uuid_str u"
    by (rule strip_by_none) (auto dest!: uuid_str_chars simp: is_lower_hex_def)
  have f: "remove_all (lit ''-'') (uuid_str u) = hex_fixed 32 u"
    using filter_uuid_str [of u] by (simp add: lit_def remove_all_single)
  have "hex_fixed 32 u \<noteq> []" using length_hex_fixed [of 32 u] by (metis list.size(3) zero_neq_numeral)
  then have "int16_of (hex_fixed 32 u) = map_option int (hex_number 0 (hex_fixed 32 u))"
    by (intro int16_of_hex) (auto dest: hex_fixed_lower)
  also have "\<dots> = Some (int u)" using hex_number_fixed [of u 32 0] assms by simp
  finally show ?thesis using assms by (simp add: uuid_parse_def Let_def r s f)
qed

lemma uuid_parse_bound: "uuid_parse s = Some u \<Longrightarrow> u < 2 ^ 128"
  by (auto simp: uuid_parse_def Let_def split: if_splits option.splits)

lemma uuid_str_inject: "uuid_str u = uuid_str v \<Longrightarrow> u < 2 ^ 128 \<Longrightarrow> v < 2 ^ 128 \<Longrightarrow> u = v"
  by (metis option.inject uuid_parse_str)

lemma length_uuid_bytes [simp]: "length (uuid_bytes u) = 16"
  by (simp add: uuid_bytes_def)

lemma uuid_of_bytes_bytes [simp]: "u < 2 ^ 128 \<Longrightarrow> uuid_of_bytes (uuid_bytes u) = u"
  by (simp add: uuid_bytes_def uuid_of_bytes_def)

lemma uuid_of_bytes_bound: "length bs = 16 \<Longrightarrow> uuid_of_bytes bs < 2 ^ 128"
  using le_val_bound [of "rev bs"] by (simp add: uuid_of_bytes_def)

lemma uuid_str_scalar: "list_all scalar_value (uuid_str u)"
  by (auto simp: list_all_iff dest!: uuid_str_chars) (auto simp: is_lower_hex_def intro: ascii_scalar)

end
