(* ===== verification/CaptureModel.thy ===== *)
theory CaptureModel
  imports Json Digest
begin

text \<open>
  The value types of \<^verbatim>\<open>storage/capture/model.py\<close>: capture metadata with its validating constructor and
  its mapping form, records, pack references, locators, descriptors, queries with their hashes, and
  selections. A dataclass constructor is a function to \<open>result\<close> that runs \<^verbatim>\<open>__post_init__\<close> in its order;
  \<open>CaptureMetadata\<close> takes dynamically typed keyword arguments because \<^verbatim>\<open>from_mapping\<close> feeds it decoded
  JSON.
\<close>

section \<open>Text validation\<close>

definition TEXT_LIMIT :: nat where "TEXT_LIMIT = 512"
definition CURSOR_LIMIT :: nat where "CURSOR_LIMIT = 2048"
definition MAX_RANK :: nat where "MAX_RANK = 32"

definition DTYPE_BYTES :: "(pystr \<times> nat) list" where
  "DTYPE_BYTES =
     [(lit ''bool'', 1), (lit ''uint8'', 1), (lit ''int8'', 1), (lit ''uint16'', 2), (lit ''int16'', 2),
      (lit ''float16'', 2), (lit ''bfloat16'', 2), (lit ''float8_e4m3fn'', 1), (lit ''float8_e5m2'', 1),
      (lit ''int32'', 4), (lit ''uint32'', 4), (lit ''float32'', 4), (lit ''int64'', 8), (lit ''float64'', 8)]"

definition validate_text :: "pyval \<Rightarrow> bool \<Rightarrow> nat \<Rightarrow> unit result" where
  "validate_text value optional limit =
     (case value of
        PNone \<Rightarrow> if optional then Inr () else Inl (Error ValueError ''is required'')
      | PStr s \<Rightarrow>
          if s = [] then Inl (Error ValueError ''must be non-empty UTF-8 within limit bytes'')
          else (case utf8_encode s of
                  None \<Rightarrow> Inl (Error UnicodeEncodeError ''surrogates not allowed'')
                | Some b \<Rightarrow>
                    if length b > limit
                    then Inl (Error ValueError ''must be non-empty UTF-8 within limit bytes'')
                    else Inr ())
      | _ \<Rightarrow> Inl (Error ValueError ''must be non-empty UTF-8 within limit bytes''))"

definition text_ok :: "nat \<Rightarrow> pystr \<Rightarrow> bool" where
  "text_ok limit s \<longleftrightarrow> s \<noteq> [] \<and> (\<exists>b. utf8_encode s = Some b \<and> length b \<le> limit)"

lemma text_ok_code [code]:
  "text_ok limit s = (s \<noteq> [] \<and> (case utf8_encode s of None \<Rightarrow> False | Some b \<Rightarrow> length b \<le> limit))"
  by (auto simp: text_ok_def split: option.splits)

lemma validate_text_Inr:
  "validate_text v opt limit = Inr () \<longleftrightarrow> v = PNone \<and> opt \<or> (\<exists>s. v = PStr s \<and> text_ok limit s)"
  by (auto simp: validate_text_def text_ok_def split: pyval.splits option.splits)

section \<open>Capture metadata\<close>

record capture_metadata =
  md_capture_id :: pystr
  md_tenant_id :: pystr
  md_experiment_id :: pystr
  md_run_id :: pystr
  md_session_id :: pystr
  md_request_id :: pystr
  md_sequence_id :: pystr
  md_model_id :: pystr
  md_model_revision :: pystr
  md_adapter_revision :: "pystr option"
  md_capture_policy_version :: pystr
  md_hook_name :: pystr
  md_layer_number :: int
  md_producer_rank :: int
  md_step_number :: int
  md_token_start :: int
  md_token_end :: int
  md_batch_position :: int
  md_dtype :: pystr
  md_shape :: "int list"
  md_captured_at_ns :: int

definition metadata_fields :: "string list" where
  "metadata_fields =
     [''capture_id'', ''tenant_id'', ''experiment_id'', ''run_id'', ''session_id'', ''request_id'',
      ''sequence_id'', ''model_id'', ''model_revision'', ''adapter_revision'',
      ''capture_policy_version'', ''hook_name'', ''layer_number'', ''producer_rank'', ''step_number'',
      ''token_start'', ''token_end'', ''batch_position'', ''dtype'', ''shape'', ''captured_at_ns'']"

definition required_fields :: "string list" where
  "required_fields =
     [''capture_id'', ''tenant_id'', ''experiment_id'', ''run_id'', ''session_id'', ''request_id'',
      ''sequence_id'', ''model_id'', ''model_revision'', ''capture_policy_version'', ''hook_name'']"

definition bounded_fields :: "(string \<times> int) list" where
  "bounded_fields =
     [(''producer_rank'', 2 ^ 32 - 1), (''batch_position'', 2 ^ 32 - 1), (''step_number'', 2 ^ 64 - 1),
      (''token_start'', 2 ^ 64 - 1), (''token_end'', 2 ^ 64 - 1), (''captured_at_ns'', 2 ^ 64 - 1)]"

fun the_str :: "pyval \<Rightarrow> pystr" where
  "the_str (PStr s) = s"
| "the_str _ = []"

fun the_int :: "pyval \<Rightarrow> int" where
  "the_int (PInt i) = i"
| "the_int _ = 0"

fun opt_str :: "pyval \<Rightarrow> pystr option" where
  "opt_str (PStr s) = Some s"
| "opt_str _ = None"

text \<open>\<^verbatim>\<open>type(value) is int and lower <= value <= upper\<close>.\<close>

fun int_within :: "int \<Rightarrow> int \<Rightarrow> pyval \<Rightarrow> bool" where
  "int_within lower upper (PInt i) \<longleftrightarrow> lower \<le> i \<and> i \<le> upper"
| "int_within lower upper _ \<longleftrightarrow> False"

text \<open>\<^verbatim>\<open>self.dtype not in _DTYPE_BYTES\<close>: an unhashable value raises \<^verbatim>\<open>TypeError\<close>.\<close>

definition check_dtype :: "pyval \<Rightarrow> unit result" where
  "check_dtype v =
     (case v of
        PList _ \<Rightarrow> Inl (Error TypeError ''unhashable type'')
      | PDict _ \<Rightarrow> Inl (Error TypeError ''unhashable type'')
      | PStr s \<Rightarrow>
          if s \<in> set (map fst DTYPE_BYTES) then Inr () else Inl (Error ValueError ''unsupported dtype'')
      | _ \<Rightarrow> Inl (Error ValueError ''unsupported dtype''))"

text \<open>\<^verbatim>\<open>tuple(self.shape)\<close>.\<close>

definition tuple_of :: "pyval \<Rightarrow> pyval list result" where
  "tuple_of v =
     (case v of
        PList vs \<Rightarrow> Inr vs
      | PStr s \<Rightarrow> Inr (map (\<lambda>c. PStr [c]) s)
      | PDict kvs \<Rightarrow> Inr (map (\<lambda>kv. PStr (fst kv)) kvs)
      | _ \<Rightarrow> Inl (Error TypeError ''object is not iterable''))"

definition require :: "bool \<Rightarrow> exc_class \<Rightarrow> string \<Rightarrow> unit result" where
  "require b e msg = (if b then Inr () else Inl (Error e msg))"

lemma require_Inr [simp]: "require b e msg = Inr u \<longleftrightarrow> b"
  by (auto simp: require_def)

definition CaptureMetadata :: "(string \<Rightarrow> pyval) \<Rightarrow> capture_metadata result" where
  "CaptureMetadata arg =
     rbind (rmap (\<lambda>n. validate_text (arg n) False TEXT_LIMIT) required_fields) (\<lambda>_.
     rbind (validate_text (arg ''adapter_revision'') True TEXT_LIMIT) (\<lambda>_.
     rbind (check_dtype (arg ''dtype'')) (\<lambda>_.
     rbind (tuple_of (arg ''shape'')) (\<lambda>dims.
     rbind (require (length dims \<le> MAX_RANK) ValueError ''shape rank must not exceed 32'') (\<lambda>_.
     rbind (require (list_all (int_within 0 (2 ^ 31 - 1)) dims) ValueError
              ''shape dimensions must be integers in [0, 2^31 - 1]'') (\<lambda>_.
     rbind (rmap (\<lambda>(n, upper). require (int_within 0 upper (arg n)) ValueError
              ''must be a non-negative integer within its bound'') bounded_fields) (\<lambda>_.
     rbind (require (int_within (- 1) (2 ^ 31 - 1) (arg ''layer_number'')) ValueError
              ''layer_number must be an integer in [-1, 2^31 - 1]'') (\<lambda>_.
     rbind (require (the_int (arg ''token_start'') \<le> the_int (arg ''token_end'')) ValueError
              ''token_end must be >= token_start'') (\<lambda>_.
     Inr \<lparr>md_capture_id = the_str (arg ''capture_id''), md_tenant_id = the_str (arg ''tenant_id''),
          md_experiment_id = the_str (arg ''experiment_id''), md_run_id = the_str (arg ''run_id''),
          md_session_id = the_str (arg ''session_id''), md_request_id = the_str (arg ''request_id''),
          md_sequence_id = the_str (arg ''sequence_id''), md_model_id = the_str (arg ''model_id''),
          md_model_revision = the_str (arg ''model_revision''),
          md_adapter_revision = opt_str (arg ''adapter_revision''),
          md_capture_policy_version = the_str (arg ''capture_policy_version''),
          md_hook_name = the_str (arg ''hook_name''), md_layer_number = the_int (arg ''layer_number''),
          md_producer_rank = the_int (arg ''producer_rank''),
          md_step_number = the_int (arg ''step_number''), md_token_start = the_int (arg ''token_start''),
          md_token_end = the_int (arg ''token_end''),
          md_batch_position = the_int (arg ''batch_position''), md_dtype = the_str (arg ''dtype''),
          md_shape = map the_int dims, md_captured_at_ns = the_int (arg ''captured_at_ns'')\<rparr>)))))))))"

definition dtype_bytes :: "pystr \<Rightarrow> nat" where
  "dtype_bytes d = the (map_of DTYPE_BYTES d)"

definition logical_bytes :: "capture_metadata \<Rightarrow> int" where
  "logical_bytes m = prod_list (md_shape m) * int (dtype_bytes (md_dtype m))"

definition to_mapping :: "capture_metadata \<Rightarrow> (pystr \<times> jval) list" where
  "to_mapping m =
     [(lit ''capture_id'', VStr (md_capture_id m)), (lit ''tenant_id'', VStr (md_tenant_id m)),
      (lit ''experiment_id'', VStr (md_experiment_id m)), (lit ''run_id'', VStr (md_run_id m)),
      (lit ''session_id'', VStr (md_session_id m)), (lit ''request_id'', VStr (md_request_id m)),
      (lit ''sequence_id'', VStr (md_sequence_id m)), (lit ''model_id'', VStr (md_model_id m)),
      (lit ''model_revision'', VStr (md_model_revision m)),
      (lit ''adapter_revision'', case md_adapter_revision m of None \<Rightarrow> VNull | Some s \<Rightarrow> VStr s),
      (lit ''capture_policy_version'', VStr (md_capture_policy_version m)),
      (lit ''hook_name'', VStr (md_hook_name m)), (lit ''layer_number'', VInt (md_layer_number m)),
      (lit ''producer_rank'', VInt (md_producer_rank m)), (lit ''step_number'', VInt (md_step_number m)),
      (lit ''token_start'', VInt (md_token_start m)), (lit ''token_end'', VInt (md_token_end m)),
      (lit ''batch_position'', VInt (md_batch_position m)), (lit ''dtype'', VStr (md_dtype m)),
      (lit ''shape'', VList (map VInt (md_shape m))),
      (lit ''captured_at_ns'', VInt (md_captured_at_ns m))]"

fun is_pint :: "pyval \<Rightarrow> bool" where
  "is_pint (PInt _) = True"
| "is_pint _ = False"

definition from_mapping :: "(pystr \<times> pyval) list \<Rightarrow> capture_metadata result" where
  "from_mapping value =
     (if \<not> list_all (\<lambda>n. map_of value (lit n) \<noteq> None) metadata_fields
      then Inl (Error PackFormatError ''capture metadata is missing'')
      else let arg = (\<lambda>n. the (map_of value (lit n))) in
        case arg ''shape'' of
          PList dims \<Rightarrow>
            if \<not> list_all is_pint dims
            then Inl (Error PackFormatError ''capture shape must be an integer list'')
            else (case CaptureMetadata arg of
                    Inr m \<Rightarrow> Inr m
                  | Inl e \<Rightarrow>
                      if is_instance e TypeError \<or> is_instance e ValueError
                      then Inl (Error PackFormatError ''invalid capture metadata'') else Inl e)
        | _ \<Rightarrow> Inl (Error PackFormatError ''capture shape must be an integer list''))"

text \<open>The class invariant the constructor establishes.\<close>

definition metadata_ok :: "capture_metadata \<Rightarrow> bool" where
  "metadata_ok m \<longleftrightarrow>
     list_all (text_ok TEXT_LIMIT)
       [md_capture_id m, md_tenant_id m, md_experiment_id m, md_run_id m, md_session_id m,
        md_request_id m, md_sequence_id m, md_model_id m, md_model_revision m,
        md_capture_policy_version m, md_hook_name m]
     \<and> (case md_adapter_revision m of None \<Rightarrow> True | Some s \<Rightarrow> text_ok TEXT_LIMIT s)
     \<and> md_dtype m \<in> set (map fst DTYPE_BYTES)
     \<and> length (md_shape m) \<le> MAX_RANK
     \<and> list_all (\<lambda>d. 0 \<le> d \<and> d \<le> 2 ^ 31 - 1) (md_shape m)
     \<and> 0 \<le> md_producer_rank m \<and> md_producer_rank m \<le> 2 ^ 32 - 1
     \<and> 0 \<le> md_batch_position m \<and> md_batch_position m \<le> 2 ^ 32 - 1
     \<and> 0 \<le> md_step_number m \<and> md_step_number m \<le> 2 ^ 64 - 1
     \<and> 0 \<le> md_token_start m \<and> md_token_start m \<le> 2 ^ 64 - 1
     \<and> 0 \<le> md_token_end m \<and> md_token_end m \<le> 2 ^ 64 - 1
     \<and> 0 \<le> md_captured_at_ns m \<and> md_captured_at_ns m \<le> 2 ^ 64 - 1
     \<and> - 1 \<le> md_layer_number m \<and> md_layer_number m \<le> 2 ^ 31 - 1
     \<and> md_token_start m \<le> md_token_end m"

lemma int_within_the_int: "int_within a b v \<longleftrightarrow> v = PInt (the_int v) \<and> a \<le> the_int v \<and> the_int v \<le> b"
  by (cases v) auto

lemma validate_text_str: "validate_text v False limit = Inr () \<longleftrightarrow> v = PStr (the_str v) \<and> text_ok limit (the_str v)"
  by (cases v) (auto simp: validate_text_Inr)

lemma validate_text_opt:
  "validate_text v True limit = Inr () \<longleftrightarrow>
   v = PNone \<or> v = PStr (the_str v) \<and> text_ok limit (the_str v)"
  by (cases v) (auto simp: validate_text_Inr)

lemma check_dtype_Inr:
  "check_dtype v = Inr () \<longleftrightarrow> v = PStr (the_str v) \<and> the_str v \<in> set (map fst DTYPE_BYTES)"
  by (cases v) (auto simp: check_dtype_def)

lemma rmap_unit: "rmap f xs = Inr us \<longleftrightarrow> us = map (\<lambda>_. ()) xs \<and> (\<forall>x \<in> set xs. f x = Inr ())" for f :: "'a \<Rightarrow> unit result"
  by (induction xs arbitrary: us) (auto simp: rbind_eq_Inr)

lemma CaptureMetadata_ok:
  assumes "CaptureMetadata arg = Inr m"
  shows "metadata_ok m"
proof -
  obtain dims where
    req: "\<forall>n \<in> set required_fields. validate_text (arg n) False TEXT_LIMIT = Inr ()"
    and ad: "validate_text (arg ''adapter_revision'') True TEXT_LIMIT = Inr ()"
    and dt: "check_dtype (arg ''dtype'') = Inr ()"
    and dims: "length dims \<le> MAX_RANK" "list_all (int_within 0 (2 ^ 31 - 1)) dims"
    and bd: "\<forall>p \<in> set bounded_fields. int_within 0 (snd p) (arg (fst p))"
    and ly: "int_within (- 1) (2 ^ 31 - 1) (arg ''layer_number'')"
    and tk: "the_int (arg ''token_start'') \<le> the_int (arg ''token_end'')"
    and m: "md_capture_id m = the_str (arg ''capture_id'')" "md_tenant_id m = the_str (arg ''tenant_id'')"
      "md_experiment_id m = the_str (arg ''experiment_id'')" "md_run_id m = the_str (arg ''run_id'')"
      "md_session_id m = the_str (arg ''session_id'')" "md_request_id m = the_str (arg ''request_id'')"
      "md_sequence_id m = the_str (arg ''sequence_id'')" "md_model_id m = the_str (arg ''model_id'')"
      "md_model_revision m = the_str (arg ''model_revision'')"
      "md_adapter_revision m = opt_str (arg ''adapter_revision'')"
      "md_capture_policy_version m = the_str (arg ''capture_policy_version'')"
      "md_hook_name m = the_str (arg ''hook_name'')" "md_layer_number m = the_int (arg ''layer_number'')"
      "md_producer_rank m = the_int (arg ''producer_rank'')"
      "md_step_number m = the_int (arg ''step_number'')" "md_token_start m = the_int (arg ''token_start'')"
      "md_token_end m = the_int (arg ''token_end'')"
      "md_batch_position m = the_int (arg ''batch_position'')" "md_dtype m = the_str (arg ''dtype'')"
      "md_shape m = map the_int dims" "md_captured_at_ns m = the_int (arg ''captured_at_ns'')"
    using assms unfolding CaptureMetadata_def rbind_eq_Inr rmap_unit by (force simp: case_prod_beta)
  have "list_all (\<lambda>d. 0 \<le> d \<and> d \<le> 2 ^ 31 - 1) (map the_int dims)"
    using dims(2) by (auto simp: list_all_iff int_within_the_int)
  moreover have "case opt_str (arg ''adapter_revision'') of None \<Rightarrow> True | Some s \<Rightarrow> text_ok TEXT_LIMIT s"
    using ad by (auto simp: validate_text_Inr)
  ultimately show ?thesis
    using req dt dims(1) bd ly tk
    unfolding metadata_ok_def m required_fields_def bounded_fields_def
    by (simp add: validate_text_str check_dtype_Inr int_within_the_int)
qed

subsection \<open>The mapping form\<close>

definition decoded_dict_of :: "(pystr \<times> jval) list \<Rightarrow> (pystr \<times> pyval) list" where
  "decoded_dict_of kvs = map (\<lambda>(k, v). (k, decoded True v)) (dict_order True kvs)"

lemma decoded_VDict: "decoded True (VDict kvs) = PDict (decoded_dict_of kvs)"
  by (simp only: decoded_dict decoded_dict_of_def)

lemma map_of_decoded_dict:
  assumes "distinct (map fst kvs)"
  shows "map_of (decoded_dict_of kvs) k = map_option (decoded True) (map_of kvs k)"
  using map_of_dict_order [OF assms, of True]
  by (simp add: decoded_dict_of_def map_of_map)

lemma to_mapping_keys: "map fst (to_mapping m) = map lit metadata_fields"
  by (simp add: to_mapping_def metadata_fields_def)

lemma distinct_metadata_fields: "distinct metadata_fields"
  by (simp add: metadata_fields_def)

lemma distinct_to_mapping [simp]: "distinct (map fst (to_mapping m))"
  using distinct_metadata_fields by (simp add: to_mapping_keys distinct_map inj_on_def)

lemma map_of_to_mapping:
  "map_of (to_mapping m) (lit ''capture_id'') = Some (VStr (md_capture_id m))"
  "map_of (to_mapping m) (lit ''tenant_id'') = Some (VStr (md_tenant_id m))"
  "map_of (to_mapping m) (lit ''experiment_id'') = Some (VStr (md_experiment_id m))"
  "map_of (to_mapping m) (lit ''run_id'') = Some (VStr (md_run_id m))"
  "map_of (to_mapping m) (lit ''session_id'') = Some (VStr (md_session_id m))"
  "map_of (to_mapping m) (lit ''request_id'') = Some (VStr (md_request_id m))"
  "map_of (to_mapping m) (lit ''sequence_id'') = Some (VStr (md_sequence_id m))"
  "map_of (to_mapping m) (lit ''model_id'') = Some (VStr (md_model_id m))"
  "map_of (to_mapping m) (lit ''model_revision'') = Some (VStr (md_model_revision m))"
  "map_of (to_mapping m) (lit ''adapter_revision'')
     = Some (case md_adapter_revision m of None \<Rightarrow> VNull | Some s \<Rightarrow> VStr s)"
  "map_of (to_mapping m) (lit ''capture_policy_version'') = Some (VStr (md_capture_policy_version m))"
  "map_of (to_mapping m) (lit ''hook_name'') = Some (VStr (md_hook_name m))"
  "map_of (to_mapping m) (lit ''layer_number'') = Some (VInt (md_layer_number m))"
  "map_of (to_mapping m) (lit ''producer_rank'') = Some (VInt (md_producer_rank m))"
  "map_of (to_mapping m) (lit ''step_number'') = Some (VInt (md_step_number m))"
  "map_of (to_mapping m) (lit ''token_start'') = Some (VInt (md_token_start m))"
  "map_of (to_mapping m) (lit ''token_end'') = Some (VInt (md_token_end m))"
  "map_of (to_mapping m) (lit ''batch_position'') = Some (VInt (md_batch_position m))"
  "map_of (to_mapping m) (lit ''dtype'') = Some (VStr (md_dtype m))"
  "map_of (to_mapping m) (lit ''shape'') = Some (VList (map VInt (md_shape m)))"
  "map_of (to_mapping m) (lit ''captured_at_ns'') = Some (VInt (md_captured_at_ns m))"
  by (simp_all add: to_mapping_def)

lemma rmap_unit_all: "(\<And>x. x \<in> set xs \<Longrightarrow> f x = Inr ()) \<Longrightarrow> rmap f xs = Inr (map (\<lambda>_. ()) xs)"
  by (subst rmap_unit) simp

lemma from_mapping_to_mapping:
  assumes ok: "metadata_ok m"
  shows "from_mapping (decoded_dict_of (to_mapping m)) = Inr m"
proof -
  let ?d = "decoded_dict_of (to_mapping m)"
  define arg where "arg = (\<lambda>n. the (map_of ?d (lit n)))"
  note look = map_of_decoded_dict [OF distinct_to_mapping] map_of_to_mapping
  have args: "arg ''capture_id'' = PStr (md_capture_id m)" "arg ''tenant_id'' = PStr (md_tenant_id m)"
    "arg ''experiment_id'' = PStr (md_experiment_id m)" "arg ''run_id'' = PStr (md_run_id m)"
    "arg ''session_id'' = PStr (md_session_id m)" "arg ''request_id'' = PStr (md_request_id m)"
    "arg ''sequence_id'' = PStr (md_sequence_id m)" "arg ''model_id'' = PStr (md_model_id m)"
    "arg ''model_revision'' = PStr (md_model_revision m)"
    "arg ''adapter_revision'' = (case md_adapter_revision m of None \<Rightarrow> PNone | Some s \<Rightarrow> PStr s)"
    "arg ''capture_policy_version'' = PStr (md_capture_policy_version m)"
    "arg ''hook_name'' = PStr (md_hook_name m)" "arg ''layer_number'' = PInt (md_layer_number m)"
    "arg ''producer_rank'' = PInt (md_producer_rank m)" "arg ''step_number'' = PInt (md_step_number m)"
    "arg ''token_start'' = PInt (md_token_start m)" "arg ''token_end'' = PInt (md_token_end m)"
    "arg ''batch_position'' = PInt (md_batch_position m)" "arg ''dtype'' = PStr (md_dtype m)"
    "arg ''shape'' = PList (map PInt (md_shape m))" "arg ''captured_at_ns'' = PInt (md_captured_at_ns m)"
    unfolding arg_def look by (simp_all split: option.splits)
  have all: "list_all (\<lambda>n. map_of ?d (lit n) \<noteq> None) metadata_fields"
    unfolding map_of_decoded_dict [OF distinct_to_mapping]
    using arg_cong [OF to_mapping_keys [of m], of set]
    by (auto simp add: list_all_iff map_of_eq_None_iff)
  have "CaptureMetadata arg = Inr m"
  proof -
    have req: "rmap (\<lambda>n. validate_text (arg n) False TEXT_LIMIT) required_fields = Inr (map (\<lambda>_. ()) required_fields)"
      by (rule rmap_unit_all) (use ok in \<open>auto simp: required_fields_def args validate_text_Inr metadata_ok_def\<close>)
    have bd: "rmap (\<lambda>(n, upper). require (int_within 0 upper (arg n)) ValueError
              ''must be a non-negative integer within its bound'') bounded_fields = Inr (map (\<lambda>_. ()) bounded_fields)"
      by (rule rmap_unit_all) (use ok in \<open>auto simp: bounded_fields_def args metadata_ok_def\<close>)
    have ad: "validate_text (arg ''adapter_revision'') True TEXT_LIMIT = Inr ()"
      using ok by (auto simp: args validate_text_Inr metadata_ok_def split: option.splits)
    have dt: "check_dtype (arg ''dtype'') = Inr ()" using ok by (simp add: args check_dtype_Inr metadata_ok_def)
    have op: "opt_str (arg ''adapter_revision'') = md_adapter_revision m" by (simp add: args split: option.splits)
    have "list_all (int_within 0 (2 ^ 31 - 1)) (map PInt (md_shape m))" "length (md_shape m) \<le> MAX_RANK"
      "int_within (- 1) (2 ^ 31 - 1) (PInt (md_layer_number m))" "md_token_start m \<le> md_token_end m"
      using ok by (auto simp: metadata_ok_def list_all_iff)
    then show ?thesis
      unfolding CaptureMetadata_def req bd ad dt op
      by (simp add: args tuple_of_def require_def comp_def del: int_within.simps)
  qed
  moreover have "arg ''shape'' = PList (map PInt (md_shape m))" "list_all is_pint (map PInt (md_shape m))"
    by (simp_all add: args list_all_iff)
  ultimately show ?thesis
    using all unfolding from_mapping_def Let_def arg_def [symmetric] by simp
qed

lemma from_mapping_ok: "from_mapping d = Inr m \<Longrightarrow> metadata_ok m"
  by (auto simp: from_mapping_def Let_def CaptureMetadata_ok split: if_splits pyval.splits sum.splits)

lemma text_ok_scalar: "text_ok n s \<Longrightarrow> list_all scalar_value s"
  by (auto simp: text_ok_def utf8_encode_def split: if_splits)

lemma int_limit: "\<bar>i\<bar> < 2 ^ 80 \<Longrightarrow> \<bar>i\<bar> < (10::int) ^ int_digits_limit"
proof -
  assume "\<bar>i\<bar> < 2 ^ 80"
  also have "(2::int) ^ 80 \<le> 10 ^ 80" by (rule power_mono) auto
  also have "(10::int) ^ 80 \<le> 10 ^ int_digits_limit" by (rule power_increasing) (auto simp: int_digits_limit_def)
  finally show ?thesis .
qed

lemma jval_ok_to_mapping:
  assumes "metadata_ok m"
  shows "jval_ok (VDict (to_mapping m))"
proof -
  have k: "list_all scalar_value k" if "k \<in> fst ` set (to_mapping m)" for k
  proof -
    from that obtain n where "k = lit n" "n \<in> set metadata_fields"
      using arg_cong [OF to_mapping_keys [of m], of set] by auto
    then show ?thesis by (auto simp: metadata_fields_def lit_def list_all_iff scalar_value_def is_surrogate_def)
  qed
  have d: "list_all scalar_value (md_dtype m)"
    using assms by (auto simp: metadata_ok_def DTYPE_BYTES_def lit_def scalar_value_def is_surrogate_def)
  have i: "\<bar>md_layer_number m\<bar> < 2 ^ 80" "\<bar>md_producer_rank m\<bar> < 2 ^ 80" "\<bar>md_step_number m\<bar> < 2 ^ 80"
    "\<bar>md_token_start m\<bar> < 2 ^ 80" "\<bar>md_token_end m\<bar> < 2 ^ 80" "\<bar>md_batch_position m\<bar> < 2 ^ 80"
    "\<bar>md_captured_at_ns m\<bar> < 2 ^ 80"
    using assms by (auto simp: metadata_ok_def)
  have "\<bar>x\<bar> < 10 ^ int_digits_limit" if "x \<in> set (md_shape m)" for x
    by (rule int_limit) (use assms that in \<open>auto simp: metadata_ok_def list_all_iff\<close>)
  then have sh: "jval_ok (VList (map VInt (md_shape m)))" by (simp add: list_all_iff)
  have v: "list_all (\<lambda>kv. jval_ok (snd kv)) (to_mapping m)"
    using assms d sh i [THEN int_limit]
    by (simp add: to_mapping_def metadata_ok_def text_ok_scalar [of TEXT_LIMIT] del: jval_ok.simps(4) split: option.splits)
  have "list_all (\<lambda>(k, v). list_all scalar_value k \<and> jval_ok v) (to_mapping m)"
    unfolding list_all_iff
  proof
    fix kv assume "kv \<in> set (to_mapping m)"
    with k [of "fst kv"] v show "case kv of (k, v) \<Rightarrow> Ball (set k) scalar_value \<and> jval_ok v"
      by (auto simp: list_all_iff case_prod_beta)
  qed
  then show ?thesis by simp
qed

text \<open>A validated capture has a non-negative size.\<close>

lemma prod_list_nonneg: "list_all (\<lambda>d. 0 \<le> d \<and> P d) xs \<Longrightarrow> 0 \<le> prod_list (xs :: int list)"
  by (induction xs) auto

lemma logical_bytes_nonneg: "metadata_ok m \<Longrightarrow> 0 \<le> logical_bytes m"
  by (auto simp: logical_bytes_def metadata_ok_def intro!: mult_nonneg_nonneg prod_list_nonneg)

section \<open>Records, references and descriptors\<close>

record capture_record =
  rec_metadata :: capture_metadata
  rec_payload :: bytes

definition CaptureRecord :: "capture_metadata \<Rightarrow> bytes \<Rightarrow> capture_record result" where
  "CaptureRecord m payload =
     (if int (length payload) \<noteq> logical_bytes m
      then Inl (Error ValueError ''payload length does not match dtype and shape'')
      else Inr \<lparr>rec_metadata = m, rec_payload = payload\<rparr>)"

text \<open>The invariant of a constructed record over validated metadata.\<close>

definition record_ok :: "capture_record \<Rightarrow> bool" where
  "record_ok r \<longleftrightarrow> metadata_ok (rec_metadata r) \<and> int (length (rec_payload r)) = logical_bytes (rec_metadata r)"

lemma CaptureRecord_ok: "metadata_ok m \<Longrightarrow> CaptureRecord m p = Inr r \<Longrightarrow> record_ok r"
  by (auto simp: CaptureRecord_def record_ok_def split: if_splits)

record pack_ref =
  ref_pack_id :: pystr
  ref_store_id :: pystr
  ref_object_key :: pystr
  ref_object_bytes :: int
  ref_checksum :: pystr
  ref_record_count :: int

record object_info =
  info_size :: int
  info_checksum :: pystr

record stored_object =
  so_object_key :: pystr
  so_object_bytes :: int

record object_page =
  op_items :: "stored_object list"
  op_next_cursor :: "pystr option"

record payload_locator =
  loc_pack_id :: pystr
  loc_store_id :: pystr
  loc_object_key :: pystr
  loc_object_bytes :: int
  loc_pack_checksum :: pystr
  loc_pack_record_count :: int
  loc_offset :: int
  loc_stored_length :: int
  loc_decoded_length :: int
  loc_codec :: pystr
  loc_checksum :: pystr

definition pack_ref_of :: "payload_locator \<Rightarrow> pack_ref" where
  "pack_ref_of l =
     \<lparr>ref_pack_id = loc_pack_id l, ref_store_id = loc_store_id l, ref_object_key = loc_object_key l,
      ref_object_bytes = loc_object_bytes l, ref_checksum = loc_pack_checksum l,
      ref_record_count = loc_pack_record_count l\<rparr>"

record capture_descriptor =
  desc_metadata :: capture_metadata
  desc_locator :: payload_locator

definition desc_capture_id :: "capture_descriptor \<Rightarrow> pystr" where
  "desc_capture_id d = md_capture_id (desc_metadata d)"

section \<open>Queries\<close>

record capture_query =
  q_tenant_id :: "pystr option"
  q_experiment_id :: "pystr option"
  q_run_id :: "pystr option"
  q_session_id :: "pystr option"
  q_model_id :: "pystr option"
  q_hook_names :: "pystr list"
  q_layer_numbers :: "int list"
  q_captured_after_ns :: "int option"
  q_captured_before_ns :: "int option"
  q_cursor :: "pystr option"
  q_limit :: int

definition validate_opt :: "nat \<Rightarrow> pystr option \<Rightarrow> unit result" where
  "validate_opt limit v =
     (case v of None \<Rightarrow> Inr () | Some s \<Rightarrow> validate_text (PStr s) False limit)"

definition opt_nonneg :: "int option \<Rightarrow> bool" where
  "opt_nonneg v \<longleftrightarrow> (case v of None \<Rightarrow> True | Some i \<Rightarrow> 0 \<le> i)"

definition CaptureQuery :: "capture_query \<Rightarrow> capture_query result" where
  "CaptureQuery q =
     rbind (rmap (validate_opt TEXT_LIMIT)
              [q_tenant_id q, q_experiment_id q, q_run_id q, q_session_id q, q_model_id q]) (\<lambda>_.
     rbind (validate_opt CURSOR_LIMIT (q_cursor q)) (\<lambda>_.
     rbind (require (1 \<le> q_limit q \<and> q_limit q \<le> 10000) ValueError
              ''limit must be between 1 and 10000'') (\<lambda>_.
     rbind (require (length (q_hook_names q) \<le> 128 \<and> length (q_layer_numbers q) \<le> 1024) ValueError
              ''query filters exceed their bounded cardinality'') (\<lambda>_.
     rbind (rmap (\<lambda>h. validate_text (PStr h) False TEXT_LIMIT) (q_hook_names q)) (\<lambda>_.
     rbind (require (list_all (\<lambda>l. - 1 \<le> l) (q_layer_numbers q)) ValueError
              ''layer numbers must be >= -1'') (\<lambda>_.
     rbind (require (opt_nonneg (q_captured_after_ns q)) ValueError
              ''captured_after_ns must be a non-negative integer'') (\<lambda>_.
     rbind (require (opt_nonneg (q_captured_before_ns q)) ValueError
              ''captured_before_ns must be a non-negative integer'') (\<lambda>_.
     rbind (require (case (q_captured_after_ns q, q_captured_before_ns q) of
                       (Some a, Some b) \<Rightarrow> a \<le> b | _ \<Rightarrow> True) ValueError
              ''captured_before_ns must be >= captured_after_ns'') (\<lambda>_.
     Inr q)))))))))"

definition jopt_str :: "pystr option \<Rightarrow> jval" where
  "jopt_str v = (case v of None \<Rightarrow> VNull | Some s \<Rightarrow> VStr s)"

definition jopt_int :: "int option \<Rightarrow> jval" where
  "jopt_int v = (case v of None \<Rightarrow> VNull | Some i \<Rightarrow> VInt i)"

text \<open>\<^verbatim>\<open>asdict(self)\<close>, and the same without the page-addressing fields.\<close>

definition filter_mapping :: "capture_query \<Rightarrow> (pystr \<times> jval) list" where
  "filter_mapping q =
     [(lit ''tenant_id'', jopt_str (q_tenant_id q)), (lit ''experiment_id'', jopt_str (q_experiment_id q)),
      (lit ''run_id'', jopt_str (q_run_id q)), (lit ''session_id'', jopt_str (q_session_id q)),
      (lit ''model_id'', jopt_str (q_model_id q)),
      (lit ''hook_names'', VList (map VStr (q_hook_names q))),
      (lit ''layer_numbers'', VList (map VInt (q_layer_numbers q))),
      (lit ''captured_after_ns'', jopt_int (q_captured_after_ns q)),
      (lit ''captured_before_ns'', jopt_int (q_captured_before_ns q))]"

definition query_mapping :: "capture_query \<Rightarrow> (pystr \<times> jval) list" where
  "query_mapping q =
     filter_mapping q @ [(lit ''cursor'', jopt_str (q_cursor q)), (lit ''limit'', VInt (q_limit q))]"

text \<open>\<^verbatim>\<open>json.dumps(v, sort_keys=True, separators=(",", ":")).encode()\<close>; the text is ASCII
  (\<open>dumps_ascii\<close>), so its encoding is bytewise.\<close>

definition encode_json :: "jval \<Rightarrow> bytes" where
  "encode_json v = ascii_bytes (dumps True True v)"

definition query_hash :: "capture_query \<Rightarrow> pystr" where
  "query_hash q = hexdigest (encode_json (VDict (query_mapping q)))"

definition filter_hash :: "capture_query \<Rightarrow> pystr" where
  "filter_hash q = hexdigest (encode_json (VDict (filter_mapping q)))"

section \<open>Selections\<close>

record capture_selection =
  sel_selection_id :: pystr
  sel_capture_ids :: "pystr list"
  sel_catalog_watermark :: pystr
  sel_filter_hash :: pystr
  sel_tenant_id :: pystr

definition selection_identity :: "pystr \<Rightarrow> pystr \<Rightarrow> pystr \<Rightarrow> pystr list \<Rightarrow> bytes" where
  "selection_identity watermark fhash tenant ids =
     encode_json (VDict
       [(lit ''version'', VInt 3), (lit ''catalog_watermark'', VStr watermark),
        (lit ''filter_hash'', VStr fhash), (lit ''tenant_id'', VStr tenant),
        (lit ''capture_ids'', VList (map VStr ids))])"

definition CaptureSelection_create ::
  "capture_descriptor list \<Rightarrow> pystr \<Rightarrow> pystr \<Rightarrow> capture_selection result" where
  "CaptureSelection_create ds watermark fhash =
     (let tenants = remdups (map (\<lambda>d. md_tenant_id (desc_metadata d)) ds);
          ids = map desc_capture_id ds
      in if ds = [] then Inl (Error ValueError ''selection requires at least one capture'')
         else if length tenants > 1 then Inl (Error ValueError ''selection spans multiple tenants'')
         else if \<not> distinct ids then Inl (Error DuplicateCaptureError ''duplicate logical capture'')
         else rbind (validate_text (PStr (hd tenants)) False TEXT_LIMIT) (\<lambda>_.
           Inr \<lparr>sel_selection_id = hexdigest (selection_identity watermark fhash (hd tenants) ids),
                sel_capture_ids = ids, sel_catalog_watermark = watermark,
                sel_filter_hash = fhash, sel_tenant_id = hd tenants\<rparr>))"

end
