(* ===== verification/Pack.thy ===== *)
theory Pack
  imports CaptureModel
begin

text \<open>
  The immutable pack format of \<^verbatim>\<open>storage/capture/pack.py\<close>. A pack is a 64-byte header, payloads each
  at a 64-byte boundary, a JSON footer at a 64-byte boundary, and a 64-byte trailer with the footer's
  range, its CRC-32 and the SHA-256 of everything before the trailer. The writer is a state record and
  every operation a function on it; a call that raises leaves the writer as it was, since every check
  precedes the first mutation.
\<close>

section \<open>Constants and fixed-width fields\<close>

definition PACK_MAJOR_VERSION :: nat where "PACK_MAJOR_VERSION = 1"
definition PACK_MINOR_VERSION :: nat where "PACK_MINOR_VERSION = 0"
definition PACK_ALIGNMENT :: int where "PACK_ALIGNMENT = 64"
definition MAX_FOOTER_BYTES :: int where "MAX_FOOTER_BYTES = 64 * 1024 * 1024"
definition MAX_RECORDS :: int where "MAX_RECORDS = 1000000"
definition HEADER_SIZE :: int where "HEADER_SIZE = 64"
definition TRAILER_SIZE :: int where "TRAILER_SIZE = 64"

definition HEADER_MAGIC :: bytes where
  "HEADER_MAGIC = [0x44, 0x4D, 0x49, 0x50, 0x41, 0x43, 0x4B, 0]"

definition TRAILER_MAGIC :: bytes where
  "TRAILER_MAGIC = [0x44, 0x4D, 0x49, 0x46, 0x54, 0x52, 0, 0]"

text \<open>\<^verbatim>\<open>struct.Struct("<8sHHI16sQI20s").pack\<close> and \<^verbatim>\<open>struct.Struct("<8sHHQQI32s").pack\<close>: an integer that
  does not fit its 64-bit field raises \<^verbatim>\<open>struct.error\<close>.\<close>

definition header_pack :: "uuid \<Rightarrow> int \<Rightarrow> bytes result" where
  "header_pack u created =
     (if created < 0 \<or> 2 ^ 64 \<le> created then Inl (Error StructError ''argument out of range'')
      else Inr (HEADER_MAGIC @ le_bytes 2 PACK_MAJOR_VERSION @ le_bytes 2 PACK_MINOR_VERSION
                @ le_bytes 4 (nat HEADER_SIZE) @ uuid_bytes u @ le_bytes 8 (nat created) @ le_bytes 4 0
                @ replicate 20 0))"

definition trailer_pack :: "int \<Rightarrow> int \<Rightarrow> 32 word \<Rightarrow> bytes \<Rightarrow> bytes result" where
  "trailer_pack footer_offset footer_length crc hash =
     (if footer_offset < 0 \<or> 2 ^ 64 \<le> footer_offset \<or> footer_length < 0 \<or> 2 ^ 64 \<le> footer_length
      then Inl (Error StructError ''argument out of range'')
      else Inr (TRAILER_MAGIC @ le_bytes 2 PACK_MAJOR_VERSION @ le_bytes 2 PACK_MINOR_VERSION
                @ le_bytes 8 (nat footer_offset) @ le_bytes 8 (nat footer_length)
                @ le_bytes 4 (unat crc) @ hash))"

record header_fields =
  hf_magic :: bytes
  hf_major :: nat
  hf_minor :: nat
  hf_size :: nat
  hf_uuid_bytes :: bytes
  hf_created :: nat
  hf_flags :: nat
  hf_reserved :: bytes

record trailer_fields =
  tf_magic :: bytes
  tf_major :: nat
  tf_minor :: nat
  tf_footer_offset :: nat
  tf_footer_length :: nat
  tf_footer_crc :: nat
  tf_body_hash :: bytes

definition field :: "nat \<Rightarrow> nat \<Rightarrow> bytes \<Rightarrow> bytes" where
  "field a n bs = take n (drop a bs)"

definition header_unpack :: "bytes \<Rightarrow> header_fields result" where
  "header_unpack bs =
     (if length bs < 64 then Inl (Error StructError ''unpack_from requires a buffer'')
      else Inr \<lparr>hf_magic = field 0 8 bs, hf_major = le_val (field 8 2 bs), hf_minor = le_val (field 10 2 bs),
                hf_size = le_val (field 12 4 bs), hf_uuid_bytes = field 16 16 bs,
                hf_created = le_val (field 32 8 bs), hf_flags = le_val (field 40 4 bs),
                hf_reserved = field 44 20 bs\<rparr>)"

definition trailer_unpack :: "bytes \<Rightarrow> trailer_fields result" where
  "trailer_unpack bs =
     (if length bs \<noteq> 64 then Inl (Error StructError ''unpack requires a buffer'')
      else Inr \<lparr>tf_magic = field 0 8 bs, tf_major = le_val (field 8 2 bs), tf_minor = le_val (field 10 2 bs),
                tf_footer_offset = le_val (field 12 8 bs), tf_footer_length = le_val (field 20 8 bs),
                tf_footer_crc = le_val (field 28 4 bs), tf_body_hash = field 32 32 bs\<rparr>)"

section \<open>Records of the footer\<close>

record sealed_pack =
  sp_pack_id :: pystr
  sp_created_at_ns :: int
  sp_data :: bytes
  sp_record_count :: int
  sp_footer_offset :: int
  sp_checksum :: pystr

definition object_bytes :: "sealed_pack \<Rightarrow> int" where
  "object_bytes p = int (length (sp_data p))"

record indexed_record =
  ix_metadata :: capture_metadata
  ix_offset :: int
  ix_stored_length :: int
  ix_decoded_length :: int
  ix_codec :: pystr
  ix_checksum :: pystr

definition align :: "bytes \<Rightarrow> bytes" where
  "align buffer =
     (let padding = (- int (length buffer)) mod PACK_ALIGNMENT
      in if padding \<noteq> 0 then buffer @ replicate (nat padding) 0 else buffer)"

definition aligned_length :: "int \<Rightarrow> int" where
  "aligned_length n = n + (- n) mod PACK_ALIGNMENT"

definition record_mapping :: "indexed_record \<Rightarrow> jval" where
  "record_mapping item = VDict
     [(lit ''metadata'', VDict (to_mapping (ix_metadata item))), (lit ''offset'', VInt (ix_offset item)),
      (lit ''stored_length'', VInt (ix_stored_length item)),
      (lit ''decoded_length'', VInt (ix_decoded_length item)), (lit ''codec'', VStr (ix_codec item)),
      (lit ''checksum'', VStr (ix_checksum item))]"

definition crc32_hex :: "bytes \<Rightarrow> pystr" where
  "crc32_hex data = hex_fixed 8 (unat (crc32 data))"

definition verify_payload :: "capture_descriptor \<Rightarrow> bytes \<Rightarrow> unit result" where
  "verify_payload d payload =
     (let loc = desc_locator d in
      if int (length payload) \<noteq> loc_stored_length loc then Inl (Error PackIntegrityError ''short record'')
      else if loc_codec loc \<noteq> lit ''none'' then Inl (Error PackFormatError ''unsupported codec'')
      else if loc_stored_length loc \<noteq> loc_decoded_length loc
      then Inl (Error PackFormatError ''none codec requires equal stored and decoded lengths'')
      else if crc32_hex payload \<noteq> loc_checksum loc
      then Inl (Error PackIntegrityError ''record checksum mismatch'')
      else Inr ())"

section \<open>The writer\<close>

datatype pack_id_arg = IdUUID uuid | IdStr pystr

record pack_writer =
  w_uuid :: uuid
  w_pack_id :: pystr
  w_created_at_ns :: int
  w_max_pack_bytes :: int
  w_max_records :: int
  w_buffer :: bytes
  w_records :: "indexed_record list"
  w_footer_prefix :: bytes
  w_footer_suffix :: bytes
  w_record_json :: "bytes list"
  w_record_json_bytes :: int
  w_capture_ids :: "pystr list"
  w_sealed :: bool

definition footer_mapping :: "pystr \<Rightarrow> int \<Rightarrow> jval list \<Rightarrow> jval" where
  "footer_mapping pack_id created records = VDict
     [(lit ''format'', VStr (lit ''dmi-pack'')), (lit ''major_version'', VInt (int PACK_MAJOR_VERSION)),
      (lit ''minor_version'', VInt (int PACK_MINOR_VERSION)), (lit ''pack_id'', VStr pack_id),
      (lit ''created_at_ns'', VInt created), (lit ''records'', VList records)]"

text \<open>\<^verbatim>\<open>b.rsplit(sep, 1)\<close> when \<open>sep\<close> occurs: the parts around its last occurrence.\<close>

fun rsplit1 :: "bytes \<Rightarrow> bytes \<Rightarrow> (bytes \<times> bytes) option" where
  "rsplit1 sep [] = None"
| "rsplit1 sep (c # s) =
     (case rsplit1 sep s of
        Some (p, q) \<Rightarrow> Some (c # p, q)
      | None \<Rightarrow> if take (length sep) (c # s) = sep then Some ([], drop (length sep) (c # s)) else None)"

definition PackWriter :: "pack_id_arg \<Rightarrow> int \<Rightarrow> int \<Rightarrow> int \<Rightarrow> pack_writer result" where
  "PackWriter pack_id created max_pack_bytes max_records =
     (case (case pack_id of IdUUID u \<Rightarrow> Some u | IdStr s \<Rightarrow> uuid_parse s) of
        None \<Rightarrow> Inl (Error ValueError ''pack_id must be a UUID'')
      | Some u \<Rightarrow>
          if created < 0 then Inl (Error ValueError ''created_at_ns must be non-negative'')
          else if max_pack_bytes < HEADER_SIZE + TRAILER_SIZE + 2
          then Inl (Error ValueError ''max_pack_bytes is too small for a pack'')
          else if \<not> (1 \<le> max_records \<and> max_records \<le> MAX_RECORDS)
          then Inl (Error ValueError ''max_records must be between 1 and 1000000'')
          else rbind (header_pack u created) (\<lambda>header.
            case rsplit1 (ascii_bytes (lit ''[]''))
                   (encode_json (footer_mapping (uuid_str u) created [])) of
              None \<Rightarrow> Inl (Error ValueError ''not enough values to unpack'')
            | Some (prefix, suffix) \<Rightarrow>
                Inr \<lparr>w_uuid = u, w_pack_id = uuid_str u, w_created_at_ns = created,
                     w_max_pack_bytes = max_pack_bytes, w_max_records = max_records, w_buffer = header,
                     w_records = [], w_footer_prefix = prefix, w_footer_suffix = suffix,
                     w_record_json = [], w_record_json_bytes = 0, w_capture_ids = [],
                     w_sealed = False\<rparr>))"

definition record_count :: "pack_writer \<Rightarrow> int" where
  "record_count w = int (length (w_records w))"

definition index_record :: "capture_record \<Rightarrow> int \<Rightarrow> indexed_record" where
  "index_record r offset =
     \<lparr>ix_metadata = rec_metadata r, ix_offset = offset,
      ix_stored_length = int (length (rec_payload r)), ix_decoded_length = int (length (rec_payload r)),
      ix_codec = lit ''none'', ix_checksum = crc32_hex (rec_payload r)\<rparr>"

definition pack_append :: "capture_record \<Rightarrow> pack_writer \<Rightarrow> pack_writer result" where
  "pack_append r w =
     (if w_sealed w then Inl (Error PackStateError ''pack is already sealed'')
      else if w_max_records w \<le> int (length (w_records w))
      then Inl (Error PackCapacityError ''pack record limit reached'')
      else if md_capture_id (rec_metadata r) \<in> set (w_capture_ids w)
      then Inl (Error DuplicateCaptureError ''duplicate capture ID'')
      else
        let offset = aligned_length (int (length (w_buffer w)));
            indexed = index_record r offset;
            encoded_record = encode_json (record_mapping indexed);
            record_content_bytes = w_record_json_bytes w + int (length encoded_record);
            record_separators = int (length (w_record_json w));
            footer_length = int (length (w_footer_prefix w)) + 2 + record_content_bytes
              + record_separators + int (length (w_footer_suffix w));
            projected = aligned_length (offset + int (length (rec_payload r))) + footer_length + TRAILER_SIZE
        in if MAX_FOOTER_BYTES < footer_length \<or> w_max_pack_bytes w < projected
           then Inl (Error PackCapacityError ''record would exceed max_pack_bytes'')
           else Inr (w\<lparr>w_buffer := align (w_buffer w) @ rec_payload r,
                       w_records := w_records w @ [indexed],
                       w_record_json := w_record_json w @ [encoded_record],
                       w_record_json_bytes := record_content_bytes,
                       w_capture_ids := md_capture_id (rec_metadata r) # w_capture_ids w\<rparr>))"

fun append_all :: "capture_record list \<Rightarrow> pack_writer \<Rightarrow> pack_writer result" where
  "append_all [] w = Inr w"
| "append_all (r # rs) w = rbind (pack_append r w) (append_all rs)"

definition footer_bytes :: "pack_writer \<Rightarrow> bytes" where
  "footer_bytes w = w_footer_prefix w @ [0x5B] @ join [0x2C] (w_record_json w) @ [0x5D] @ w_footer_suffix w"

definition seal :: "pack_writer \<Rightarrow> (sealed_pack \<times> pack_writer) result" where
  "seal w =
     (if w_sealed w then Inl (Error PackStateError ''pack is already sealed'')
      else if w_records w = [] then Inl (Error ValueError ''cannot seal an empty pack'')
      else
        let footer = footer_bytes w;
            footer_offset = aligned_length (int (length (w_buffer w)))
        in if MAX_FOOTER_BYTES < int (length footer)
           then Inl (Error ValueError ''pack footer exceeds its size limit'')
           else if w_max_pack_bytes w < footer_offset + int (length footer) + TRAILER_SIZE
           then Inl (Error ValueError ''sealed pack exceeds max_pack_bytes'')
           else
             let buffer = align (w_buffer w) @ footer
             in rbind (trailer_pack footer_offset (int (length footer)) (crc32 footer) (sha256 buffer)) (\<lambda>trailer.
                  let data = buffer @ trailer
                  in Inr (\<lparr>sp_pack_id = w_pack_id w, sp_created_at_ns = w_created_at_ns w, sp_data = data,
                           sp_record_count = int (length (w_records w)), sp_footer_offset = footer_offset,
                           sp_checksum = hexdigest data\<rparr>,
                          w\<lparr>w_buffer := data, w_sealed := True\<rparr>)))"

section \<open>Footer parsing\<close>

definition get_eq_int :: "(pystr \<times> pyval) list \<Rightarrow> string \<Rightarrow> int \<Rightarrow> bool" where
  "get_eq_int d k i = (case map_of d (lit k) of None \<Rightarrow> False | Some v \<Rightarrow> py_eq_int v i)"

definition decode_footer :: "bytes \<Rightarrow> int \<Rightarrow> int \<Rightarrow> (pystr \<times> pyval) list result" where
  "decode_footer footer major minor =
     (case loads_bytes footer of
        Inl e \<Rightarrow>
          if is_instance e UnicodeDecodeError \<or> is_instance e JSONDecodeError
          then Inl (Error PackFormatError ''pack footer is not valid JSON'') else Inl e
      | Inr (PDict d) \<Rightarrow>
          if map_of d (lit ''format'') \<noteq> Some (PStr (lit ''dmi-pack''))
          then Inl (Error PackFormatError ''pack footer has an invalid format marker'')
          else if \<not> get_eq_int d ''major_version'' major \<or> \<not> get_eq_int d ''minor_version'' minor
          then Inl (Error PackFormatError ''pack footer version does not match the trailer'')
          else Inr d
      | Inr _ \<Rightarrow> Inl (Error PackFormatError ''pack footer has an invalid format marker''))"

text \<open>\<^verbatim>\<open>_CRC_PATTERN.fullmatch\<close>: exactly eight lower-case hexadecimal digits.\<close>

definition crc_pattern :: "pystr \<Rightarrow> bool" where
  "crc_pattern s \<longleftrightarrow> length s = 8 \<and> list_all is_lower_hex s"

definition key_of :: "(pystr \<times> pyval) list \<Rightarrow> string \<Rightarrow> pyval result" where
  "key_of d k =
     (case map_of d (lit k) of
        None \<Rightarrow> Inl (Error PackFormatError ''pack record is missing a key'') | Some v \<Rightarrow> Inr v)"

definition parse_record :: "pyval \<Rightarrow> int \<Rightarrow> indexed_record result" where
  "parse_record raw footer_offset =
     (case raw of
        PDict d \<Rightarrow>
          rbind (key_of d ''metadata'') (\<lambda>metadata_raw.
          rbind (key_of d ''offset'') (\<lambda>offset_v.
          rbind (key_of d ''stored_length'') (\<lambda>stored_v.
          rbind (key_of d ''decoded_length'') (\<lambda>decoded_v.
          rbind (key_of d ''codec'') (\<lambda>codec.
          rbind (key_of d ''checksum'') (\<lambda>checksum.
          case metadata_raw of
            PDict md \<Rightarrow>
              if \<not> list_all is_pint [offset_v, stored_v, decoded_v]
              then Inl (Error PackFormatError ''pack record offsets and lengths must be integers'')
              else
                let offset = the_int offset_v; stored_length = the_int stored_v;
                    decoded_length = the_int decoded_v
                in if offset < HEADER_SIZE \<or> stored_length < 0 \<or> decoded_length < 0
                   then Inl (Error PackFormatError ''pack record range is invalid'')
                   else if footer_offset < offset + stored_length
                   then Inl (Error PackFormatError ''pack record extends into the footer'')
                   else if codec \<noteq> PStr (lit ''none'') \<or> stored_length \<noteq> decoded_length
                   then Inl (Error PackFormatError ''dmi-pack-v1 supports only uncompressed records'')
                   else (case checksum of
                           PStr crc \<Rightarrow>
                             if \<not> crc_pattern crc
                             then Inl (Error PackFormatError ''pack record checksum is invalid'')
                             else rbind (from_mapping md) (\<lambda>metadata.
                               if logical_bytes metadata \<noteq> decoded_length
                               then Inl (Error PackFormatError
                                      ''record length does not match metadata dtype and shape'')
                               else Inr \<lparr>ix_metadata = metadata, ix_offset = offset,
                                         ix_stored_length = stored_length,
                                         ix_decoded_length = decoded_length,
                                         ix_codec = lit ''none'', ix_checksum = crc\<rparr>)
                         | _ \<Rightarrow> Inl (Error PackFormatError ''pack record checksum is invalid''))
          | _ \<Rightarrow> Inl (Error PackFormatError ''pack record metadata must be an object'')))))))
      | _ \<Rightarrow> Inl (Error PackFormatError ''pack record entry must be an object''))"

fun parse_loop :: "int \<Rightarrow> int \<Rightarrow> pystr list \<Rightarrow> pyval list \<Rightarrow> indexed_record list result" where
  "parse_loop footer_offset previous_end seen [] = Inr []"
| "parse_loop footer_offset previous_end seen (raw # raws) =
     rbind (parse_record raw footer_offset) (\<lambda>record.
       if md_capture_id (ix_metadata record) \<in> set seen
       then Inl (Error PackFormatError ''duplicate capture ID'')
       else if ix_offset record < previous_end
       then Inl (Error PackFormatError ''pack record ranges overlap or are out of order'')
       else rbind (parse_loop footer_offset (ix_offset record + ix_stored_length record)
                     (md_capture_id (ix_metadata record) # seen) raws) (\<lambda>records.
         Inr (record # records)))"

definition parse_records :: "(pystr \<times> pyval) list \<Rightarrow> int \<Rightarrow> indexed_record list result" where
  "parse_records d footer_offset =
     (case map_of d (lit ''records'') of
        Some (PList raws) \<Rightarrow>
          if MAX_RECORDS < int (length raws)
          then Inl (Error PackFormatError ''pack footer has an invalid record list'')
          else parse_loop footer_offset HEADER_SIZE [] raws
      | _ \<Rightarrow> Inl (Error PackFormatError ''pack footer has an invalid record list''))"

section \<open>Object keys and tenants\<close>

text \<open>\<^verbatim>\<open>quote(value, safe="-_.=").replace("~", "%7E")\<close>.\<close>

definition quote_safe :: "nat \<Rightarrow> bool" where
  "quote_safe c \<longleftrightarrow> 65 \<le> c \<and> c \<le> 90 \<or> 97 \<le> c \<and> c \<le> 122 \<or> 48 \<le> c \<and> c \<le> 57
     \<or> c = 95 \<or> c = 46 \<or> c = 45 \<or> c = 61"

definition upper_hex_digit :: "nat \<Rightarrow> nat" where
  "upper_hex_digit d = (if d < 10 then 48 + d else 55 + d)"

definition quote_byte :: "byte \<Rightarrow> pystr" where
  "quote_byte b =
     (if quote_safe (unat b) then [unat b]
      else [37, upper_hex_digit (unat b div 16), upper_hex_digit (unat b mod 16)])"

definition quote :: "pystr \<Rightarrow> pystr result" where
  "quote value =
     (case utf8_encode value of
        None \<Rightarrow> Inl (Error UnicodeEncodeError ''surrogates not allowed'')
      | Some b \<Rightarrow> Inr (concat (map quote_byte b)))"

definition DIGEST_PREFIX :: pystr where "DIGEST_PREFIX = lit ''sha256-''"

definition startswith :: "pystr \<Rightarrow> pystr \<Rightarrow> bool" where
  "startswith p s \<longleftrightarrow> take (length p) s = p"

definition key_component :: "pystr \<Rightarrow> pystr result" where
  "key_component value =
     rbind (quote value) (\<lambda>encoded.
       if length encoded \<le> 160 \<and> \<not> startswith DIGEST_PREFIX encoded then Inr encoded
       else Inr (DIGEST_PREFIX @ hexdigest (the (utf8_encode value))))"

text \<open>\<^verbatim>\<open>s.split(sep)\<close> for a one-character separator.\<close>

fun split :: "nat \<Rightarrow> pystr \<Rightarrow> pystr list" where
  "split sep [] = [[]]"
| "split sep (c # s) =
     (if c = sep then [] # split sep s else (c # hd (split sep s)) # tl (split sep s))"

definition tenant_segment :: "pystr \<Rightarrow> pystr option" where
  "tenant_segment object_key =
     map_option (drop (length (lit ''tenant=''))) (find (startswith (lit ''tenant='')) (split 47 object_key))"

text \<open>\<^verbatim>\<open>re.compile(r"sha256-[0-9a-f]{64}\Z").match\<close>.\<close>

definition digest_shape :: "pystr \<Rightarrow> bool" where
  "digest_shape s \<longleftrightarrow> startswith DIGEST_PREFIX s \<and> length s = 71 \<and> list_all is_lower_hex (drop 7 s)"

definition segment_belongs_to :: "pystr \<Rightarrow> pystr \<Rightarrow> bool result" where
  "segment_belongs_to segment tenant =
     rbind (key_component tenant) (\<lambda>k.
       if segment = k then Inr True
       else if startswith DIGEST_PREFIX tenant \<and> \<not> digest_shape tenant
       then rbind (quote tenant) (\<lambda>q. Inr (segment = q))
       else Inr False)"

definition reject_a_foreign_tenant :: "pack_ref \<Rightarrow> pystr list \<Rightarrow> unit result" where
  "reject_a_foreign_tenant ref tenants =
     (case tenant_segment (ref_object_key ref) of
        None \<Rightarrow> Inr ()
      | Some encoded \<Rightarrow>
          rbind (rmap (\<lambda>tenant. rbind (segment_belongs_to encoded tenant) (\<lambda>b.
                   require b PackIntegrityError ''pack carries a record for a foreign tenant''))
                 (fromkeys tenants)) (\<lambda>_. Inr ()))"

definition descriptor_of :: "pack_ref \<Rightarrow> indexed_record \<Rightarrow> capture_descriptor" where
  "descriptor_of ref item =
     \<lparr>desc_metadata = ix_metadata item,
      desc_locator =
        \<lparr>loc_pack_id = ref_pack_id ref, loc_store_id = ref_store_id ref,
         loc_object_key = ref_object_key ref, loc_object_bytes = ref_object_bytes ref,
         loc_pack_checksum = ref_checksum ref, loc_pack_record_count = ref_record_count ref,
         loc_offset = ix_offset item, loc_stored_length = ix_stored_length item,
         loc_decoded_length = ix_decoded_length item, loc_codec = ix_codec item,
         loc_checksum = ix_checksum item\<rparr>\<rparr>"

definition descriptors_of :: "pack_ref \<Rightarrow> indexed_record list \<Rightarrow> capture_descriptor list result" where
  "descriptors_of ref records =
     rbind (reject_a_foreign_tenant ref (map (\<lambda>i. md_tenant_id (ix_metadata i)) records)) (\<lambda>_.
       Inr (map (descriptor_of ref) records))"

section \<open>The index over a store\<close>

record pack_index =
  pi_ref :: pack_ref
  pi_records :: "indexed_record list"
  pi_footer_read_bytes :: int

definition max_footer_read_bytes :: "pack_ref \<Rightarrow> int" where
  "max_footer_read_bytes ref =
     (let body_bytes = max 0 (ref_object_bytes ref - TRAILER_SIZE)
      in TRAILER_SIZE + min MAX_FOOTER_BYTES body_bytes)"

text \<open>\<^verbatim>\<open>str(UUID(str(v)))\<close>: only a \<^verbatim>\<open>str\<close> and an \<^verbatim>\<open>int\<close> have a text form that can parse; the text of any
  other decoded value is too short or has a character no UUID admits.\<close>

definition uuid_text_of :: "pyval option \<Rightarrow> pystr option" where
  "uuid_text_of v =
     (case v of
        Some (PStr s) \<Rightarrow> map_option uuid_str (uuid_parse s)
      | Some (PInt i) \<Rightarrow>
          if \<bar>i\<bar> < 10 ^ int_digits_limit then map_option uuid_str (uuid_parse (dec_of_int i)) else None
      | _ \<Rightarrow> None)"

definition check_trailer :: "bytes \<Rightarrow> int \<Rightarrow> trailer_fields result" where
  "check_trailer trailer_bytes trailer_offset =
     (case trailer_unpack trailer_bytes of
        Inl _ \<Rightarrow> Inl (Error PackFormatError ''pack trailer is truncated'')
      | Inr t \<Rightarrow>
          let footer_offset = int (tf_footer_offset t); footer_length = int (tf_footer_length t)
          in if tf_magic t \<noteq> TRAILER_MAGIC then Inl (Error PackFormatError ''pack has an invalid trailer'')
             else if tf_major t \<noteq> PACK_MAJOR_VERSION \<or> PACK_MINOR_VERSION < tf_minor t
             then Inl (Error PackFormatError ''unsupported pack version'')
             else if MAX_FOOTER_BYTES < footer_length
             then Inl (Error PackFormatError ''pack footer exceeds its size limit'')
             else if footer_offset < HEADER_SIZE \<or> footer_offset + footer_length \<noteq> trailer_offset
             then Inl (Error PackFormatError ''pack footer range is invalid'')
             else Inr t)"

definition index_footer :: "pack_ref \<Rightarrow> trailer_fields \<Rightarrow> bytes \<Rightarrow> pack_index result" where
  "index_footer ref t footer =
     (if unat (crc32 footer) \<noteq> tf_footer_crc t
      then Inl (Error PackIntegrityError ''footer checksum mismatch'')
      else rbind (decode_footer footer (int (tf_major t)) (int (tf_minor t))) (\<lambda>d.
        case uuid_text_of (map_of d (lit ''pack_id'')) of
          None \<Rightarrow> Inl (Error PackFormatError ''pack footer has an invalid pack ID'')
        | Some pack_id \<Rightarrow>
            if pack_id \<noteq> ref_pack_id ref
            then Inl (Error PackFormatError ''pack footer identity does not match its object key'')
            else rbind (parse_records d (int (tf_footer_offset t))) (\<lambda>records.
              if int (length records) \<noteq> ref_record_count ref
              then Inl (Error PackFormatError ''pack record count does not match its object metadata'')
              else Inr \<lparr>pi_ref = ref, pi_records = records,
                        pi_footer_read_bytes = TRAILER_SIZE + int (tf_footer_length t)\<rparr>)))"

text \<open>\<^verbatim>\<open>from_store\<close> over a store whose reads change a state, and over one whose reads do not.\<close>

definition from_store_st ::
  "pystr \<Rightarrow> (pack_ref \<Rightarrow> int \<Rightarrow> int \<Rightarrow> 's \<Rightarrow> 's \<times> bytes result) \<Rightarrow> pack_ref \<Rightarrow> 's \<Rightarrow> 's \<times> pack_index result" where
  "from_store_st store_id read_range ref s =
     (if ref_store_id ref \<noteq> store_id
      then (s, Inl (Error ValueError ''pack reference belongs to another store''))
      else if ref_object_bytes ref < HEADER_SIZE + TRAILER_SIZE + 2
      then (s, Inl (Error PackFormatError ''pack is truncated''))
      else
        let trailer_offset = ref_object_bytes ref - TRAILER_SIZE
        in case read_range ref trailer_offset TRAILER_SIZE s of
             (s1, Inl e) \<Rightarrow> (s1, Inl e)
           | (s1, Inr trailer_bytes) \<Rightarrow>
               (case check_trailer trailer_bytes trailer_offset of
                  Inl e \<Rightarrow> (s1, Inl e)
                | Inr t \<Rightarrow>
                    (case read_range ref (int (tf_footer_offset t)) (int (tf_footer_length t)) s1 of
                       (s2, Inl e) \<Rightarrow> (s2, Inl e)
                     | (s2, Inr footer) \<Rightarrow> (s2, index_footer ref t footer))))"

definition from_store ::
  "pystr \<Rightarrow> (pack_ref \<Rightarrow> int \<Rightarrow> int \<Rightarrow> bytes result) \<Rightarrow> pack_ref \<Rightarrow> pack_index result" where
  "from_store store_id read_range ref = snd (from_store_st store_id (\<lambda>r off len s. (s, read_range r off len)) ref ())"

definition index_descriptors :: "pack_index \<Rightarrow> capture_descriptor list result" where
  "index_descriptors pidx = descriptors_of (pi_ref pidx) (pi_records pidx)"

section \<open>The reader\<close>

record pack_reader =
  rd_data :: bytes
  rd_pack_id :: pystr
  rd_created_at_ns :: int
  rd_records :: "indexed_record list"
  rd_object_checksum :: pystr

definition from_bytes :: "bytes \<Rightarrow> pack_reader result" where
  "from_bytes data =
     (let trailer_offset = int (length data) - TRAILER_SIZE in
      if int (length data) < HEADER_SIZE + TRAILER_SIZE + 2
      then Inl (Error PackFormatError ''pack is truncated'')
      else case header_unpack data of
        Inl _ \<Rightarrow> Inl (Error PackFormatError ''pack header is truncated'')
      | Inr h \<Rightarrow>
          if hf_magic h \<noteq> HEADER_MAGIC then Inl (Error PackFormatError ''invalid pack magic'')
          else if hf_major h \<noteq> PACK_MAJOR_VERSION
          then Inl (Error PackFormatError ''unsupported pack major version'')
          else if PACK_MINOR_VERSION < hf_minor h
          then Inl (Error PackFormatError ''unsupported pack minor version'')
          else if int (hf_size h) \<noteq> HEADER_SIZE \<or> hf_flags h \<noteq> 0 \<or> hf_reserved h \<noteq> replicate 20 0
          then Inl (Error PackFormatError ''invalid pack header fields'')
          else case trailer_unpack (drop (nat trailer_offset) data) of
            Inl _ \<Rightarrow> Inl (Error PackFormatError ''pack trailer is truncated'')
          | Inr t \<Rightarrow>
              let footer_offset = int (tf_footer_offset t); footer_length = int (tf_footer_length t)
              in if tf_magic t \<noteq> TRAILER_MAGIC
                 then Inl (Error PackFormatError ''pack is truncated or has an invalid trailer'')
                 else if (tf_major t, tf_minor t) \<noteq> (hf_major h, hf_minor h)
                 then Inl (Error PackFormatError ''pack header and trailer versions differ'')
                 else if MAX_FOOTER_BYTES < footer_length
                 then Inl (Error PackFormatError ''pack footer exceeds its size limit'')
                 else if footer_offset < HEADER_SIZE \<or> footer_offset + footer_length \<noteq> trailer_offset
                 then Inl (Error PackFormatError ''pack footer range is invalid'')
                 else if sha256 (take (nat trailer_offset) data) \<noteq> tf_body_hash t
                 then Inl (Error PackIntegrityError ''pack checksum mismatch'')
                 else
                   let footer = slice footer_offset trailer_offset data
                   in if unat (crc32 footer) \<noteq> tf_footer_crc t
                      then Inl (Error PackIntegrityError ''footer checksum mismatch'')
                      else rbind (decode_footer footer (int (hf_major h)) (int (hf_minor h))) (\<lambda>d.
                        let pack_id = uuid_str (uuid_of_bytes (hf_uuid_bytes h))
                        in if map_of d (lit ''pack_id'') \<noteq> Some (PStr pack_id)
                              \<or> \<not> get_eq_int d ''created_at_ns'' (int (hf_created h))
                           then Inl (Error PackFormatError
                                  ''pack footer identity does not match the header'')
                           else rbind (parse_records d footer_offset) (\<lambda>records.
                             Inr \<lparr>rd_data = data, rd_pack_id = pack_id,
                                  rd_created_at_ns = int (hf_created h), rd_records = records,
                                  rd_object_checksum = hexdigest data\<rparr>)))"

definition reader_ref :: "pack_reader \<Rightarrow> pystr \<Rightarrow> pystr \<Rightarrow> pack_ref" where
  "reader_ref rd store_id object_key =
     \<lparr>ref_pack_id = rd_pack_id rd, ref_store_id = store_id, ref_object_key = object_key,
      ref_object_bytes = int (length (rd_data rd)), ref_checksum = rd_object_checksum rd,
      ref_record_count = int (length (rd_records rd))\<rparr>"

definition reader_descriptors :: "pack_reader \<Rightarrow> pystr \<Rightarrow> pystr \<Rightarrow> capture_descriptor list result" where
  "reader_descriptors rd store_id object_key =
     descriptors_of (reader_ref rd store_id object_key) (rd_records rd)"

text \<open>\<^verbatim>\<open>_by_capture_id\<close>: the last record of an identifier wins.\<close>

definition by_capture_id :: "pack_reader \<Rightarrow> pystr \<Rightarrow> indexed_record option" where
  "by_capture_id rd = map_of (rev (map (\<lambda>i. (md_capture_id (ix_metadata i), i)) (rd_records rd)))"

definition read_payload :: "pack_reader \<Rightarrow> capture_descriptor \<Rightarrow> bytes result" where
  "read_payload rd d =
     (let loc = desc_locator d in
      if loc_pack_id loc \<noteq> rd_pack_id rd
      then Inl (Error PackFormatError ''descriptor belongs to another pack'')
      else case by_capture_id rd (desc_capture_id d) of
        None \<Rightarrow> Inl (Error PackFormatError ''descriptor is not present in this pack'')
      | Some indexed \<Rightarrow>
          if desc_metadata d \<noteq> ix_metadata indexed
          then Inl (Error PackFormatError ''descriptor does not match the pack footer'')
          else if (loc_offset loc, loc_stored_length loc, loc_decoded_length loc, loc_codec loc, loc_checksum loc)
                \<noteq> (ix_offset indexed, ix_stored_length indexed, ix_decoded_length indexed,
                   ix_codec indexed, ix_checksum indexed)
          then Inl (Error PackFormatError ''descriptor does not match the pack footer'')
          else
            let payload = slice (ix_offset indexed) (ix_offset indexed + ix_stored_length indexed) (rd_data rd)
            in rbind (verify_payload d payload) (\<lambda>_. Inr payload))"

section \<open>Correctness of the format\<close>

subsection \<open>Alignment\<close>

lemma aligned_length_le: "n \<le> aligned_length n"
  using padding_bounds [of 64 n] by (simp add: aligned_length_def PACK_ALIGNMENT_def)

lemma aligned_length_mod: "aligned_length n mod 64 = 0"
  using aligned_mod [of n 64] by (simp add: aligned_length_def PACK_ALIGNMENT_def)

lemma length_align: "int (length (align buf)) = aligned_length (int (length buf))"
  using padding_bounds [of 64 "int (length buf)"]
  by (auto simp: align_def aligned_length_def PACK_ALIGNMENT_def Let_def)

lemma align_prefix: "\<exists>pad. align buf = buf @ pad"
  by (auto simp: align_def Let_def)

subsection \<open>Fixed-width fields\<close>

lemma field_simps_append [simp]:
  "field 0 n (xs @ ys) = (if n \<le> length xs then take n xs else xs @ take (n - length xs) ys)"
  by (simp add: field_def)

lemma field_skip: "length xs \<le> a \<Longrightarrow> field a n (xs @ ys) = field (a - length xs) n ys"
  by (simp add: field_def)

lemma length_header: "header_pack u c = Inr h \<Longrightarrow> length h = 64"
  by (auto simp: header_pack_def HEADER_MAGIC_def split: if_splits)

lemma length_trailer: "length hash = 32 \<Longrightarrow> trailer_pack a b c hash = Inr t \<Longrightarrow> length t = 64"
  by (auto simp: trailer_pack_def TRAILER_MAGIC_def split: if_splits)

lemma field_exact: "length xs = n \<Longrightarrow> field 0 n (xs @ ys) = xs" "length xs = n \<Longrightarrow> field 0 n xs = xs"
  by (simp_all add: field_def)

lemma header_roundtrip:
  assumes "header_pack u c = Inr h"
  shows "header_unpack (h @ rest) = Inr
     \<lparr>hf_magic = HEADER_MAGIC, hf_major = PACK_MAJOR_VERSION, hf_minor = PACK_MINOR_VERSION,
      hf_size = nat HEADER_SIZE, hf_uuid_bytes = uuid_bytes u, hf_created = nat c, hf_flags = 0,
      hf_reserved = replicate 20 0\<rparr>"
proof -
  have h: "h = HEADER_MAGIC @ le_bytes 2 PACK_MAJOR_VERSION @ le_bytes 2 PACK_MINOR_VERSION
                @ le_bytes 4 (nat HEADER_SIZE) @ uuid_bytes u @ le_bytes 8 (nat c) @ le_bytes 4 0
                @ replicate 20 0" and c: "0 \<le> c" "c < 2 ^ 64"
    using assms by (auto simp: header_pack_def split: if_splits)
  have m: "length HEADER_MAGIC = 8" by (simp add: HEADER_MAGIC_def)
  have v: "le_val (le_bytes 2 PACK_MAJOR_VERSION) = PACK_MAJOR_VERSION"
    "le_val (le_bytes 2 PACK_MINOR_VERSION) = PACK_MINOR_VERSION"
    "le_val (le_bytes 4 (nat HEADER_SIZE)) = nat HEADER_SIZE" "le_val (le_bytes 4 0) = 0"
    "le_val (le_bytes 8 (nat c)) = nat c"
    by (rule le_val_le_bytes; use c in \<open>simp add: PACK_MAJOR_VERSION_def PACK_MINOR_VERSION_def HEADER_SIZE_def nat_less_iff\<close>)+
  have l: "\<not> length (h @ rest) < 64" using length_header [OF assms] by simp
  show ?thesis
    unfolding header_unpack_def if_not_P [OF l] h
    by (simp add: m v field_skip field_exact field_def del: le_bytes.simps)
qed

lemma trailer_roundtrip:
  assumes "trailer_pack fo fl crc hash = Inr t" "length hash = 32"
  shows "trailer_unpack t = Inr
     \<lparr>tf_magic = TRAILER_MAGIC, tf_major = PACK_MAJOR_VERSION, tf_minor = PACK_MINOR_VERSION,
      tf_footer_offset = nat fo, tf_footer_length = nat fl, tf_footer_crc = unat crc,
      tf_body_hash = hash\<rparr>"
proof -
  have t: "t = TRAILER_MAGIC @ le_bytes 2 PACK_MAJOR_VERSION @ le_bytes 2 PACK_MINOR_VERSION
                @ le_bytes 8 (nat fo) @ le_bytes 8 (nat fl) @ le_bytes 4 (unat crc) @ hash"
    and c: "0 \<le> fo" "fo < 2 ^ 64" "0 \<le> fl" "fl < 2 ^ 64"
    using assms by (auto simp: trailer_pack_def split: if_splits)
  have m: "length TRAILER_MAGIC = 8" by (simp add: TRAILER_MAGIC_def)
  have v: "le_val (le_bytes 2 PACK_MAJOR_VERSION) = PACK_MAJOR_VERSION"
    "le_val (le_bytes 2 PACK_MINOR_VERSION) = PACK_MINOR_VERSION"
    "le_val (le_bytes 8 (nat fo)) = nat fo" "le_val (le_bytes 8 (nat fl)) = nat fl"
    by (rule le_val_le_bytes; use c in \<open>simp add: PACK_MAJOR_VERSION_def PACK_MINOR_VERSION_def nat_less_iff\<close>)+
  have vc: "le_val (le_bytes 4 (unat crc)) = unat crc"
    by (rule le_val_le_bytes) (use unsigned_less [of crc] in simp)
  have l: "\<not> length t \<noteq> 64" using length_trailer [OF assms(2,1)] by simp
  show ?thesis
    unfolding trailer_unpack_def if_not_P [OF l] t
    by (simp add: m v vc assms(2) field_skip field_exact field_def del: le_bytes.simps)
qed

subsection \<open>The footer text\<close>

lemma ascii_bytes_join: "ascii_bytes (join sep xs) = join (ascii_bytes sep) (map ascii_bytes xs)"
  by (simp add: ascii_bytes_def [abs_def] map_join)

text \<open>In the sorted footer the record list comes last, so the text before it does not depend on it.\<close>

definition footer_head :: "pystr \<Rightarrow> int \<Rightarrow> pystr" where
  "footer_head pack_id created =
     [123] @ dumps_str True (lit ''created_at_ns'') @ [58] @ dec_of_int created
     @ [44] @ dumps_str True (lit ''format'') @ [58] @ dumps_str True (lit ''dmi-pack'')
     @ [44] @ dumps_str True (lit ''major_version'') @ [58] @ dec_of_int (int PACK_MAJOR_VERSION)
     @ [44] @ dumps_str True (lit ''minor_version'') @ [58] @ dec_of_int (int PACK_MINOR_VERSION)
     @ [44] @ dumps_str True (lit ''pack_id'') @ [58] @ dumps_str True pack_id
     @ [44] @ dumps_str True (lit ''records'') @ [58]"

lemma footer_order:
  "dict_order True
     [(lit ''format'', a), (lit ''major_version'', b), (lit ''minor_version'', c), (lit ''pack_id'', d),
      (lit ''created_at_ns'', e), (lit ''records'', f)]
   = [(lit ''created_at_ns'', e), (lit ''format'', a), (lit ''major_version'', b), (lit ''minor_version'', c),
      (lit ''pack_id'', d), (lit ''records'', f)]"
  by (simp add: dict_order_def lit_def)

lemma dumps_footer:
  "dumps True True (footer_mapping pid c rs)
   = footer_head pid c @ [91] @ join [44] (map (dumps True True) rs) @ [93, 125]"
  unfolding footer_mapping_def dumps_dict footer_order
  by (simp add: footer_head_def)

lemma encode_footer:
  "encode_json (footer_mapping pid c rs)
   = ascii_bytes (footer_head pid c) @ [0x5B] @ join [0x2C] (map encode_json rs) @ [0x5D, 0x7D]"
  by (simp add: encode_json_def [abs_def] dumps_footer ascii_bytes_join comp_def)

lemma rsplit1_last: "rsplit1 [a, b] (p @ [a, b, c]) = Some (p, [c])" if "a \<noteq> b" "b \<noteq> c"
  using that by (induction p) auto

lemma rsplit1_footer:
  "rsplit1 (ascii_bytes (lit ''[]'')) (encode_json (footer_mapping pid c []))
   = Some (ascii_bytes (footer_head pid c), [0x7D])"
proof -
  have "rsplit1 [0x5B, 0x5D] (ascii_bytes (footer_head pid c) @ [0x5B, 0x5D, 0x7D])
        = Some (ascii_bytes (footer_head pid c), [0x7D])"
    by (rule rsplit1_last) simp_all
  then show ?thesis by (simp add: encode_footer) (simp add: ascii_bytes_def lit_def)
qed

lemma PackWriter_footer:
  assumes "PackWriter arg c mb mr = Inr w"
  shows "w_footer_prefix w = ascii_bytes (footer_head (w_pack_id w) (w_created_at_ns w))"
    "w_footer_suffix w = [0x7D]" "w_records w = []" "w_record_json w = []" "w_record_json_bytes w = 0"
    "w_capture_ids w = []" "\<not> w_sealed w" "w_pack_id w = uuid_str (w_uuid w)" "w_created_at_ns w = c"
    "w_max_pack_bytes w = mb" "w_max_records w = mr" "1 \<le> mr" "mr \<le> MAX_RECORDS"
    "header_pack (w_uuid w) c = Inr (w_buffer w)" "0 \<le> c" "c < 2 ^ 64"
  using assms
  by (auto simp: PackWriter_def rbind_eq_Inr rsplit1_footer split: option.splits if_splits)
    (auto simp: header_pack_def split: if_splits)

subsection \<open>Footer parsing inverts footer encoding\<close>

lemma loads_encode: "jval_ok v \<Longrightarrow> loads_bytes (encode_json v) = Inr (decoded True v)"
  unfolding encode_json_def by (rule loads_dumps_bytes)

lemma crc32_hex_pattern: "crc_pattern (crc32_hex p)"
  by (auto simp: crc_pattern_def crc32_hex_def list_all_iff dest: hex_fixed_lower)

text \<open>What the writer guarantees of an index entry and the reader demands of one.\<close>

definition indexed_ok :: "int \<Rightarrow> indexed_record \<Rightarrow> bool" where
  "indexed_ok footer_offset i \<longleftrightarrow>
     metadata_ok (ix_metadata i) \<and> HEADER_SIZE \<le> ix_offset i \<and> 0 \<le> ix_stored_length i
     \<and> ix_offset i + ix_stored_length i \<le> footer_offset \<and> ix_decoded_length i = ix_stored_length i
     \<and> ix_codec i = lit ''none'' \<and> crc_pattern (ix_checksum i)
     \<and> logical_bytes (ix_metadata i) = ix_stored_length i"

fun chain :: "int \<Rightarrow> indexed_record list \<Rightarrow> bool" where
  "chain p [] \<longleftrightarrow> True"
| "chain p (i # is) \<longleftrightarrow> p \<le> ix_offset i \<and> chain (ix_offset i + ix_stored_length i) is"

lemma record_keys_distinct:
  "distinct (map fst [(lit ''metadata'', a), (lit ''offset'', b), (lit ''stored_length'', c),
     (lit ''decoded_length'', d), (lit ''codec'', e), (lit ''checksum'', f)])"
  by simp

lemma parse_record_mapping:
  assumes "indexed_ok fo i"
  shows "parse_record (decoded True (record_mapping i)) fo = Inr i"
proof -
  define kvs where "kvs = [(lit ''metadata'', VDict (to_mapping (ix_metadata i))), (lit ''offset'', VInt (ix_offset i)),
      (lit ''stored_length'', VInt (ix_stored_length i)),
      (lit ''decoded_length'', VInt (ix_decoded_length i)), (lit ''codec'', VStr (ix_codec i)),
      (lit ''checksum'', VStr (ix_checksum i))]"
  have d: "distinct (map fst kvs)" by (simp add: kvs_def)
  have look: "map_of (decoded_dict_of kvs) (lit ''metadata'') = Some (PDict (decoded_dict_of (to_mapping (ix_metadata i))))"
    "map_of (decoded_dict_of kvs) (lit ''offset'') = Some (PInt (ix_offset i))"
    "map_of (decoded_dict_of kvs) (lit ''stored_length'') = Some (PInt (ix_stored_length i))"
    "map_of (decoded_dict_of kvs) (lit ''decoded_length'') = Some (PInt (ix_decoded_length i))"
    "map_of (decoded_dict_of kvs) (lit ''codec'') = Some (PStr (ix_codec i))"
    "map_of (decoded_dict_of kvs) (lit ''checksum'') = Some (PStr (ix_checksum i))"
    unfolding map_of_decoded_dict [OF d] by (simp_all add: kvs_def decoded_VDict del: decoded.simps(5))
  have e: "decoded True (record_mapping i) = PDict (decoded_dict_of kvs)"
    by (simp only: record_mapping_def kvs_def decoded_VDict)
  have fm: "from_mapping (decoded_dict_of (to_mapping (ix_metadata i))) = Inr (ix_metadata i)"
    using assms by (intro from_mapping_to_mapping) (simp add: indexed_ok_def)
  show ?thesis
    using assms unfolding e parse_record_def
    by (simp add: key_of_def look fm indexed_ok_def Let_def)
qed

lemma parse_loop_mapping:
  assumes "list_all (indexed_ok fo) is" "chain p is"
    "distinct (map (\<lambda>i. md_capture_id (ix_metadata i)) is)"
    "set (map (\<lambda>i. md_capture_id (ix_metadata i)) is) \<inter> set seen = {}"
  shows "parse_loop fo p seen (map (\<lambda>i. decoded True (record_mapping i)) is) = Inr is"
  using assms
  by (induction "is" arbitrary: p seen) (auto simp: parse_record_mapping)

lemma jval_ok_record:
  assumes "indexed_ok fo i" "fo < 2 ^ 64"
  shows "jval_ok (record_mapping i)"
proof -
  have "jval_ok (VDict (to_mapping (ix_metadata i)))"
    using assms by (intro jval_ok_to_mapping) (simp add: indexed_ok_def)
  moreover have "\<bar>ix_offset i\<bar> < 10 ^ int_digits_limit" "\<bar>ix_stored_length i\<bar> < 10 ^ int_digits_limit"
    by (rule int_limit; use assms in \<open>simp add: indexed_ok_def HEADER_SIZE_def\<close>)+
  moreover have "list_all scalar_value (ix_checksum i)"
    using assms
    by (auto simp: indexed_ok_def crc_pattern_def list_all_iff is_lower_hex_def scalar_value_def is_surrogate_def)
  ultimately show ?thesis
    using assms(1)
    by (simp add: record_mapping_def indexed_ok_def del: jval_ok.simps(5))
      (simp add: indexed_ok_def lit_def scalar_value_def is_surrogate_def)
qed

subsection \<open>The writer's invariant\<close>

text \<open>\<open>writer_inv rs w\<close>: \<open>w\<close> is an unsealed writer that accepted exactly the records \<open>rs\<close>, in order.
  Its index entries describe them, their payloads lie in the buffer at the recorded ranges, and the
  cached JSON fragments and byte count are those of the entries.\<close>

definition payload_at :: "bytes \<Rightarrow> capture_record \<Rightarrow> indexed_record \<Rightarrow> bool" where
  "payload_at buf r i \<longleftrightarrow> i = index_record r (ix_offset i) \<and> ix_offset i mod 64 = 0
     \<and> slice (ix_offset i) (ix_offset i + ix_stored_length i) buf = rec_payload r"

definition fits :: "pack_writer \<Rightarrow> bool" where
  "fits w \<longleftrightarrow> int (length (footer_bytes w)) \<le> MAX_FOOTER_BYTES
     \<and> aligned_length (int (length (w_buffer w))) + int (length (footer_bytes w)) + TRAILER_SIZE
       \<le> w_max_pack_bytes w"

definition writer_inv :: "capture_record list \<Rightarrow> pack_writer \<Rightarrow> bool" where
  "writer_inv rs w \<longleftrightarrow>
     \<not> w_sealed w \<and> w_uuid w < 2 ^ 128 \<and> w_pack_id w = uuid_str (w_uuid w)
     \<and> w_footer_prefix w = ascii_bytes (footer_head (w_pack_id w) (w_created_at_ns w))
     \<and> w_footer_suffix w = [0x7D]
     \<and> header_pack (w_uuid w) (w_created_at_ns w) = Inr (take 64 (w_buffer w)) \<and> 64 \<le> length (w_buffer w)
     \<and> w_record_json w = map (\<lambda>i. encode_json (record_mapping i)) (w_records w)
     \<and> w_record_json_bytes w = int (sum_list (map length (w_record_json w)))
     \<and> w_capture_ids w = rev (map (\<lambda>i. md_capture_id (ix_metadata i)) (w_records w))
     \<and> distinct (map (\<lambda>i. md_capture_id (ix_metadata i)) (w_records w))
     \<and> list_all2 (payload_at (w_buffer w)) rs (w_records w)
     \<and> list_all (indexed_ok (int (length (w_buffer w)))) (w_records w) \<and> chain HEADER_SIZE (w_records w)
     \<and> int (length (w_records w)) \<le> MAX_RECORDS \<and> w_max_records w \<le> MAX_RECORDS
     \<and> (w_records w \<noteq> [] \<longrightarrow> fits w)"

definition pack_id_arg_ok :: "pack_id_arg \<Rightarrow> bool" where
  "pack_id_arg_ok a \<longleftrightarrow> (case a of IdUUID u \<Rightarrow> u < 2 ^ 128 | IdStr _ \<Rightarrow> True)"

lemma writer_inv_init:
  assumes "PackWriter arg c mb mr = Inr w" "pack_id_arg_ok arg"
  shows "writer_inv [] w"
proof -
  have u: "w_uuid w < 2 ^ 128"
    using assms by (auto simp: PackWriter_def pack_id_arg_ok_def rbind_eq_Inr rsplit1_footer
        split: option.splits if_splits pack_id_arg.splits dest: uuid_parse_bound)
  have "length (w_buffer w) = 64" using PackWriter_footer(14) [OF assms(1)] by (rule length_header)
  with u show ?thesis
    using PackWriter_footer [OF assms(1)] by (simp add: writer_inv_def MAX_RECORDS_def)
qed

lemma chain_snoc:
  "chain p is \<Longrightarrow> p \<le> ix_offset i \<Longrightarrow> \<forall>j \<in> set is. ix_offset j + ix_stored_length j \<le> ix_offset i
   \<Longrightarrow> chain p (is @ [i])"
  by (induction "is" arbitrary: p) auto

lemma payload_at_append:
  assumes "payload_at buf r i" "indexed_ok (int (length buf)) i"
  shows "payload_at (buf @ ext) r i"
  using assms slice_append_left [of "ix_offset i" "ix_offset i + ix_stored_length i" buf ext]
  by (simp add: payload_at_def indexed_ok_def HEADER_SIZE_def)

lemma indexed_ok_mono: "indexed_ok n i \<Longrightarrow> n \<le> n' \<Longrightarrow> indexed_ok n' i"
  by (auto simp: indexed_ok_def)

lemma append_Inr:
  assumes "pack_append r w = Inr w'"
  shows "\<not> w_sealed w" "int (length (w_records w)) < w_max_records w"
    "md_capture_id (rec_metadata r) \<notin> set (w_capture_ids w)"
    "w' = w\<lparr>w_buffer := align (w_buffer w) @ rec_payload r,
             w_records := w_records w @ [index_record r (aligned_length (int (length (w_buffer w))))],
             w_record_json := w_record_json w
               @ [encode_json (record_mapping (index_record r (aligned_length (int (length (w_buffer w))))))],
             w_record_json_bytes := w_record_json_bytes w
               + int (length (encode_json (record_mapping (index_record r (aligned_length (int (length (w_buffer w)))))))),
             w_capture_ids := md_capture_id (rec_metadata r) # w_capture_ids w\<rparr>"
    "int (length (w_footer_prefix w)) + 2 + w_record_json_bytes w'
       + int (length (w_record_json w)) + int (length (w_footer_suffix w)) \<le> MAX_FOOTER_BYTES"
    "aligned_length (int (length (w_buffer w')))
       + (int (length (w_footer_prefix w)) + 2 + w_record_json_bytes w'
       + int (length (w_record_json w)) + int (length (w_footer_suffix w))) + TRAILER_SIZE
     \<le> w_max_pack_bytes w"
proof -
  note a = assms [unfolded pack_append_def Let_def, simplified]
  show "\<not> w_sealed w" "int (length (w_records w)) < w_max_records w"
    "md_capture_id (rec_metadata r) \<notin> set (w_capture_ids w)"
    using a by (auto split: if_splits)
  show w': "w' = w\<lparr>w_buffer := align (w_buffer w) @ rec_payload r,
             w_records := w_records w @ [index_record r (aligned_length (int (length (w_buffer w))))],
             w_record_json := w_record_json w
               @ [encode_json (record_mapping (index_record r (aligned_length (int (length (w_buffer w))))))],
             w_record_json_bytes := w_record_json_bytes w
               + int (length (encode_json (record_mapping (index_record r (aligned_length (int (length (w_buffer w)))))))),
             w_capture_ids := md_capture_id (rec_metadata r) # w_capture_ids w\<rparr>"
    using a by (auto split: if_splits)
  show "int (length (w_footer_prefix w)) + 2 + w_record_json_bytes w'
       + int (length (w_record_json w)) + int (length (w_footer_suffix w)) \<le> MAX_FOOTER_BYTES"
    "aligned_length (int (length (w_buffer w')))
       + (int (length (w_footer_prefix w)) + 2 + w_record_json_bytes w'
       + int (length (w_record_json w)) + int (length (w_footer_suffix w))) + TRAILER_SIZE
     \<le> w_max_pack_bytes w"
    using a length_align [of "w_buffer w"] by (auto split: if_splits)
qed

lemma length_footer_bytes:
  assumes "w_record_json w \<noteq> []" "w_record_json_bytes w = int (sum_list (map length (w_record_json w)))"
  shows "int (length (footer_bytes w)) = int (length (w_footer_prefix w)) + 2 + w_record_json_bytes w
       + (int (length (w_record_json w)) - 1) + int (length (w_footer_suffix w))"
proof -
  have "length (w_record_json w) \<ge> 1" using assms(1) by (cases "w_record_json w") auto
  then show ?thesis by (simp add: footer_bytes_def length_join assms(2) of_nat_diff)
qed

lemma writer_inv_append:
  assumes ap: "pack_append r w = Inr w'" and ok: "record_ok r" and inv: "writer_inv rs w"
  shows "writer_inv (rs @ [r]) w'"
proof -
  note A = append_Inr [OF ap]
  define off where "off = aligned_length (int (length (w_buffer w)))"
  define i where "i = index_record r off"
  obtain pad where pad: "align (w_buffer w) = w_buffer w @ pad" using align_prefix by blast
  have off: "int (length (w_buffer w)) \<le> off" "off mod 64 = 0" "int (length (align (w_buffer w))) = off"
    using aligned_length_le aligned_length_mod length_align by (auto simp: off_def)
  have buf: "w_buffer w' = w_buffer w @ pad @ rec_payload r" and recs: "w_records w' = w_records w @ [i]"
    by (simp_all add: A(4) pad i_def off_def)
  have len: "int (length (w_buffer w')) = off + int (length (rec_payload r))"
    using off(3) by (simp add: A(4))
  have h: "64 \<le> length (w_buffer w)" using inv by (simp add: writer_inv_def)
  have iok: "indexed_ok (int (length (w_buffer w'))) i"
    using ok off(1) h len
    by (simp add: indexed_ok_def i_def index_record_def record_ok_def HEADER_SIZE_def crc32_hex_pattern)
  have "slice off (off + int (length (rec_payload r))) (align (w_buffer w) @ rec_payload r) = rec_payload r"
    using slice_append_mid [of "align (w_buffer w)" "rec_payload r" "[]"] by (simp add: off(3))
  then have pay: "payload_at (w_buffer w') r i"
    using off(2) by (simp add: payload_at_def i_def index_record_def A(4))
  have old: "list_all (indexed_ok (int (length (w_buffer w)))) (w_records w)"
    "list_all2 (payload_at (w_buffer w)) rs (w_records w)" using inv by (simp_all add: writer_inv_def)
  have olds: "list_all (indexed_ok (int (length (w_buffer w')))) (w_records w)"
    using old(1) by (auto simp: list_all_iff buf intro: indexed_ok_mono)
  have "list_all2 (payload_at (w_buffer w')) rs (w_records w)"
    using old by (auto simp: list_all2_conv_all_nth list_all_iff buf intro: payload_at_append)
  then have pays: "list_all2 (payload_at (w_buffer w')) (rs @ [r]) (w_records w @ [i])"
    using pay by (intro list_all2_appendI) simp_all
  have ch: "chain HEADER_SIZE (w_records w @ [i])"
  proof (rule chain_snoc)
    show "chain HEADER_SIZE (w_records w)" using inv by (simp add: writer_inv_def)
    show "HEADER_SIZE \<le> ix_offset i" using iok by (simp add: indexed_ok_def)
    show "\<forall>j \<in> set (w_records w). ix_offset j + ix_stored_length j \<le> ix_offset i"
      using old(1) off(1) by (fastforce simp: list_all_iff indexed_ok_def i_def index_record_def)
  qed
  have js: "w_record_json_bytes w' = int (sum_list (map length (w_record_json w')))"
    using inv by (simp add: A(4) writer_inv_def)
  have "w_record_json w' \<noteq> []" by (simp add: A(4))
  from length_footer_bytes [OF this js] A(5,6) have fit: "fits w'"
    by (simp add: fits_def A(4))
  show ?thesis
    using inv A(1,2,3) iok olds pays ch js fit
    by (simp add: writer_inv_def recs buf) (simp add: A(4) i_def off_def index_record_def)
qed

lemma writer_inv_append_all:
  "append_all rs w = Inr w' \<Longrightarrow> list_all record_ok rs \<Longrightarrow> writer_inv qs w \<Longrightarrow> writer_inv (qs @ rs) w'"
proof (induction rs arbitrary: qs w)
  case (Cons r rs)
  then obtain w1 where "pack_append r w = Inr w1" "append_all rs w1 = Inr w'" by (auto simp: rbind_eq_Inr)
  with Cons writer_inv_append [of r w w1 qs] Cons.IH [of w1 "qs @ [r]"] show ?case by simp
qed simp

lemma append_all_keeps:
  "append_all rs w = Inr w' \<Longrightarrow>
   w_pack_id w' = w_pack_id w \<and> w_created_at_ns w' = w_created_at_ns w \<and> w_max_pack_bytes w' = w_max_pack_bytes w
   \<and> w_uuid w' = w_uuid w \<and> length (w_records w') = length (w_records w) + length rs"
proof (induction rs arbitrary: w)
  case (Cons r rs)
  then obtain w1 where w1: "pack_append r w = Inr w1" "append_all rs w1 = Inr w'" by (auto simp: rbind_eq_Inr)
  from Cons.IH [OF w1(2)] append_Inr(4) [OF w1(1)] show ?case by simp
qed simp

subsection \<open>Sealing\<close>

lemma footer_bytes_encode:
  assumes "writer_inv rs w"
  shows "footer_bytes w
    = encode_json (footer_mapping (w_pack_id w) (w_created_at_ns w) (map record_mapping (w_records w)))"
  using assms by (simp add: footer_bytes_def encode_footer writer_inv_def comp_def)

lemma seal_succeeds:
  assumes inv: "writer_inv rs w" and ne: "rs \<noteq> []" and mb: "w_max_pack_bytes w < 2 ^ 64"
  obtains trailer where
    "trailer_pack (aligned_length (int (length (w_buffer w)))) (int (length (footer_bytes w)))
       (crc32 (footer_bytes w)) (sha256 (align (w_buffer w) @ footer_bytes w)) = Inr trailer"
    "seal w = Inr (\<lparr>sp_pack_id = w_pack_id w, sp_created_at_ns = w_created_at_ns w,
        sp_data = align (w_buffer w) @ footer_bytes w @ trailer,
        sp_record_count = int (length rs), sp_footer_offset = aligned_length (int (length (w_buffer w))),
        sp_checksum = hexdigest (align (w_buffer w) @ footer_bytes w @ trailer)\<rparr>,
      w\<lparr>w_buffer := align (w_buffer w) @ footer_bytes w @ trailer, w_sealed := True\<rparr>)"
proof -
  have len: "length rs = length (w_records w)" using inv by (auto simp: writer_inv_def dest: list_all2_lengthD)
  then have fit: "fits w" using inv ne by (auto simp: writer_inv_def)
  have al: "0 \<le> aligned_length (int (length (w_buffer w)))"
    using aligned_length_le [of "int (length (w_buffer w))"] by simp
  obtain trailer where t: "trailer_pack (aligned_length (int (length (w_buffer w)))) (int (length (footer_bytes w)))
       (crc32 (footer_bytes w)) (sha256 (align (w_buffer w) @ footer_bytes w)) = Inr trailer"
    using fit mb al by (auto simp: trailer_pack_def fits_def TRAILER_SIZE_def)
  moreover have "seal w = Inr (\<lparr>sp_pack_id = w_pack_id w, sp_created_at_ns = w_created_at_ns w,
        sp_data = align (w_buffer w) @ footer_bytes w @ trailer,
        sp_record_count = int (length rs), sp_footer_offset = aligned_length (int (length (w_buffer w))),
        sp_checksum = hexdigest (align (w_buffer w) @ footer_bytes w @ trailer)\<rparr>,
      w\<lparr>w_buffer := align (w_buffer w) @ footer_bytes w @ trailer, w_sealed := True\<rparr>)"
    using fit inv ne len by (auto simp: seal_def Let_def t fits_def writer_inv_def)
  ultimately show ?thesis by (rule that)
qed

subsection \<open>Reading back\<close>

lemma jval_ok_footer:
  assumes "list_all (indexed_ok n) is" "n < 2 ^ 64" "0 \<le> c" "c < 2 ^ 64" "pid = uuid_str u"
  shows "jval_ok (footer_mapping pid c (map record_mapping is))"
proof -
  have "list_all jval_ok (map record_mapping is)"
    using assms jval_ok_record by (auto simp: list_all_iff)
  moreover have "\<bar>c\<bar> < 10 ^ int_digits_limit" by (rule int_limit) (use assms in simp)
  moreover have "\<bar>int PACK_MAJOR_VERSION\<bar> < 10 ^ int_digits_limit" "\<bar>int PACK_MINOR_VERSION\<bar> < 10 ^ int_digits_limit"
    by (rule int_limit, simp add: PACK_MAJOR_VERSION_def PACK_MINOR_VERSION_def)+
  ultimately show ?thesis
    using uuid_str_scalar [of u] assms(5)
    by (simp add: footer_mapping_def) (simp add: lit_def scalar_value_def is_surrogate_def)
qed

lemma decode_footer_mapping:
  assumes "jval_ok (footer_mapping pid c vs)"
  obtains d where "decode_footer (encode_json (footer_mapping pid c vs)) 1 0 = Inr d"
    "map_of d (lit ''pack_id'') = Some (PStr pid)" "map_of d (lit ''created_at_ns'') = Some (PInt c)"
    "map_of d (lit ''records'') = Some (PList (map (decoded True) vs))"
proof -
  define kvs where "kvs = [(lit ''format'', VStr (lit ''dmi-pack'')), (lit ''major_version'', VInt (int PACK_MAJOR_VERSION)),
      (lit ''minor_version'', VInt (int PACK_MINOR_VERSION)), (lit ''pack_id'', VStr pid),
      (lit ''created_at_ns'', VInt c), (lit ''records'', VList vs)]"
  have d: "distinct (map fst kvs)" by (simp add: kvs_def)
  have look: "map_of (decoded_dict_of kvs) (lit ''format'') = Some (PStr (lit ''dmi-pack''))"
    "map_of (decoded_dict_of kvs) (lit ''major_version'') = Some (PInt 1)"
    "map_of (decoded_dict_of kvs) (lit ''minor_version'') = Some (PInt 0)"
    "map_of (decoded_dict_of kvs) (lit ''pack_id'') = Some (PStr pid)"
    "map_of (decoded_dict_of kvs) (lit ''created_at_ns'') = Some (PInt c)"
    "map_of (decoded_dict_of kvs) (lit ''records'') = Some (PList (map (decoded True) vs))"
    unfolding map_of_decoded_dict [OF d]
    by (simp_all add: kvs_def PACK_MAJOR_VERSION_def PACK_MINOR_VERSION_def)
  have "loads_bytes (encode_json (footer_mapping pid c vs)) = Inr (PDict (decoded_dict_of kvs))"
    unfolding loads_encode [OF assms] by (simp only: footer_mapping_def kvs_def decoded_VDict)
  then have "decode_footer (encode_json (footer_mapping pid c vs)) 1 0 = Inr (decoded_dict_of kvs)"
    by (simp add: decode_footer_def look get_eq_int_def)
  then show ?thesis using look(4-6) by (rule that)
qed

lemma parse_records_footer:
  assumes "map_of d (lit ''records'') = Some (PList (map (decoded True) (map record_mapping is)))"
    "list_all (indexed_ok fo) is" "chain HEADER_SIZE is"
    "distinct (map (\<lambda>i. md_capture_id (ix_metadata i)) is)" "int (length is) \<le> MAX_RECORDS"
  shows "parse_records d fo = Inr is"
  using assms parse_loop_mapping [of fo "is" HEADER_SIZE "[]"]
  by (simp add: parse_records_def comp_def)

text \<open>The sealed bytes, split the way both readers split them.\<close>

lemma sealed_layout:
  assumes inv: "writer_inv rs w" and ne: "rs \<noteq> []" and mb: "w_max_pack_bytes w < 2 ^ 64"
    and t: "trailer_pack (aligned_length (int (length (w_buffer w)))) (int (length (footer_bytes w)))
       (crc32 (footer_bytes w)) (sha256 (align (w_buffer w) @ footer_bytes w)) = Inr trailer"
  defines "data \<equiv> align (w_buffer w) @ footer_bytes w @ trailer"
    and "fo \<equiv> aligned_length (int (length (w_buffer w)))" and "fl \<equiv> int (length (footer_bytes w))"
  shows "int (length data) = fo + fl + TRAILER_SIZE" "HEADER_SIZE \<le> fo" "2 \<le> fl" "fl \<le> MAX_FOOTER_BYTES"
    "int (length data) \<le> w_max_pack_bytes w"
    "header_unpack data = Inr
     \<lparr>hf_magic = HEADER_MAGIC, hf_major = PACK_MAJOR_VERSION, hf_minor = PACK_MINOR_VERSION,
      hf_size = nat HEADER_SIZE, hf_uuid_bytes = uuid_bytes (w_uuid w), hf_created = nat (w_created_at_ns w),
      hf_flags = 0, hf_reserved = replicate 20 0\<rparr>"
    "drop (nat (fo + fl)) data = trailer"
    "take (nat (fo + fl)) data = align (w_buffer w) @ footer_bytes w"
    "slice fo (fo + fl) data = footer_bytes w" "slice (fo + fl) (fo + fl + TRAILER_SIZE) data = trailer"
proof -
  have lt: "length trailer = 64" using t by (rule length_trailer [rotated]) simp
  have la: "int (length (align (w_buffer w))) = fo" by (simp add: fo_def length_align)
  have lf: "int (length (align (w_buffer w) @ footer_bytes w)) = fo + fl" by (simp add: fl_def la)
  show len: "int (length data) = fo + fl + TRAILER_SIZE" by (simp add: data_def lt la fl_def TRAILER_SIZE_def)
  have b64: "64 \<le> length (w_buffer w)" using inv by (simp add: writer_inv_def)
  show "HEADER_SIZE \<le> fo" using b64 aligned_length_le [of "int (length (w_buffer w))"] by (simp add: fo_def HEADER_SIZE_def)
  show "2 \<le> fl" by (simp add: fl_def footer_bytes_def)
  have "w_records w \<noteq> []" using inv ne by (auto simp: writer_inv_def)
  then have "fits w" using inv by (simp add: writer_inv_def)
  then show "fl \<le> MAX_FOOTER_BYTES" "int (length data) \<le> w_max_pack_bytes w"
    by (simp_all add: fits_def fl_def fo_def len)
  obtain pad where pad: "align (w_buffer w) = w_buffer w @ pad" using align_prefix by blast
  then have "data = take 64 (w_buffer w) @ (drop 64 (w_buffer w) @ pad @ footer_bytes w @ trailer)"
    by (simp add: data_def)
  then show "header_unpack data = Inr
     \<lparr>hf_magic = HEADER_MAGIC, hf_major = PACK_MAJOR_VERSION, hf_minor = PACK_MINOR_VERSION,
      hf_size = nat HEADER_SIZE, hf_uuid_bytes = uuid_bytes (w_uuid w), hf_created = nat (w_created_at_ns w),
      hf_flags = 0, hf_reserved = replicate 20 0\<rparr>"
    using header_roundtrip [of "w_uuid w" "w_created_at_ns w"] inv by (simp add: writer_inv_def)
  have d2: "data = (align (w_buffer w) @ footer_bytes w) @ trailer" by (simp add: data_def)
  show "drop (nat (fo + fl)) data = trailer" "take (nat (fo + fl)) data = align (w_buffer w) @ footer_bytes w"
    unfolding d2 lf [symmetric] by simp_all
  show "slice fo (fo + fl) data = footer_bytes w"
    using slice_append_mid [of "align (w_buffer w)" "footer_bytes w" trailer] by (simp add: data_def la fl_def)
  show "slice (fo + fl) (fo + fl + TRAILER_SIZE) data = trailer"
    using slice_append_mid [of "align (w_buffer w) @ footer_bytes w" trailer "[]"]
    by (simp only: lf d2 lt append_Nil2 TRAILER_SIZE_def of_nat_numeral)
qed

lemma from_bytes_sealed:
  assumes inv: "writer_inv rs w" and ne: "rs \<noteq> []" and mb: "w_max_pack_bytes w < 2 ^ 64"
    and t: "trailer_pack (aligned_length (int (length (w_buffer w)))) (int (length (footer_bytes w)))
       (crc32 (footer_bytes w)) (sha256 (align (w_buffer w) @ footer_bytes w)) = Inr trailer"
  defines "data \<equiv> align (w_buffer w) @ footer_bytes w @ trailer"
  shows "from_bytes data = Inr \<lparr>rd_data = data, rd_pack_id = w_pack_id w,
     rd_created_at_ns = w_created_at_ns w, rd_records = w_records w, rd_object_checksum = hexdigest data\<rparr>"
proof -
  let ?fo = "aligned_length (int (length (w_buffer w)))" and ?fl = "int (length (footer_bytes w))"
  note L = sealed_layout [OF inv ne mb t, folded data_def]
  have hp: "header_pack (w_uuid w) (w_created_at_ns w) = Inr (take 64 (w_buffer w))"
    and u: "w_uuid w < 2 ^ 128" "w_pack_id w = uuid_str (w_uuid w)"
    and oks: "list_all (indexed_ok (int (length (w_buffer w)))) (w_records w)"
    and rest: "chain HEADER_SIZE (w_records w)" "distinct (map (\<lambda>i. md_capture_id (ix_metadata i)) (w_records w))"
      "int (length (w_records w)) \<le> MAX_RECORDS"
    using inv by (simp_all add: writer_inv_def)
  have c: "0 \<le> w_created_at_ns w" "w_created_at_ns w < 2 ^ 64" using hp by (auto simp: header_pack_def split: if_splits)
  have oks': "list_all (indexed_ok ?fo) (w_records w)"
    using oks aligned_length_le by (auto simp: list_all_iff intro: indexed_ok_mono)
  have "?fo < 2 ^ 64" using L(1,3,5) mb by (simp add: TRAILER_SIZE_def)
  from jval_ok_footer [OF oks' this c u(2)]
  obtain d where d: "decode_footer (footer_bytes w) 1 0 = Inr d" "map_of d (lit ''pack_id'') = Some (PStr (w_pack_id w))"
    "map_of d (lit ''created_at_ns'') = Some (PInt (w_created_at_ns w))"
    "map_of d (lit ''records'') = Some (PList (map (decoded True) (map record_mapping (w_records w))))"
    unfolding footer_bytes_encode [OF inv] by (rule decode_footer_mapping)
  note pr = parse_records_footer [OF d(4) oks' rest]
  have to: "int (length data) - TRAILER_SIZE = ?fo + ?fl" using L(1) by simp
  have tu: "trailer_unpack trailer = Inr \<lparr>tf_magic = TRAILER_MAGIC, tf_major = PACK_MAJOR_VERSION, tf_minor = PACK_MINOR_VERSION,
      tf_footer_offset = nat ?fo, tf_footer_length = nat ?fl, tf_footer_crc = unat (crc32 (footer_bytes w)),
      tf_body_hash = sha256 (align (w_buffer w) @ footer_bytes w)\<rparr>"
    using t by (rule trailer_roundtrip) simp
  have fo0: "int (nat ?fo) = ?fo" using L(2) by (simp add: HEADER_SIZE_def)
  have nt: "\<not> int (length data) < HEADER_SIZE + TRAILER_SIZE + 2" using L(1-3) by simp
  show ?thesis
    unfolding from_bytes_def Let_def to if_not_P [OF nt] L(6,7,8) tu
    using L(2,4) d(1,2,3) c u pr
    by (simp add: L(9) fo0 get_eq_int_def PACK_MAJOR_VERSION_def PACK_MINOR_VERSION_def HEADER_SIZE_def)
qed

lemma by_capture_id_nth:
  assumes "distinct (map (\<lambda>i. md_capture_id (ix_metadata i)) (rd_records rd))" "i \<in> set (rd_records rd)"
  shows "by_capture_id rd (md_capture_id (ix_metadata i)) = Some i"
proof -
  have "distinct (map fst (rev (map (\<lambda>i. (md_capture_id (ix_metadata i), i)) (rd_records rd))))"
    using assms(1) by (simp add: rev_map comp_def flip: rev_map)
  then show ?thesis unfolding by_capture_id_def by (rule map_of_is_SomeI) (use assms(2) in auto)
qed

lemma read_payload_indexed:
  assumes "distinct (map (\<lambda>i. md_capture_id (ix_metadata i)) (rd_records rd))" "i \<in> set (rd_records rd)"
    and "indexed_ok fo i" "payload_at (rd_data rd) r i" "ref_pack_id ref = rd_pack_id rd"
  shows "read_payload rd (descriptor_of ref i) = Inr (rec_payload r)"
proof -
  have p: "slice (ix_offset i) (ix_offset i + ix_stored_length i) (rd_data rd) = rec_payload r"
    and i: "i = index_record r (ix_offset i)" using assms(4) by (simp_all add: payload_at_def)
  have f: "ix_stored_length i = int (length (rec_payload r))" "ix_decoded_length i = int (length (rec_payload r))"
    "ix_codec i = lit ''none''" "ix_checksum i = crc32_hex (rec_payload r)"
    by (subst i, simp add: index_record_def)+
  show ?thesis
    using by_capture_id_nth [OF assms(1,2)] assms(5) p f
    by (simp add: read_payload_def desc_capture_id_def descriptor_of_def verify_payload_def Let_def)
qed

subsection \<open>What an accepted footer guarantees\<close>

lemma parse_record_ok:
  assumes "parse_record raw fo = Inr i"
  shows "indexed_ok fo i"
proof -
  obtain d where raw: "raw = PDict d" using assms by (cases raw) (auto simp: parse_record_def)
  obtain m' o' s' d' c' crc' where k: "key_of d ''metadata'' = Inr m'" "key_of d ''offset'' = Inr o'"
    "key_of d ''stored_length'' = Inr s'" "key_of d ''decoded_length'' = Inr d'" "key_of d ''codec'' = Inr c'"
    "key_of d ''checksum'' = Inr crc'"
    using assms by (auto simp: parse_record_def raw rbind_eq_Inr)
  obtain md where md: "m' = PDict md" using assms by (cases m') (auto simp: parse_record_def raw k)
  obtain crc where "crc' = PStr crc"
    using assms by (cases crc') (auto simp: parse_record_def raw k md Let_def split: if_splits)
  then show ?thesis
    using assms
    by (auto simp: parse_record_def raw k md rbind_eq_Inr Let_def indexed_ok_def from_mapping_ok split: if_splits)
qed

lemma parse_loop_ok:
  "parse_loop fo p seen raws = Inr is \<Longrightarrow>
   list_all (indexed_ok fo) is \<and> chain p is \<and> distinct (map (\<lambda>i. md_capture_id (ix_metadata i)) is)
   \<and> set (map (\<lambda>i. md_capture_id (ix_metadata i)) is) \<inter> set seen = {}"
proof (induction raws arbitrary: p seen "is")
  case (Cons raw raws)
  then obtain i js where i: "parse_record raw fo = Inr i" "md_capture_id (ix_metadata i) \<notin> set seen" "p \<le> ix_offset i"
    "parse_loop fo (ix_offset i + ix_stored_length i) (md_capture_id (ix_metadata i) # seen) raws = Inr js" "is = i # js"
    by (auto simp: rbind_eq_Inr split: if_splits)
  from Cons.IH [OF i(4)] i parse_record_ok [OF i(1)] show ?case by auto
qed simp

lemma parse_records_ok:
  assumes "parse_records d fo = Inr is"
  shows "list_all (indexed_ok fo) is" "chain HEADER_SIZE is"
    "distinct (map (\<lambda>i. md_capture_id (ix_metadata i)) is)"
  using assms parse_loop_ok [of fo HEADER_SIZE "[]"]
  by (auto simp: parse_records_def split: option.splits pyval.splits if_splits)

lemma from_bytes_Inr:
  assumes "from_bytes data = Inr rd"
  obtains t d where "trailer_unpack (drop (nat (int (length data) - TRAILER_SIZE)) data) = Inr t"
    "int (length data) \<ge> HEADER_SIZE + TRAILER_SIZE + 2"
    "HEADER_SIZE \<le> int (tf_footer_offset t)"
    "int (tf_footer_offset t) + int (tf_footer_length t) = int (length data) - TRAILER_SIZE"
    "sha256 (take (nat (int (length data) - TRAILER_SIZE)) data) = tf_body_hash t"
    "parse_records d (int (tf_footer_offset t)) = Inr (rd_records rd)"
    "rd_data rd = data" "rd_object_checksum rd = hexdigest data"
proof -
  obtain h t where ht: "header_unpack data = Inr h"
    "trailer_unpack (drop (nat (int (length data) - TRAILER_SIZE)) data) = Inr t"
    using assms by (auto simp: from_bytes_def Let_def split: if_splits sum.splits)
  from assms that [OF ht(2)] show ?thesis
    by (auto simp: from_bytes_def Let_def ht rbind_eq_Inr split: if_splits)
qed

subsection \<open>Object-key segments\<close>

lemma upper_hex_digit_inj: "a < 16 \<Longrightarrow> b < 16 \<Longrightarrow> upper_hex_digit a = upper_hex_digit b \<Longrightarrow> a = b"
  by (auto simp: upper_hex_digit_def split: if_splits)

lemma quote_byte_head:
  assumes "quote_byte a @ s = quote_byte b @ t"
  shows "a = b \<and> s = t"
proof -
  have lt: "unat x div 16 < 16" for x :: byte using unsigned_less [of x, where ?'a = nat] by (simp add: less_mult_imp_div_less)
  have eq: "unat a = unat b" if "unat a div 16 = unat b div 16" "unat a mod 16 = unat b mod 16"
    using that by (metis div_mult_mod_eq)
  have sf: "\<not> quote_safe 37" by (simp add: quote_safe_def)
  show ?thesis
  proof (cases "quote_safe (unat a)"; cases "quote_safe (unat b)")
    assume "\<not> quote_safe (unat a)" "\<not> quote_safe (unat b)"
    with assms lt [of a] lt [of b] have "unat a div 16 = unat b div 16" "unat a mod 16 = unat b mod 16" "s = t"
      by (auto simp: quote_byte_def intro: upper_hex_digit_inj)
    with eq show ?thesis by (simp add: unsigned_word_eqI)
  qed (use assms sf in \<open>auto simp: quote_byte_def unsigned_word_eqI\<close>)
qed

lemma quote_bytes_inj: "concat (map quote_byte bs) = concat (map quote_byte cs) \<Longrightarrow> bs = cs"
proof (induction bs arbitrary: cs)
  case Nil
  then show ?case by (cases cs) (auto simp: quote_byte_def split: if_splits)
next
  case (Cons b bs)
  have "quote_byte b \<noteq> []" by (simp add: quote_byte_def)
  then obtain c cs' where cs: "cs = c # cs'" using Cons.prems by (cases cs) auto
  from quote_byte_head [of b "concat (map quote_byte bs)" c] Cons.prems cs Cons.IH show ?case by simp
qed

lemma utf8_encode_inj: "utf8_encode s = Some b \<Longrightarrow> utf8_encode t = Some b \<Longrightarrow> s = t"
  by (metis option.inject utf8_roundtrip)

lemma quote_inj: "quote s = Inr q \<Longrightarrow> quote t = Inr q \<Longrightarrow> s = t"
  by (auto simp: quote_def split: option.splits intro: utf8_encode_inj dest!: quote_bytes_inj [of _ _, OF trans [OF _ sym]])

text \<open>A quoted text without a percent sign is the text itself.\<close>

lemma quote_plain:
  assumes "quote t = Inr q" "37 \<notin> set q"
  shows "t = q"
proof -
  obtain b where b: "utf8_encode t = Some b" "q = concat (map quote_byte b)"
    using assms(1) by (auto simp: quote_def split: option.splits)
  have safe: "quote_safe (unat x)" if "x \<in> set b" for x
    using assms(2) that by (auto simp: b(2) quote_byte_def split: if_splits)
  then have "map quote_byte b = map (\<lambda>x. [unat x]) b" by (simp add: quote_byte_def)
  then have q: "q = map unat b" by (simp add: b(2)) (induction b; simp)
  have "is_ascii q" using safe by (fastforce simp: q list_all_iff quote_safe_def)
  then have "utf8_encode q = Some (ascii_bytes q)" by (rule utf8_encode_ascii)
  moreover have "ascii_bytes q = b" by (simp add: q ascii_bytes_def comp_def)
  ultimately show ?thesis using b(1) utf8_encode_inj by simp
qed

lemma digest_prefix_length: "length DIGEST_PREFIX = 7"
  by (simp add: DIGEST_PREFIX_def)

lemma digest_form: "digest_shape (DIGEST_PREFIX @ hexdigest m)"
  using hex_of_bytes_lower [of _ "sha256 m"]
  by (auto simp: digest_shape_def startswith_def DIGEST_PREFIX_def hexdigest_def list_all_iff)

lemma digest_shape_chars: "digest_shape s \<Longrightarrow> 37 \<notin> set s"
proof
  assume h: "digest_shape s" "37 \<in> set s"
  have "s = DIGEST_PREFIX @ drop 7 s"
    using h(1) append_take_drop_id [of "length DIGEST_PREFIX" s] digest_prefix_length
    by (simp add: digest_shape_def startswith_def)
  then have "37 \<in> set DIGEST_PREFIX \<or> 37 \<in> set (drop 7 s)" using h(2) by (metis Un_iff set_append)
  with h(1) show False by (auto simp: digest_shape_def DIGEST_PREFIX_def lit_def list_all_iff is_lower_hex_def)
qed

lemma quote_digest_shape: "quote t = Inr q \<Longrightarrow> digest_shape q \<Longrightarrow> t = q"
  by (rule quote_plain) (auto dest: digest_shape_chars)

lemma key_component_cases:
  assumes "key_component v = Inr k"
  obtains (plain) "quote v = Inr k" "\<not> startswith DIGEST_PREFIX k"
    | (digest) b where "utf8_encode v = Some b" "k = DIGEST_PREFIX @ hexdigest b"
proof -
  obtain q where q: "quote v = Inr q" using assms by (auto simp: key_component_def rbind_eq_Inr)
  then obtain b where "utf8_encode v = Some b" by (auto simp: quote_def split: option.splits)
  with assms q that show ?thesis by (auto simp: key_component_def split: if_splits)
qed

lemma startswith_digest: "startswith DIGEST_PREFIX (DIGEST_PREFIX @ s)"
  by (simp add: startswith_def)

lemma hexdigest_inj_prefix: "DIGEST_PREFIX @ hexdigest a = DIGEST_PREFIX @ hexdigest b \<Longrightarrow> hexdigest a = hexdigest b"
  by simp

lemma key_component_collision:
  assumes "key_component a = Inr k" "key_component b = Inr k"
  shows "a = b \<or> (\<exists>x y. utf8_encode a = Some x \<and> utf8_encode b = Some y \<and> hexdigest x = hexdigest y)"
  using assms(1)
proof (cases rule: key_component_cases)
  case plain
  with assms(2) show ?thesis
    by (cases rule: key_component_cases) (auto simp: startswith_digest dest: quote_inj)
next
  case (digest x)
  with assms(2) show ?thesis
    by (cases rule: key_component_cases) (auto simp: startswith_digest)
qed

text \<open>The two ways a key segment can belong to a tenant.\<close>

lemma segment_belongs_cases:
  assumes "segment_belongs_to seg t = Inr True"
  obtains (current) "key_component t = Inr seg"
    | (legacy) "quote t = Inr seg" "startswith DIGEST_PREFIX t" "\<not> digest_shape t"
  using assms by (auto simp: segment_belongs_to_def rbind_eq_Inr split: if_splits)

subsection \<open>Sealed packs read back\<close>

lemma inv_sealed_readable:
  assumes inv: "writer_inv rs w" and ne: "rs \<noteq> []" and mb: "w_max_pack_bytes w < 2 ^ 64"
  shows "\<exists>sp w' rd. seal w = Inr (sp, w') \<and> from_bytes (sp_data sp) = Inr rd
    \<and> sp_pack_id sp = w_pack_id w \<and> rd_pack_id rd = sp_pack_id sp \<and> rd_created_at_ns rd = w_created_at_ns w
    \<and> rd_object_checksum rd = sp_checksum sp
    \<and> sp_record_count sp = int (length rs) \<and> int (length (sp_data sp)) \<le> w_max_pack_bytes w
    \<and> map ix_metadata (rd_records rd) = map rec_metadata rs
    \<and> list_all2 (\<lambda>r i. read_payload rd (descriptor_of (reader_ref rd store_id key) i) = Inr (rec_payload r))
        rs (rd_records rd)"
proof -
  obtain trailer where t: "trailer_pack (aligned_length (int (length (w_buffer w)))) (int (length (footer_bytes w)))
       (crc32 (footer_bytes w)) (sha256 (align (w_buffer w) @ footer_bytes w)) = Inr trailer"
    and s: "seal w = Inr (\<lparr>sp_pack_id = w_pack_id w, sp_created_at_ns = w_created_at_ns w,
        sp_data = align (w_buffer w) @ footer_bytes w @ trailer,
        sp_record_count = int (length rs), sp_footer_offset = aligned_length (int (length (w_buffer w))),
        sp_checksum = hexdigest (align (w_buffer w) @ footer_bytes w @ trailer)\<rparr>,
      w\<lparr>w_buffer := align (w_buffer w) @ footer_bytes w @ trailer, w_sealed := True\<rparr>)"
    using seal_succeeds [OF inv ne mb] by blast
  note fb = from_bytes_sealed [OF inv ne mb t]
  have pays: "list_all2 (payload_at (w_buffer w)) rs (w_records w)"
    "list_all (indexed_ok (int (length (w_buffer w)))) (w_records w)"
    "distinct (map (\<lambda>i. md_capture_id (ix_metadata i)) (w_records w))" using inv by (simp_all add: writer_inv_def)
  obtain pad where pad: "align (w_buffer w) = w_buffer w @ pad" using align_prefix by blast
  have meta: "map ix_metadata (w_records w) = map rec_metadata rs"
    using pays(1) by (auto simp: list_all2_conv_all_nth payload_at_def index_record_def intro!: nth_equalityI)
      (metis indexed_record.select_convs(1))
  have read: "list_all2 (\<lambda>r i. read_payload rd (descriptor_of (reader_ref rd store_id key) i) = Inr (rec_payload r)) rs (w_records w)"
    if "rd_records rd = w_records w" "rd_data rd = align (w_buffer w) @ footer_bytes w @ trailer" for rd
    using pays that
    by (auto simp: list_all2_conv_all_nth list_all_iff pad reader_ref_def intro!: read_payload_indexed payload_at_append)
  show ?thesis
    using sealed_layout(5) [OF inv ne mb t] meta read by (simp add: s fb)
qed

lemma sealed_readable:
  assumes "PackWriter arg created max_bytes max_recs = Inr w0" "pack_id_arg_ok arg" "max_bytes < 2 ^ 64"
    and "list_all record_ok rs" "rs \<noteq> []" "append_all rs w0 = Inr w"
  shows "\<exists>sp w' rd. seal w = Inr (sp, w') \<and> from_bytes (sp_data sp) = Inr rd
    \<and> rd_pack_id rd = sp_pack_id sp \<and> rd_created_at_ns rd = created \<and> rd_object_checksum rd = sp_checksum sp
    \<and> sp_record_count sp = int (length rs) \<and> int (length (sp_data sp)) \<le> max_bytes
    \<and> map ix_metadata (rd_records rd) = map rec_metadata rs
    \<and> list_all2 (\<lambda>r i. read_payload rd (descriptor_of (reader_ref rd store_id key) i) = Inr (rec_payload r))
        rs (rd_records rd)"
proof -
  have inv: "writer_inv rs w"
    using writer_inv_append_all [OF assms(6,4) writer_inv_init [OF assms(1,2)]] by simp
  have keep: "w_created_at_ns w = created" "w_max_pack_bytes w = max_bytes"
    using append_all_keeps [OF assms(6)] PackWriter_footer [OF assms(1)] by simp_all
  then have "w_max_pack_bytes w < 2 ^ 64" using assms(3) by simp
  from inv_sealed_readable [OF inv assms(5) this, of store_id key] keep show ?thesis by auto
qed

section \<open>A concrete pack\<close>

definition demo_metadata :: capture_metadata where
  "demo_metadata =
     \<lparr>md_capture_id = lit ''c0'', md_tenant_id = lit ''t'', md_experiment_id = lit ''e'', md_run_id = lit ''r'',
      md_session_id = lit ''s'', md_request_id = lit ''q'', md_sequence_id = lit ''0'', md_model_id = lit ''m'',
      md_model_revision = lit ''v1'', md_adapter_revision = None, md_capture_policy_version = lit ''p'',
      md_hook_name = lit ''h'', md_layer_number = - 1, md_producer_rank = 0, md_step_number = 3,
      md_token_start = 0, md_token_end = 1, md_batch_position = 0, md_dtype = lit ''uint8'', md_shape = [2],
      md_captured_at_ns = 7\<rparr>"

definition demo_record :: capture_record where
  "demo_record = \<lparr>rec_metadata = demo_metadata, rec_payload = [7, 9]\<rparr>"

lemma utf8_lit: "\<forall>c \<in> set s. of_char c < (128::nat) \<Longrightarrow> utf8_encode (lit s) = Some (ascii_bytes (lit s))"
  by (rule utf8_encode_ascii) (auto simp: lit_def list_all_iff)

lemma demo_metadata_ok: "metadata_ok demo_metadata"
  by (simp add: metadata_ok_def demo_metadata_def text_ok_def utf8_lit TEXT_LIMIT_def MAX_RANK_def DTYPE_BYTES_def)

lemma demo_record_ok: "record_ok demo_record"
  using demo_metadata_ok
  by (simp add: record_ok_def demo_record_def) (simp add: demo_metadata_def logical_bytes_def dtype_bytes_def DTYPE_BYTES_def)

definition demo_writer :: pack_writer where
  "demo_writer = (case PackWriter (IdUUID 5) 7 4096 10 of Inr w \<Rightarrow> w | Inl _ \<Rightarrow> undefined)"

lemma demo_writer: "PackWriter (IdUUID 5) 7 4096 10 = Inr demo_writer"
  by (simp add: demo_writer_def PackWriter_def HEADER_SIZE_def TRAILER_SIZE_def MAX_RECORDS_def header_pack_def rsplit1_footer)

lemma length_encode_json: "length (encode_json v) = length (dumps True True v)"
  by (simp add: encode_json_def)

lemma length_dumps_str_plain:
  "\<forall>c \<in> set s. escape_char True c = [c] \<Longrightarrow> length (dumps_str True s) = length s + 2"
  by (induction s) (auto simp: dumps_str_def)

lemma hex_plain: "is_lower_hex c \<or> c = 45 \<Longrightarrow> escape_char True c = [c]"
  by (auto simp: is_lower_hex_def escape_char_def)

lemma length_uuid_str [simp]: "length (uuid_str u) = 36"
  by (simp add: uuid_str_def Let_def)

lemma length_dumps_uuid: "length (dumps_str True (uuid_str u)) = 38"
  by (subst length_dumps_str_plain) (auto dest!: uuid_str_chars simp: hex_plain)

lemma length_dumps_crc: "length (dumps_str True (crc32_hex p)) = 10"
  by (subst length_dumps_str_plain) (auto dest!: hex_fixed_lower simp: hex_plain crc32_hex_def)

lemma demo_metadata_dumps: "length (dumps True True (VDict (to_mapping demo_metadata))) \<le> 700"
  by (simp add: to_mapping_def demo_metadata_def dict_order_def lit_def dumps_str_def escape_char_def dec_of_int_def dec_of_nat.simps)

lemma record_order:
  "dict_order True
     [(lit ''metadata'', a), (lit ''offset'', b), (lit ''stored_length'', c), (lit ''decoded_length'', d),
      (lit ''codec'', e), (lit ''checksum'', f)]
   = [(lit ''checksum'', f), (lit ''codec'', e), (lit ''decoded_length'', d), (lit ''metadata'', a),
      (lit ''offset'', b), (lit ''stored_length'', c)]"
  by (simp add: dict_order_def lit_def)

lemma demo_footer_head: "length (footer_head (uuid_str u) 7) \<le> 300"
  by (simp add: footer_head_def length_dumps_uuid PACK_MAJOR_VERSION_def PACK_MINOR_VERSION_def)
   (simp add: lit_def dumps_str_def escape_char_def dec_of_int_def dec_of_nat.simps)

lemma demo_record_dumps: "length (dumps True True (record_mapping (index_record demo_record 64))) \<le> 900"
  unfolding record_mapping_def dumps_dict record_order
  using demo_metadata_dumps
  by (simp add: index_record_def demo_record_def length_dumps_crc del: dumps.simps(5))
   (simp add: lit_def dumps_str_def escape_char_def dec_of_int_def dec_of_nat.simps)

lemma demo_append: "\<exists>w. append_all [demo_record] demo_writer = Inr w"
proof -
  note P = PackWriter_footer [OF demo_writer]
  have b: "length (w_buffer demo_writer) = 64" using P(14) by (rule length_header)
  have "aligned_length 64 = 64" "aligned_length 66 = 128" by (simp_all add: aligned_length_def PACK_ALIGNMENT_def)
  moreover have "length (rec_payload demo_record) = 2" by (simp add: demo_record_def)
  ultimately have "\<exists>w. pack_append demo_record demo_writer = Inr w"
    using P b demo_record_dumps demo_footer_head [of "w_uuid demo_writer"]
    by (simp add: pack_append_def Let_def length_encode_json MAX_FOOTER_BYTES_def TRAILER_SIZE_def)
  then show ?thesis by auto
qed

lemma demo_sealed:
  "\<exists>w sp w' rd. append_all [demo_record] demo_writer = Inr w \<and> seal w = Inr (sp, w')
     \<and> from_bytes (sp_data sp) = Inr rd \<and> map ix_metadata (rd_records rd) = [demo_metadata]
     \<and> read_payload rd (descriptor_of (reader_ref rd [] []) (hd (rd_records rd))) = Inr [7, 9]"
proof -
  obtain w where w: "append_all [demo_record] demo_writer = Inr w" using demo_append by blast
  have "list_all record_ok [demo_record]" using demo_record_ok by simp
  from sealed_readable [OF demo_writer _ _ this _ w, of "[]" "[]"] w show ?thesis
    by (auto simp: pack_id_arg_ok_def demo_record_def list_all2_Cons1)
qed

section \<open>Properties of the format\<close>

text \<open>C2: any sequence of accepted appends can be sealed, and reading the sealed bytes back gives the same
  pack identity, creation time and checksum, the records in the order they were appended, and for each
  record exactly the payload that was appended. The pack stays within the writer's byte limit.\<close>

theorem pack_roundtrip:
  assumes "PackWriter arg created max_bytes max_recs = Inr w0" "pack_id_arg_ok arg" "max_bytes < 2 ^ 64"
    and "list_all record_ok rs" "rs \<noteq> []" "append_all rs w0 = Inr w"
  shows "\<exists>sp w' rd. seal w = Inr (sp, w') \<and> from_bytes (sp_data sp) = Inr rd
    \<and> rd_pack_id rd = sp_pack_id sp \<and> rd_created_at_ns rd = created \<and> rd_object_checksum rd = sp_checksum sp
    \<and> sp_record_count sp = int (length rs) \<and> int (length (sp_data sp)) \<le> max_bytes
    \<and> map ix_metadata (rd_records rd) = map rec_metadata rs
    \<and> list_all2 (\<lambda>r i. read_payload rd (descriptor_of (reader_ref rd store_id key) i) = Inr (rec_payload r))
        rs (rd_records rd)"
  using assms by (rule sealed_readable)

theorem pack_roundtrip_witness:
  "\<exists>w sp w' rd. append_all [demo_record] demo_writer = Inr w \<and> seal w = Inr (sp, w')
     \<and> from_bytes (sp_data sp) = Inr rd \<and> map ix_metadata (rd_records rd) = [demo_metadata]"
proof -
  obtain w where w: "append_all [demo_record] demo_writer = Inr w" using demo_append by blast
  have "list_all record_ok [demo_record]" using demo_record_ok by simp
  from pack_roundtrip [OF demo_writer _ _ this _ w, of "[]" "[]"] w show ?thesis
    by (auto simp: pack_id_arg_ok_def demo_record_def)
qed

text \<open>C3: whatever bytes the reader accepts, its records have validated metadata, lie between the header and
  the footer, are in order and disjoint, have distinct capture identifiers, and the SHA-256 of everything
  before the trailer is the digest the trailer carries.\<close>

theorem from_bytes_sound:
  assumes "from_bytes data = Inr rd"
  shows "\<exists>footer_offset trailer.
     trailer_unpack (drop (length data - 64) data) = Inr trailer
     \<and> sha256 (take (length data - 64) data) = tf_body_hash trailer
     \<and> footer_offset = int (tf_footer_offset trailer) \<and> HEADER_SIZE \<le> footer_offset
     \<and> footer_offset + int (tf_footer_length trailer) + TRAILER_SIZE = int (length data)
     \<and> list_all (indexed_ok footer_offset) (rd_records rd) \<and> chain HEADER_SIZE (rd_records rd)
     \<and> distinct (map (\<lambda>i. md_capture_id (ix_metadata i)) (rd_records rd))
     \<and> rd_object_checksum rd = hexdigest data"
  using assms
proof (rule from_bytes_Inr)
  fix t d
  assume h: "trailer_unpack (drop (nat (int (length data) - TRAILER_SIZE)) data) = Inr t"
    "HEADER_SIZE + TRAILER_SIZE + 2 \<le> int (length data)" "HEADER_SIZE \<le> int (tf_footer_offset t)"
    "int (tf_footer_offset t) + int (tf_footer_length t) = int (length data) - TRAILER_SIZE"
    "sha256 (take (nat (int (length data) - TRAILER_SIZE)) data) = tf_body_hash t"
    "parse_records d (int (tf_footer_offset t)) = Inr (rd_records rd)" "rd_object_checksum rd = hexdigest data"
  have "nat (int (length data) - TRAILER_SIZE) = length data - 64" by (simp add: TRAILER_SIZE_def nat_diff_distrib)
  with h parse_records_ok [OF h(6)] show ?thesis by auto
qed

theorem from_bytes_sound_witness:
  "\<exists>w sp w' rd. append_all [demo_record] demo_writer = Inr w \<and> seal w = Inr (sp, w')
     \<and> from_bytes (sp_data sp) = Inr rd \<and> chain HEADER_SIZE (rd_records rd)"
  using demo_sealed from_bytes_sound by blast



text \<open>C5: a key segment belongs to one tenant. If one \<^verbatim>\<open>tenant=\<close> segment is accepted for two tenants, they are
  the same tenant or their names collide under SHA-256; in particular the literal segments of the layout
  before the digest prefix was reserved cannot be claimed by another tenant.\<close>

theorem segment_belongs_to_one_tenant:
  assumes "segment_belongs_to seg a = Inr True" "segment_belongs_to seg b = Inr True"
  shows "a = b \<or> (\<exists>x y. utf8_encode a = Some x \<and> utf8_encode b = Some y \<and> hexdigest x = hexdigest y)"
proof -
  have legacy_current: "False"
    if "quote s = Inr seg" "startswith DIGEST_PREFIX s" "\<not> digest_shape s" "key_component t = Inr seg" "quote t \<noteq> Inr seg" for s t
    using that(4)
  proof (cases rule: key_component_cases)
    case plain
    with that(5) show False by simp
  next
    case (digest x)
    then have "digest_shape seg" by (simp add: digest_form)
    with that quote_digest_shape show False by blast
  qed
  from assms(1) show ?thesis
  proof (cases rule: segment_belongs_cases)
    case current
    from assms(2) show ?thesis
    proof (cases rule: segment_belongs_cases)
      case current
      with key_component_collision [OF \<open>key_component a = Inr seg\<close>] show ?thesis by blast
    next
      case legacy
      with legacy_current [OF this \<open>key_component a = Inr seg\<close>] quote_inj show ?thesis by blast
    qed
  next
    case legacy
    from assms(2) show ?thesis
    proof (cases rule: segment_belongs_cases)
      case current
      with legacy_current [OF legacy this] legacy quote_inj show ?thesis by blast
    next
      case 2: legacy
      with legacy quote_inj show ?thesis by blast
    qed
  qed
qed

lemma demo_legacy_segment: "segment_belongs_to (lit ''sha256-team-a'') (lit ''sha256-team-a'') = Inr True"
proof -
  have q: "quote (lit ''sha256-team-a'') = Inr (lit ''sha256-team-a'')"
    by (simp add: quote_def utf8_encode_ascii lit_def ascii_bytes_def quote_byte_def quote_safe_def)
  have "lit ''sha256-team-a'' \<noteq> DIGEST_PREFIX @ hexdigest b" for b
    using digest_prefix_length by (auto dest!: arg_cong [of _ _ length])
  then show ?thesis
    using digest_prefix_length
    by (simp add: segment_belongs_to_def key_component_def q digest_shape_def)
qed

theorem segment_belongs_to_one_tenant_witness:
  "segment_belongs_to (lit ''sha256-team-a'') (lit ''sha256-team-a'') = Inr True
   \<and> (lit ''sha256-team-a'' = lit ''sha256-team-a''
      \<or> (\<exists>x y. utf8_encode (lit ''sha256-team-a'') = Some x \<and> utf8_encode (lit ''sha256-team-a'') = Some y
            \<and> hexdigest x = hexdigest y))"
  using demo_legacy_segment segment_belongs_to_one_tenant [OF demo_legacy_segment demo_legacy_segment] by blast

text \<open>C6: the constructor is a type check. Metadata it accepts has non-empty texts that UTF-8 can encode within their
  limit, a known dtype and a shape of bounded rank; every integer survives the width of the catalog column it
  is stored in (UInt32, UInt64 or Int32) and the token range is ordered. Such metadata comes back unchanged
  from its canonical JSON, and a record over it takes exactly the payloads of the length that its dtype and
  shape give.\<close>

theorem metadata_is_well_typed:
  assumes "CaptureMetadata arg = Inr m"
  shows "metadata_ok m \<and> md_token_start m \<le> md_token_end m
    \<and> list_all (\<lambda>i. uint (word_of_int i :: 32 word) = i) (md_producer_rank m # md_batch_position m # md_shape m)
    \<and> list_all (\<lambda>i. uint (word_of_int i :: 64 word) = i) [md_step_number m, md_token_start m, md_token_end m, md_captured_at_ns m]
    \<and> sint (word_of_int (md_layer_number m) :: 32 word) = md_layer_number m
    \<and> (\<exists>d. loads_bytes (encode_json (VDict (to_mapping m))) = Inr (PDict d) \<and> from_mapping d = Inr m)
    \<and> (\<exists>r. CaptureRecord m payload = Inr r \<and> record_ok r) = (int (length payload) = logical_bytes m)"
proof -
  have ok: "metadata_ok m" using assms by (rule CaptureMetadata_ok)
  have w: "0 \<le> i \<Longrightarrow> i \<le> 2 ^ 32 - 1 \<Longrightarrow> uint (word_of_int i :: 32 word) = i"
    "0 \<le> i \<Longrightarrow> i \<le> 2 ^ 64 - 1 \<Longrightarrow> uint (word_of_int i :: 64 word) = i" for i
    by (simp_all add: unsigned_of_int take_bit_int_eq_self_iff)
  have s: "- 1 \<le> i \<Longrightarrow> i \<le> 2 ^ 31 - 1 \<Longrightarrow> sint (word_of_int i :: 32 word) = i" for i
    by (simp add: signed_of_int signed_take_bit_int_eq_self)
  have l: "\<exists>d. loads_bytes (encode_json (VDict (to_mapping m))) = Inr (PDict d) \<and> from_mapping d = Inr m"
    using loads_encode [OF jval_ok_to_mapping [OF ok]] from_mapping_to_mapping [OF ok] by (simp only: decoded_VDict) blast
  have r: "(\<exists>r. CaptureRecord m payload = Inr r \<and> record_ok r) = (int (length payload) = logical_bytes m)"
    using CaptureRecord_ok [OF ok, of payload] by (auto simp: CaptureRecord_def)
  have "list_all (\<lambda>i. uint (word_of_int i :: 32 word) = i) (md_shape m)"
    using ok w(1) by (auto simp: metadata_ok_def list_all_iff)
  with ok l r w s show ?thesis by (simp add: metadata_ok_def)
qed

theorem metadata_is_well_typed_witness:
  "\<exists>arg. CaptureMetadata arg = Inr demo_metadata \<and> sint (word_of_int (md_layer_number demo_metadata) :: 32 word) = - 1
     \<and> (\<exists>r. CaptureRecord demo_metadata [7, 9] = Inr r)"
proof -
  obtain arg where a: "CaptureMetadata arg = Inr demo_metadata"
    using from_mapping_to_mapping [OF demo_metadata_ok]
    by (auto simp: from_mapping_def Let_def split: if_splits pyval.splits sum.splits)
  have "int (length [7, 9 :: 8 word]) = logical_bytes demo_metadata"
    using demo_record_ok by (simp add: record_ok_def demo_record_def)
  with metadata_is_well_typed [OF a, of "[7, 9]"] a show ?thesis by (auto simp: demo_metadata_def)
qed

end
