(* ===== verification/PackStore.thy ===== *)
theory PackStore
  imports Pack
begin

text \<open>
  Object stores for packs. The locale \<open>pack_store\<close> is the contract the readers rely on: a reference that a
  store holds reads back any range of the bytes. The filesystem store of
  \<^verbatim>\<open>storage/capture/filesystem.py\<close> is modelled over a tree of path components; \<^verbatim>\<open>put\<close> takes what another
  writer may link at the same path between the existence check and its own link, so its lemmas cover
  that race. The tree holds no symbolic links to directories; \<open>FOther\<close> is any other non-regular file.
\<close>

section \<open>The contract of a pack store\<close>

lemma from_bytes_all:
  assumes "from_bytes data = Inr rd"
  obtains h t d where "header_unpack data = Inr h"
    "trailer_unpack (drop (nat (int (length data) - TRAILER_SIZE)) data) = Inr t"
    "HEADER_SIZE + TRAILER_SIZE + 2 \<le> int (length data)"
    "tf_magic t = TRAILER_MAGIC" "tf_major t = PACK_MAJOR_VERSION" "tf_minor t = PACK_MINOR_VERSION"
    "int (tf_footer_length t) \<le> MAX_FOOTER_BYTES" "HEADER_SIZE \<le> int (tf_footer_offset t)"
    "int (tf_footer_offset t) + int (tf_footer_length t) = int (length data) - TRAILER_SIZE"
    "unat (crc32 (slice (int (tf_footer_offset t)) (int (length data) - TRAILER_SIZE) data)) = tf_footer_crc t"
    "decode_footer (slice (int (tf_footer_offset t)) (int (length data) - TRAILER_SIZE) data)
       (int PACK_MAJOR_VERSION) (int PACK_MINOR_VERSION) = Inr d"
    "rd_pack_id rd = uuid_str (uuid_of_bytes (hf_uuid_bytes h))"
    "map_of d (lit ''pack_id'') = Some (PStr (rd_pack_id rd))"
    "parse_records d (int (tf_footer_offset t)) = Inr (rd_records rd)"
proof -
  obtain h t where ht: "header_unpack data = Inr h"
    "trailer_unpack (drop (nat (int (length data) - TRAILER_SIZE)) data) = Inr t"
    using assms by (auto simp: from_bytes_def Let_def split: if_splits sum.splits)
  from assms that [OF ht] show ?thesis
    by (auto simp: from_bytes_def Let_def ht rbind_eq_Inr PACK_MINOR_VERSION_def split: if_splits)
qed

lemma uuid_text_of_reader:
  assumes "header_unpack data = Inr h"
  shows "uuid_text_of (Some (PStr (uuid_str (uuid_of_bytes (hf_uuid_bytes h)))))
    = Some (uuid_str (uuid_of_bytes (hf_uuid_bytes h)))"
proof -
  have "length (hf_uuid_bytes h) = 16"
    using assms by (auto simp: header_unpack_def field_def split: if_splits)
  then show ?thesis using uuid_of_bytes_bound by (simp add: uuid_text_of_def)
qed

locale pack_store =
  fixes store_id :: pystr
    and read_range :: "pack_ref \<Rightarrow> int \<Rightarrow> int \<Rightarrow> bytes result"
    and holds :: "pack_ref \<Rightarrow> bytes \<Rightarrow> bool"
  assumes holds_store: "holds ref data \<Longrightarrow> ref_store_id ref = store_id"
    and holds_size: "holds ref data \<Longrightarrow> ref_object_bytes ref = int (length data)"
    and read_holds: "holds ref data \<Longrightarrow> 0 \<le> off \<Longrightarrow> 0 \<le> len \<Longrightarrow> off + len \<le> int (length data)
      \<Longrightarrow> read_range ref off len = Inr (slice off (off + len) data)"
    and read_inside: "holds ref data \<Longrightarrow> read_range ref off len = Inr bs
      \<Longrightarrow> 0 \<le> off \<and> 0 \<le> len \<and> off + len \<le> int (length data)"
begin

text \<open>An index built through the store is the one a full read of the pack would give.\<close>

lemma from_store_agrees:
  assumes holds: "holds ref data" and fb: "from_bytes data = Inr rd"
    and id: "ref_pack_id ref = rd_pack_id rd" and cnt: "ref_record_count ref = int (length (rd_records rd))"
  shows "\<exists>n. from_store store_id read_range ref
    = Inr \<lparr>pi_ref = ref, pi_records = rd_records rd, pi_footer_read_bytes = n\<rparr> \<and> n \<le> max_footer_read_bytes ref"
  using fb
proof (rule from_bytes_all)
  fix h t d
  assume A: "header_unpack data = Inr h"
    "trailer_unpack (drop (nat (int (length data) - TRAILER_SIZE)) data) = Inr t"
    "HEADER_SIZE + TRAILER_SIZE + 2 \<le> int (length data)"
    "tf_magic t = TRAILER_MAGIC" "tf_major t = PACK_MAJOR_VERSION" "tf_minor t = PACK_MINOR_VERSION"
    "int (tf_footer_length t) \<le> MAX_FOOTER_BYTES" "HEADER_SIZE \<le> int (tf_footer_offset t)"
    "int (tf_footer_offset t) + int (tf_footer_length t) = int (length data) - TRAILER_SIZE"
    "unat (crc32 (slice (int (tf_footer_offset t)) (int (length data) - TRAILER_SIZE) data)) = tf_footer_crc t"
    "decode_footer (slice (int (tf_footer_offset t)) (int (length data) - TRAILER_SIZE) data)
       (int PACK_MAJOR_VERSION) (int PACK_MINOR_VERSION) = Inr d"
    "rd_pack_id rd = uuid_str (uuid_of_bytes (hf_uuid_bytes h))"
    "map_of d (lit ''pack_id'') = Some (PStr (rd_pack_id rd))"
    "parse_records d (int (tf_footer_offset t)) = Inr (rd_records rd)"
  have size: "ref_object_bytes ref = int (length data)" using holds by (rule holds_size)
  have "slice (int (length data) - TRAILER_SIZE) (int (length data)) data
      = drop (nat (int (length data) - TRAILER_SIZE)) data"
    by (simp add: slice_def)
  then have rt: "read_range ref (int (length data) - TRAILER_SIZE) TRAILER_SIZE
      = Inr (drop (nat (int (length data) - TRAILER_SIZE)) data)"
    using read_holds [OF holds, of "int (length data) - TRAILER_SIZE" TRAILER_SIZE] A(3)
    by (simp add: HEADER_SIZE_def TRAILER_SIZE_def)
  have rf: "read_range ref (int (tf_footer_offset t)) (int (tf_footer_length t))
      = Inr (slice (int (tf_footer_offset t)) (int (length data) - TRAILER_SIZE) data)"
    using read_holds [OF holds, of "int (tf_footer_offset t)" "int (tf_footer_length t)"] A(9)
    by (simp add: TRAILER_SIZE_def)
  have ut: "uuid_text_of (map_of d (lit ''pack_id'')) = Some (rd_pack_id rd)"
    using uuid_text_of_reader [OF A(1)] A(12,13) by simp
  have "from_store store_id read_range ref
    = Inr \<lparr>pi_ref = ref, pi_records = rd_records rd, pi_footer_read_bytes = TRAILER_SIZE + int (tf_footer_length t)\<rparr>"
    using A holds_store [OF holds] id cnt
    by (simp add: from_store_def from_store_st_def check_trailer_def index_footer_def size rt rf ut
        uuid_text_of_reader [OF A(1)] Let_def)
  moreover have "TRAILER_SIZE + int (tf_footer_length t) \<le> max_footer_read_bytes ref"
    using A(7,8,9) by (simp add: max_footer_read_bytes_def size HEADER_SIZE_def)
  ultimately show ?thesis by blast
qed

end

section \<open>Object keys\<close>

text \<open>\<^verbatim>\<open>PurePosixPath(s).parts\<close> of a relative path: empty and \<^verbatim>\<open>.\<close> components disappear.\<close>

definition posix_parts :: "pystr \<Rightarrow> pystr list" where
  "posix_parts s = filter (\<lambda>p. p \<noteq> [] \<and> p \<noteq> lit ''.'') (split 47 s)"

definition is_alnum :: "nat \<Rightarrow> bool" where
  "is_alnum c \<longleftrightarrow> 65 \<le> c \<and> c \<le> 90 \<or> 97 \<le> c \<and> c \<le> 122 \<or> 48 \<le> c \<and> c \<le> 57"

text \<open>\<^verbatim>\<open>^[A-Za-z0-9][A-Za-z0-9._=%-]*$\<close> under \<^verbatim>\<open>fullmatch\<close>.\<close>

definition key_pattern :: "pystr \<Rightarrow> bool" where
  "key_pattern p \<longleftrightarrow> p \<noteq> [] \<and> is_alnum (hd p)
     \<and> list_all (\<lambda>c. is_alnum c \<or> c \<in> {46, 95, 61, 37, 45}) (tl p)"

definition validate_object_key :: "pystr \<Rightarrow> pystr list result" where
  "validate_object_key key =
     (if key = [] \<or> 92 \<in> set key then Inl (Error ValueError ''object key is invalid'')
      else if hd key = 47
            \<or> \<not> list_all (\<lambda>p. p \<notin> {[], lit ''.'', lit ''..''} \<and> key_pattern p) (posix_parts key)
      then Inl (Error ValueError ''object key is invalid'')
      else Inr (posix_parts key))"

section \<open>Pack sources\<close>

text \<open>A \<^verbatim>\<open>PackSource\<close>: its metadata, the bytes \<^verbatim>\<open>verified_bytes()\<close> hands over (\<open>None\<close> when it does not), and
  what \<^verbatim>\<open>open()\<close> does: it raises, or it gives the results of successive \<^verbatim>\<open>read\<close> calls, which are \<^verbatim>\<open>b""\<close>
  once the list is used up.\<close>

record pack_source =
  src_pack_id :: pystr
  src_created_at_ns :: int
  src_record_count :: int
  src_object_bytes :: int
  src_checksum :: pystr
  src_verified :: "bytes option"
  src_open :: "bytes list result"

definition sha256_pattern :: "pystr \<Rightarrow> bool" where
  "sha256_pattern s \<longleftrightarrow> length s = 64 \<and> list_all is_lower_hex s"

definition validate_pack_source :: "pack_source \<Rightarrow> unit result" where
  "validate_pack_source p =
     (case uuid_parse (src_pack_id p) of
        None \<Rightarrow> Inl (Error ValueError ''pack source has an invalid pack ID'')
      | Some u \<Rightarrow>
          if uuid_str u \<noteq> src_pack_id p
          then Inl (Error ValueError ''pack source must use a canonical pack ID'')
          else if \<not> list_all (\<lambda>v. 0 \<le> v \<and> v \<le> 2 ^ 63 - 1)
                    [src_created_at_ns p, src_record_count p, src_object_bytes p]
          then Inl (Error ValueError ''pack source has invalid numeric metadata'')
          else if src_record_count p = 0 \<or> src_object_bytes p = 0
          then Inl (Error ValueError ''pack source must contain records and bytes'')
          else if \<not> sha256_pattern (src_checksum p)
          then Inl (Error ValueError ''pack source has an invalid checksum'')
          else Inr ())"

definition COPY_BYTES :: int where "COPY_BYTES = 1024 * 1024"

fun drain_loop :: "int \<Rightarrow> bytes \<Rightarrow> bytes list \<Rightarrow> bytes result" where
  "drain_loop remaining acc [] =
     (if remaining = 0 then Inr acc
      else Inl (Error PackIntegrityError ''pack source returned an invalid byte stream''))"
| "drain_loop remaining acc (chunk # reads) =
     (if remaining = 0 then
        (if chunk \<noteq> [] then Inl (Error PackIntegrityError ''pack source exceeds its declared size'')
         else Inr acc)
      else if chunk = [] \<or> min COPY_BYTES remaining < int (length chunk)
      then Inl (Error PackIntegrityError ''pack source returned an invalid byte stream'')
      else drain_loop (remaining - int (length chunk)) (acc @ chunk) reads)"

text \<open>The bytes written to the destination.\<close>

definition drain_pack_source :: "pack_source \<Rightarrow> bool \<Rightarrow> bytes result" where
  "drain_pack_source p trust_verified =
     rbind (validate_pack_source p) (\<lambda>_.
       case (if trust_verified then src_verified p else None) of
         Some verified \<Rightarrow>
           if int (length verified) \<noteq> src_object_bytes p
           then Inl (Error PackIntegrityError ''pack source returned invalid verified bytes'')
           else Inr verified
       | None \<Rightarrow>
           rbind (src_open p) (\<lambda>reads.
           rbind (drain_loop (src_object_bytes p) [] reads) (\<lambda>written.
             if hexdigest written \<noteq> src_checksum p
             then Inl (Error PackIntegrityError ''pack source checksum does not match its metadata'')
             else Inr written)))"

definition copy_pack_source :: "pack_source \<Rightarrow> bytes result" where
  "copy_pack_source p = drain_pack_source p True"

definition verify_pack_source :: "pack_source \<Rightarrow> unit result" where
  "verify_pack_source p = rbind (drain_pack_source p False) (\<lambda>_. Inr ())"

text \<open>A sealed pack as a source: \<^verbatim>\<open>BytesIO\<close> answers reads in runs of the copy size.\<close>

fun chunks :: "nat \<Rightarrow> bytes \<Rightarrow> bytes list" where
  "chunks 0 bs = []"
| "chunks (Suc k) bs = (if bs = [] then [] else take (nat COPY_BYTES) bs # chunks k (drop (nat COPY_BYTES) bs))"

definition sealed_source :: "sealed_pack \<Rightarrow> pack_source" where
  "sealed_source sp =
     \<lparr>src_pack_id = sp_pack_id sp, src_created_at_ns = sp_created_at_ns sp,
      src_record_count = sp_record_count sp, src_object_bytes = object_bytes sp,
      src_checksum = sp_checksum sp, src_verified = Some (sp_data sp),
      src_open = Inr (chunks (length (sp_data sp)) (sp_data sp))\<rparr>"

section \<open>The filesystem store\<close>

datatype fnode = FDir | FReg bytes | FOther

record fs_store =
  fs_store_id :: pystr
  fs_tree :: "pystr list \<Rightarrow> fnode option"

definition FilesystemPackStore :: "pystr \<Rightarrow> (pystr list \<Rightarrow> fnode option) \<Rightarrow> fs_store result" where
  "FilesystemPackStore store_id tree =
     (if store_id = [] then Inl (Error ValueError ''store_id must be non-empty and at most 128 bytes'')
      else case utf8_encode store_id of
        None \<Rightarrow> Inl (Error UnicodeEncodeError ''surrogates not allowed'')
      | Some b \<Rightarrow>
          if 128 < length b then Inl (Error ValueError ''store_id must be non-empty and at most 128 bytes'')
          else Inr \<lparr>fs_store_id = store_id, fs_tree = tree([] \<mapsto> FDir)\<rparr>)"

text \<open>\<^verbatim>\<open>_path\<close>: the store root itself is not below the root, so a key without components escapes it.\<close>

definition fs_path :: "pystr \<Rightarrow> pystr list result" where
  "fs_path key =
     rbind (validate_object_key key) (\<lambda>parts.
       if parts = [] then Inl (Error ValueError ''object key escapes the store root'') else Inr parts)"

definition fs_size :: "fs_store \<Rightarrow> pystr list \<Rightarrow> int result" where
  "fs_size st path =
     (case fs_tree st path of
        None \<Rightarrow> Inl (Error FileNotFoundError ''no such file'')
      | Some (FReg data) \<Rightarrow> Inr (int (length data))
      | Some _ \<Rightarrow> Inl (Error PackFormatError ''pack object must be a regular file''))"

definition fs_open :: "fs_store \<Rightarrow> pystr list \<Rightarrow> bytes result" where
  "fs_open st path =
     (case fs_tree st path of
        None \<Rightarrow> Inl (Error FileNotFoundError ''no such file'')
      | Some (FReg data) \<Rightarrow> Inr data
      | Some _ \<Rightarrow> Inl (Error PackFormatError ''pack object must be a regular file''))"

definition fs_checksum :: "fs_store \<Rightarrow> pystr list \<Rightarrow> pystr result" where
  "fs_checksum st path = rbind (fs_open st path) (\<lambda>data. Inr (hexdigest data))"

definition source_ref :: "fs_store \<Rightarrow> pack_source \<Rightarrow> pystr \<Rightarrow> pack_ref" where
  "source_ref st p key =
     \<lparr>ref_pack_id = src_pack_id p, ref_store_id = fs_store_id st, ref_object_key = key,
      ref_object_bytes = src_object_bytes p, ref_checksum = src_checksum p,
      ref_record_count = src_record_count p\<rparr>"

definition existing_ref :: "fs_store \<Rightarrow> pack_source \<Rightarrow> pystr \<Rightarrow> pystr list \<Rightarrow> pack_ref result" where
  "existing_ref st p key path =
     rbind (fs_size st path) (\<lambda>size.
       if size \<noteq> src_object_bytes p
       then Inl (Error PackConflictError ''object key contains different content'')
       else rbind (fs_checksum st path) (\<lambda>checksum.
         if checksum \<noteq> src_checksum p
         then Inl (Error PackConflictError ''object key contains different content'')
         else Inr (source_ref st p key)))"

definition ancestors :: "pystr list \<Rightarrow> pystr list list" where
  "ancestors path = map (\<lambda>n. take n path) [0..<length path]"

text \<open>\<^verbatim>\<open>path.parent.mkdir(parents=True, exist_ok=True)\<close>.\<close>

definition mkdir_parents :: "fs_store \<Rightarrow> pystr list \<Rightarrow> fs_store result" where
  "mkdir_parents st path =
     (if list_all (\<lambda>a. fs_tree st a \<in> {None, Some FDir}) (ancestors path)
      then Inr (st\<lparr>fs_tree := (\<lambda>p. if p \<in> set (ancestors path) then Some FDir else fs_tree st p)\<rparr>)
      else Inl (Error OSError ''not a directory''))"

text \<open>\<open>other\<close> is what a concurrent writer publishes at the path before \<^verbatim>\<open>os.link\<close> runs.\<close>

definition fs_put :: "fnode option \<Rightarrow> pack_source \<Rightarrow> pystr \<Rightarrow> fs_store \<Rightarrow> fs_store \<times> pack_ref result" where
  "fs_put other p key st =
     (case rbind (validate_pack_source p) (\<lambda>_. fs_path key) of
        Inl e \<Rightarrow> (st, Inl e)
      | Inr path \<Rightarrow>
          (case mkdir_parents st path of
             Inl e \<Rightarrow> (st, Inl e)
           | Inr st1 \<Rightarrow>
               if fs_tree st1 path \<noteq> None then (st1, existing_ref st1 p key path)
               else
                 let st2 = (case other of None \<Rightarrow> st1 | Some n \<Rightarrow> st1\<lparr>fs_tree := (fs_tree st1)(path \<mapsto> n)\<rparr>)
                 in case copy_pack_source p of
                      Inl e \<Rightarrow> (st2, Inl e)
                    | Inr data \<Rightarrow>
                        if fs_tree st2 path \<noteq> None then (st2, existing_ref st2 p key path)
                        else (st2\<lparr>fs_tree := (fs_tree st2)(path \<mapsto> FReg data)\<rparr>, Inr (source_ref st2 p key))))"

definition fs_validate_ref :: "fs_store \<Rightarrow> pack_ref \<Rightarrow> unit result" where
  "fs_validate_ref st ref = require (ref_store_id ref = fs_store_id st) ValueError ''pack store mismatch''"

definition fs_stat :: "fs_store \<Rightarrow> pack_ref \<Rightarrow> object_info result" where
  "fs_stat st ref =
     rbind (fs_validate_ref st ref) (\<lambda>_.
     rbind (fs_path (ref_object_key ref)) (\<lambda>path.
     rbind (fs_size st path) (\<lambda>size.
     rbind (fs_checksum st path) (\<lambda>checksum.
       Inr \<lparr>info_size = size, info_checksum = checksum\<rparr>))))"

definition fs_read_range :: "fs_store \<Rightarrow> pack_ref \<Rightarrow> int \<Rightarrow> int \<Rightarrow> bytes result" where
  "fs_read_range st ref offset len =
     rbind (fs_validate_ref st ref) (\<lambda>_.
     rbind (require (0 \<le> offset \<and> 0 \<le> len) ValueError
              ''range offset and length must be non-negative integers'') (\<lambda>_.
     rbind (fs_path (ref_object_key ref)) (\<lambda>path.
     rbind (fs_size st path) (\<lambda>size.
     rbind (require (offset + len \<le> size) PackFormatError ''requested range exceeds object size'') (\<lambda>_.
     rbind (fs_open st path) (\<lambda>content.
       let data = slice offset (offset + len) content
       in if int (length data) \<noteq> len then Inl (Error PackIntegrityError ''filesystem returned a short range'')
          else Inr data))))))"

section \<open>The filesystem store keeps the contract\<close>

definition fs_holds :: "fs_store \<Rightarrow> pack_ref \<Rightarrow> bytes \<Rightarrow> bool" where
  "fs_holds st ref data \<longleftrightarrow> ref_store_id ref = fs_store_id st \<and> ref_object_bytes ref = int (length data)
     \<and> (\<exists>path. fs_path (ref_object_key ref) = Inr path \<and> fs_tree st path = Some (FReg data))"

interpretation fs: pack_store "fs_store_id st" "fs_read_range st" "fs_holds st" for st
  by unfold_locales
    (auto simp: fs_holds_def fs_read_range_def fs_validate_ref_def fs_size_def fs_open_def require_def
      length_slice Let_def split: if_splits)

lemma sha256_pattern_hexdigest: "sha256_pattern (hexdigest m)"
  using hex_of_bytes_lower [of _ "sha256 m"] by (auto simp: sha256_pattern_def hexdigest_def list_all_iff)

lemma drain_loop_length: "drain_loop n acc reads = Inr bs \<Longrightarrow> 0 \<le> n \<Longrightarrow> int (length bs) = int (length acc) + n"
  by (induction n acc reads rule: drain_loop.induct) (auto split: if_splits)

text \<open>A source is honest when the bytes it vouches for have the checksum it declares.\<close>

definition source_honest :: "pack_source \<Rightarrow> bool" where
  "source_honest p \<longleftrightarrow> (case src_verified p of None \<Rightarrow> True | Some v \<Rightarrow> hexdigest v = src_checksum p)"

lemma validate_pack_source_size: "validate_pack_source p = Inr () \<Longrightarrow> 0 < src_object_bytes p"
  by (auto simp: validate_pack_source_def split: option.splits if_splits)

lemma copy_pack_source_ok:
  assumes "copy_pack_source p = Inr data" "source_honest p"
  shows "int (length data) = src_object_bytes p \<and> hexdigest data = src_checksum p"
  using assms validate_pack_source_size [of p] drain_loop_length [of "src_object_bytes p" "[]" _ data]
  by (auto simp: copy_pack_source_def drain_pack_source_def source_honest_def rbind_eq_Inr
      split: option.splits if_splits)

lemma existing_ref_ok:
  assumes "existing_ref st p key path = Inr ref"
  shows "ref = source_ref st p key"
    "\<exists>data. fs_tree st path = Some (FReg data) \<and> int (length data) = src_object_bytes p \<and> hexdigest data = src_checksum p"
  using assms
  by (auto simp: existing_ref_def fs_size_def fs_checksum_def fs_open_def rbind_eq_Inr
      split: option.splits fnode.splits if_splits)

lemma ancestors_shorter: "a \<in> set (ancestors path) \<Longrightarrow> length a < length path"
  by (auto simp: ancestors_def)

lemma mkdir_parents_tree:
  assumes "mkdir_parents st path = Inr st'"
  shows "fs_store_id st' = fs_store_id st" "fs_tree st q = Some (FReg d) \<Longrightarrow> fs_tree st' q = Some (FReg d)"
    "fs_tree st' path = fs_tree st path" "fs_tree st' q = Some (FReg d) \<Longrightarrow> fs_tree st q = Some (FReg d)"
proof -
  have "path \<notin> set (ancestors path)" using ancestors_shorter [of path path] by blast
  with assms show "fs_store_id st' = fs_store_id st" "fs_tree st' path = fs_tree st path"
    "fs_tree st q = Some (FReg d) \<Longrightarrow> fs_tree st' q = Some (FReg d)"
    "fs_tree st' q = Some (FReg d) \<Longrightarrow> fs_tree st q = Some (FReg d)"
    by (fastforce simp: mkdir_parents_def list_all_iff split: if_splits)+
qed

text \<open>The outcomes of a successful put: the object was there already with the same content, or it is new.\<close>

lemma fs_put_Inr:
  assumes "fs_put other p key st = (st', Inr ref)"
  obtains path data where "fs_path key = Inr path" "fs_tree st' path = Some (FReg data)" "ref = source_ref st' p key"
    "source_honest p \<Longrightarrow> int (length data) = src_object_bytes p \<and> hexdigest data = src_checksum p"
    "validate_pack_source p = Inr ()" "fs_store_id st' = fs_store_id st"
    "\<forall>a \<in> set (ancestors path). fs_tree st' a = Some FDir"
proof -
  obtain path st1 where v: "validate_pack_source p = Inr ()" "fs_path key = Inr path" "mkdir_parents st path = Inr st1"
    using assms by (auto simp: fs_put_def rbind_eq_Inr split: sum.splits)
  note m = mkdir_parents_tree [OF v(3)]
  have anc: "\<forall>a \<in> set (ancestors path). fs_tree st1 a = Some FDir \<and> a \<noteq> path"
    using v(3) ancestors_shorter by (auto simp: mkdir_parents_def split: if_splits)
  define st2 where "st2 = (case other of None \<Rightarrow> st1 | Some n \<Rightarrow> st1\<lparr>fs_tree := (fs_tree st1)(path \<mapsto> n)\<rparr>)"
  have st2: "fs_store_id st2 = fs_store_id st1" "\<forall>a \<in> set (ancestors path). fs_tree st2 a = Some FDir"
    using anc by (auto simp: st2_def split: option.splits)
  have e: "fs_put other p key st =
     (if fs_tree st1 path \<noteq> None then (st1, existing_ref st1 p key path)
      else case copy_pack_source p of
             Inl e \<Rightarrow> (st2, Inl e)
           | Inr data \<Rightarrow>
               if fs_tree st2 path \<noteq> None then (st2, existing_ref st2 p key path)
               else (st2\<lparr>fs_tree := (fs_tree st2)(path \<mapsto> FReg data)\<rparr>, Inr (source_ref st2 p key)))"
    unfolding fs_put_def v Let_def st2_def by (simp add: v)
  show ?thesis
  proof (cases "fs_tree st1 path = None")
    case False
    then have "st' = st1" "existing_ref st1 p key path = Inr ref" using assms by (auto simp: e)
    moreover obtain data where "fs_tree st1 path = Some (FReg data)" "int (length data) = src_object_bytes p"
      "hexdigest data = src_checksum p" using existing_ref_ok(2) [OF calculation(2)] by blast
    ultimately show ?thesis
      using existing_ref_ok(1) [of st1 p key path ref] v m(1) anc by (intro that [of path data]) simp_all
  next
    case True
    then obtain data where d: "copy_pack_source p = Inr data"
      using assms by (cases "copy_pack_source p") (simp_all add: e)
    show ?thesis
    proof (cases "fs_tree st2 path = None")
      case False
      then have "st' = st2" "existing_ref st2 p key path = Inr ref" using assms True d by (auto simp: e)
      moreover obtain data' where "fs_tree st2 path = Some (FReg data')" "int (length data') = src_object_bytes p"
        "hexdigest data' = src_checksum p" using existing_ref_ok(2) [OF calculation(2)] by blast
      ultimately show ?thesis
        using existing_ref_ok(1) [of st2 p key path ref] v m(1) st2 by (intro that [of path data']) simp_all
    next
      case n: True
      have st': "st' = st2\<lparr>fs_tree := (fs_tree st2)(path \<mapsto> FReg data)\<rparr>" "ref = source_ref st2 p key"
        using assms True d n by (auto simp: e)
      have "\<forall>a \<in> set (ancestors path). fs_tree st' a = Some FDir" using st2(2) anc by (simp add: st')
      with v m(1) st2(1) copy_pack_source_ok [OF d] show ?thesis
        by (intro that [of path data]) (simp_all add: st' source_ref_def)
    qed
  qed
qed

lemma fs_put_keeps_files:
  assumes "fs_put other p key st = (st', r)" "fs_tree st q = Some (FReg d)"
  shows "fs_tree st' q = Some (FReg d)"
proof (cases "rbind (validate_pack_source p) (\<lambda>_. fs_path key)")
  case (Inr path)
  show ?thesis
  proof (cases "mkdir_parents st path")
    case 2: (Inr st1)
    note m = mkdir_parents_tree [OF 2]
    have q: "fs_tree st1 q = Some (FReg d)" using assms(2) by (rule m)
    then show ?thesis
      using assms(1) Inr 2 by (auto simp: fs_put_def Let_def split: if_splits sum.splits option.splits)
  qed (use assms Inr in \<open>simp add: fs_put_def\<close>)
qed (use assms in \<open>simp add: fs_put_def\<close>)

section \<open>Properties of the filesystem store\<close>

definition demo_source :: pack_source where
  "demo_source =
     \<lparr>src_pack_id = uuid_str 5, src_created_at_ns = 7, src_record_count = 1, src_object_bytes = 2,
      src_checksum = hexdigest [1, 2], src_verified = Some [1, 2], src_open = Inr []\<rparr>"

definition demo_store :: fs_store where
  "demo_store = \<lparr>fs_store_id = lit ''fs'', fs_tree = [[] \<mapsto> FDir]\<rparr>"

lemma demo_path: "fs_path (lit ''a/b'') = Inr [lit ''a'', lit ''b'']"
  by (simp add: fs_path_def validate_object_key_def posix_parts_def key_pattern_def is_alnum_def lit_def)

lemma demo_source_ok: "validate_pack_source demo_source = Inr ()" "copy_pack_source demo_source = Inr [1, 2]"
  "source_honest demo_source"
  by (simp_all add: demo_source_def validate_pack_source_def sha256_pattern_hexdigest copy_pack_source_def
      drain_pack_source_def source_honest_def)

lemma demo_put:
  "\<exists>st. fs_put None demo_source (lit ''a/b'') demo_store = (st, Inr (source_ref demo_store demo_source (lit ''a/b'')))"
  using demo_source_ok
  by (simp add: fs_put_def demo_path mkdir_parents_def ancestors_def upt_conv_Cons) (simp add: demo_store_def source_ref_def)

text \<open>C7: a put that returns has published: the object is there with the size and the SHA-256 the reference
  records, \<^verbatim>\<open>stat\<close> reports them, and every range inside it reads back, also when another writer won the
  race for the key.\<close>

theorem fs_put_publishes:
  assumes "fs_put other p key st = (st', Inr ref)" "source_honest p"
  shows "\<exists>data. hexdigest data = ref_checksum ref \<and> int (length data) = ref_object_bytes ref
     \<and> fs_stat st' ref = Inr \<lparr>info_size = ref_object_bytes ref, info_checksum = ref_checksum ref\<rparr>
     \<and> (\<forall>off len. 0 \<le> off \<and> 0 \<le> len \<and> off + len \<le> ref_object_bytes ref
          \<longrightarrow> fs_read_range st' ref off len = Inr (slice off (off + len) data))"
  using assms(1)
proof (rule fs_put_Inr)
  fix path data
  assume h: "fs_path key = Inr path" "fs_tree st' path = Some (FReg data)" "ref = source_ref st' p key"
    "source_honest p \<Longrightarrow> int (length data) = src_object_bytes p \<and> hexdigest data = src_checksum p"
  then have holds: "fs_holds st' ref data" using assms(2) by (simp add: fs_holds_def source_ref_def)
  have "fs_stat st' ref = Inr \<lparr>info_size = ref_object_bytes ref, info_checksum = ref_checksum ref\<rparr>"
    using h assms(2)
    by (simp add: fs_stat_def fs_validate_ref_def fs_size_def fs_checksum_def fs_open_def source_ref_def require_def)
  with h assms(2) fs.read_holds [OF holds] show ?thesis by (auto simp: source_ref_def)
qed

theorem fs_put_publishes_witness:
  "\<exists>st ref data. fs_put None demo_source (lit ''a/b'') demo_store = (st, Inr ref) \<and> source_honest demo_source
     \<and> hexdigest data = ref_checksum ref"
proof -
  obtain st ref where "fs_put None demo_source (lit ''a/b'') demo_store = (st, Inr ref)" using demo_put by blast
  with fs_put_publishes [OF this demo_source_ok(3)] demo_source_ok(3) show ?thesis by blast
qed

text \<open>C8: stored objects are immutable: whatever a put does or raises, every regular file of the store keeps
  its bytes.\<close>

theorem fs_put_immutable:
  assumes "fs_put other p key st = (st', r)" "fs_tree st path = Some (FReg data)"
  shows "fs_tree st' path = Some (FReg data)"
  using assms by (rule fs_put_keeps_files)

definition demo_store_z :: fs_store where
  "demo_store_z = \<lparr>fs_store_id = lit ''fs'', fs_tree = [[] \<mapsto> FDir, [lit ''z''] \<mapsto> FReg [3]]\<rparr>"

theorem fs_put_immutable_witness:
  "fs_tree (fst (fs_put None demo_source (lit ''a/b'') demo_store_z)) [lit ''z''] = Some (FReg [3])"
  by (rule fs_put_immutable [OF prod.collapse [symmetric]]) (simp add: demo_store_z_def)

text \<open>C9: a put is idempotent: repeating one that returned gives the same reference and changes nothing,
  whatever a concurrent writer attempts.\<close>

theorem fs_put_idempotent:
  assumes "fs_put other p key st = (st', Inr ref)" "source_honest p"
  shows "fs_put other' p key st' = (st', Inr ref)"
  using assms(1)
proof (rule fs_put_Inr)
  fix path data
  assume h: "fs_path key = Inr path" "fs_tree st' path = Some (FReg data)" "ref = source_ref st' p key"
    "source_honest p \<Longrightarrow> int (length data) = src_object_bytes p \<and> hexdigest data = src_checksum p"
    "validate_pack_source p = Inr ()" "\<forall>a \<in> set (ancestors path). fs_tree st' a = Some FDir"
  have "(\<lambda>q. if q \<in> set (ancestors path) then Some FDir else fs_tree st' q) = fs_tree st'" using h(6) by auto
  then have "mkdir_parents st' path = Inr st'" using h(6) by (simp add: mkdir_parents_def list_all_iff)
  with h assms(2) show ?thesis
    by (simp add: fs_put_def existing_ref_def fs_size_def fs_checksum_def fs_open_def)
qed

theorem fs_put_idempotent_witness:
  "\<exists>st ref. fs_put None demo_source (lit ''a/b'') demo_store = (st, Inr ref)
     \<and> fs_put None demo_source (lit ''a/b'') st = (st, Inr ref)"
  using demo_put fs_put_idempotent [OF _ demo_source_ok(3)] by blast

text \<open>C10: a put under an occupied key raises \<^verbatim>\<open>PackConflictError\<close> when the object there has another size or
  another SHA-256, and publishes nothing.\<close>

theorem fs_put_conflict:
  assumes "validate_pack_source p = Inr ()" "fs_path key = Inr path" "fs_tree st path = Some (FReg data)"
    and "\<forall>a \<in> set (ancestors path). fs_tree st a = Some FDir"
    and "int (length data) \<noteq> src_object_bytes p \<or> hexdigest data \<noteq> src_checksum p"
  shows "fs_put other p key st = (st, Inl (Error PackConflictError ''object key contains different content''))"
proof -
  have "(\<lambda>q. if q \<in> set (ancestors path) then Some FDir else fs_tree st q) = fs_tree st" using assms(4) by auto
  then have "mkdir_parents st path = Inr st" using assms(4) by (simp add: mkdir_parents_def list_all_iff)
  with assms show ?thesis
    by (auto simp add: fs_put_def existing_ref_def fs_size_def fs_checksum_def fs_open_def)
qed

theorem fs_put_conflict_witness:
  "fs_put None demo_source (lit ''z'') demo_store_z
   = (demo_store_z, Inl (Error PackConflictError ''object key contains different content''))"
proof (rule fs_put_conflict [where path = "[lit ''z'']" and data = "[3]"])
  show "fs_path (lit ''z'') = Inr [lit ''z'']"
    by (simp add: fs_path_def validate_object_key_def posix_parts_def key_pattern_def is_alnum_def lit_def)
  show "validate_pack_source demo_source = Inr ()" by (rule demo_source_ok)
qed (simp_all add: demo_source_def ancestors_def upt_conv_Cons demo_store_z_def)

text \<open>The check on key components meant to refuse empty and \<^verbatim>\<open>.\<close> components never sees one, because the
  path type drops them first: such keys are accepted and name the same object as the key without them.\<close>

theorem empty_and_dot_components_alias:
  "validate_object_key (lit ''a//b'') = Inr [lit ''a'', lit ''b'']
   \<and> validate_object_key (lit ''a/./b'') = Inr [lit ''a'', lit ''b'']
   \<and> validate_object_key (lit ''a/b'') = Inr [lit ''a'', lit ''b'']"
  by (simp add: validate_object_key_def posix_parts_def key_pattern_def is_alnum_def lit_def)

end
