(* ===== verification/Pipeline.thy ===== *)
theory Pipeline
  imports PackStore
begin

text \<open>
  The host capture pipeline of \<^verbatim>\<open>storage/capture/pipeline.py\<close>: the bounded record queue, the pack assembler,
  the persistence worker and its counters. Blocking calls are modelled by their loop body: an attempt that
  must wait returns \<open>None\<close> and leaves the state alone, and a later attempt sees whatever other threads did in
  between. Operations that can raise after changing state return the state beside the result, because what a
  raise leaves behind matters here. Clocks and the pack-id factory are inputs.
\<close>

section \<open>The bounded queue\<close>

datatype admission_result = ACCEPTED | DROPPED | TIMED_OUT | TOO_LARGE | CLOSED

datatype overload_policy = BLOCK | DROP_NEWEST

datatype flush_reason = SIZE | RECORDS | LINGER | SESSION | MANUAL | SHUTDOWN

text \<open>A flush barrier is known by its number.\<close>

datatype queue_item = QRecord capture_record | QBarrier nat

record record_queue =
  bq_max_records :: int
  bq_max_bytes :: int
  bq_items :: "queue_item list"
  bq_records :: int
  bq_bytes :: int
  bq_peak_records :: int
  bq_peak_bytes :: int
  bq_closed :: bool

definition BoundedRecordQueue :: "int \<Rightarrow> int \<Rightarrow> record_queue result" where
  "BoundedRecordQueue max_records max_bytes =
     (if max_records \<le> 0 \<or> max_bytes \<le> 0 then Inl (Error ValueError ''queue limits must be positive'')
      else Inr \<lparr>bq_max_records = max_records, bq_max_bytes = max_bytes, bq_items = [], bq_records = 0,
                bq_bytes = 0, bq_peak_records = 0, bq_peak_bytes = 0, bq_closed = False\<rparr>)"

text \<open>\<^verbatim>\<open>timeout is not None and (isinstance(timeout, bool) or not math.isfinite(timeout) or timeout < 0)\<close>.\<close>

fun check_timeout :: "pyval \<Rightarrow> unit result" where
  "check_timeout PNone = Inr ()"
| "check_timeout (PInt i) = (if i < 0 then Inl (Error ValueError ''timeout must be non-negative'') else Inr ())"
| "check_timeout (PFloat (FNum q)) =
     (if q < 0 then Inl (Error ValueError ''timeout must be non-negative'') else Inr ())"
| "check_timeout (PFloat _) = Inl (Error ValueError ''timeout must be non-negative'')"
| "check_timeout (PBool _) = Inl (Error ValueError ''timeout must be non-negative'')"
| "check_timeout _ = Inl (Error TypeError ''must be real number'')"

definition queue_fits :: "record_queue \<Rightarrow> int \<Rightarrow> bool" where
  "queue_fits q record_bytes \<longleftrightarrow> bq_records q < bq_max_records q \<and> bq_bytes q + record_bytes \<le> bq_max_bytes q"

definition payload_bytes :: "capture_record \<Rightarrow> int" where
  "payload_bytes r = int (length (rec_payload r))"

text \<open>One pass of the admission loop; \<open>expired\<close> tells whether the deadline has passed.\<close>

definition queue_put :: "capture_record \<Rightarrow> overload_policy \<Rightarrow> bool \<Rightarrow> record_queue \<Rightarrow> admission_result option \<times> record_queue" where
  "queue_put r policy expired q =
     (if bq_max_bytes q < payload_bytes r then (Some TOO_LARGE, q)
      else if bq_closed q then (Some CLOSED, q)
      else if queue_fits q (payload_bytes r) then
        (Some ACCEPTED,
         q\<lparr>bq_items := bq_items q @ [QRecord r], bq_records := bq_records q + 1,
           bq_bytes := bq_bytes q + payload_bytes r,
           bq_peak_records := max (bq_peak_records q) (bq_records q + 1),
           bq_peak_bytes := max (bq_peak_bytes q) (bq_bytes q + payload_bytes r)\<rparr>)
      else if policy = DROP_NEWEST then (Some DROPPED, q)
      else if expired then (Some TIMED_OUT, q)
      else (None, q))"

definition put_barrier :: "nat \<Rightarrow> record_queue \<Rightarrow> admission_result \<times> record_queue" where
  "put_barrier b q =
     (if bq_closed q then (CLOSED, q) else (ACCEPTED, q\<lparr>bq_items := bq_items q @ [QBarrier b]\<rparr>))"

text \<open>One pass of the removal loop: \<open>None\<close> waits, \<open>Some None\<close> is the call returning \<^verbatim>\<open>None\<close>.\<close>

definition queue_get :: "bool \<Rightarrow> record_queue \<Rightarrow> queue_item option option \<times> record_queue" where
  "queue_get expired q =
     (case bq_items q of
        [] \<Rightarrow> if bq_closed q then (Some None, q) else if expired then (Some None, q) else (None, q)
      | QRecord r # items \<Rightarrow>
          (Some (Some (QRecord r)),
           q\<lparr>bq_items := items, bq_records := bq_records q - 1, bq_bytes := bq_bytes q - payload_bytes r\<rparr>)
      | QBarrier b # items \<Rightarrow> (Some (Some (QBarrier b)), q\<lparr>bq_items := items\<rparr>))"

definition queue_close :: "record_queue \<Rightarrow> record_queue" where
  "queue_close q = q\<lparr>bq_closed := True\<rparr>"

record queue_snapshot =
  qs_records :: int
  qs_bytes :: int
  qs_peak_records :: int
  qs_peak_bytes :: int
  qs_closed :: bool

definition queue_snapshot_of :: "record_queue \<Rightarrow> queue_snapshot" where
  "queue_snapshot_of q =
     \<lparr>qs_records = bq_records q, qs_bytes = bq_bytes q, qs_peak_records = bq_peak_records q,
      qs_peak_bytes = bq_peak_bytes q, qs_closed = bq_closed q\<rparr>"

section \<open>The pack assembler\<close>

record ready_pack =
  rp_pack :: sealed_pack
  rp_first_metadata :: capture_metadata
  rp_reason :: flush_reason

type_synonym scope = "pystr \<times> pystr \<times> int"

text \<open>The \<open>a_next\<close>-th identifier of the factory is the next one it will give out.\<close>

record assembler =
  a_max_pack_bytes :: int
  a_max_records :: int
  a_max_linger_ns :: int
  a_pack_id_factory :: "nat \<Rightarrow> uuid"
  a_next :: nat
  a_writer :: "pack_writer option"
  a_first_metadata :: "capture_metadata option"
  a_scope :: "scope option"
  a_opened_ns :: "int option"

definition PackAssembler :: "int \<Rightarrow> int \<Rightarrow> int \<Rightarrow> (nat \<Rightarrow> uuid) \<Rightarrow> assembler result" where
  "PackAssembler max_pack_bytes max_records max_linger_ns factory =
     (if max_pack_bytes \<le> 0 \<or> max_records \<le> 0 \<or> max_linger_ns \<le> 0
      then Inl (Error ValueError ''pack limits and linger must be positive'')
      else Inr \<lparr>a_max_pack_bytes = max_pack_bytes, a_max_records = max_records,
                a_max_linger_ns = max_linger_ns, a_pack_id_factory = factory, a_next = 0, a_writer = None,
                a_first_metadata = None, a_scope = None, a_opened_ns = None\<rparr>)"

definition record_scope :: "capture_record \<Rightarrow> scope" where
  "record_scope r =
     (let m = rec_metadata r in (md_tenant_id m, md_session_id m, md_producer_rank m))"

definition reset :: "assembler \<Rightarrow> assembler" where
  "reset a = a\<lparr>a_writer := None, a_first_metadata := None, a_scope := None, a_opened_ns := None\<rparr>"

definition adopt :: "pack_writer \<Rightarrow> capture_metadata \<Rightarrow> scope \<Rightarrow> int \<Rightarrow> assembler \<Rightarrow> assembler" where
  "adopt w m scope now_ns a =
     a\<lparr>a_writer := Some w, a_first_metadata := Some m, a_scope := Some scope, a_opened_ns := Some now_ns\<rparr>"

definition writer_with :: "capture_record \<Rightarrow> assembler \<Rightarrow> assembler \<times> pack_writer result" where
  "writer_with r a =
     (let a' = a\<lparr>a_next := Suc (a_next a)\<rparr> in
      case PackWriter (IdUUID (a_pack_id_factory a (a_next a))) (md_captured_at_ns (rec_metadata r))
             (a_max_pack_bytes a) (a_max_records a) of
        Inl e \<Rightarrow> (a', Inl e)
      | Inr w \<Rightarrow>
          (case pack_append r w of
             Inr w' \<Rightarrow> (a', Inr w')
           | Inl e \<Rightarrow>
               (a', Inl (if is_instance e PackCapacityError
                         then Error OversizedRecordError ''capture does not fit an empty pack'' else e))))"

definition flush :: "flush_reason \<Rightarrow> assembler \<Rightarrow> assembler \<times> ready_pack list result" where
  "flush reason a =
     (case a_writer a of
        None \<Rightarrow> (a, Inr [])
      | Some w \<Rightarrow>
          (case a_first_metadata a of
             None \<Rightarrow> (a, Inl (Error AssertionError ''first metadata''))
           | Some m \<Rightarrow>
               (case seal w of
                  Inl e \<Rightarrow> (a, Inl e)
                | Inr (sp, w') \<Rightarrow>
                    (reset a, Inr [\<lparr>rp_pack = sp, rp_first_metadata = m, rp_reason = reason\<rparr>]))))"

definition flush_expired :: "int \<Rightarrow> assembler \<Rightarrow> assembler \<times> ready_pack list result" where
  "flush_expired now_ns a =
     (case a_opened_ns a of
        None \<Rightarrow> (a, Inr [])
      | Some opened \<Rightarrow> if now_ns - opened < a_max_linger_ns a then (a, Inr []) else flush LINGER a)"

text \<open>\<^verbatim>\<open>seconds_until_expiry\<close> in nanoseconds.\<close>

definition ns_until_expiry :: "int \<Rightarrow> assembler \<Rightarrow> int option" where
  "ns_until_expiry now_ns a =
     map_option (\<lambda>opened. max 0 (a_max_linger_ns a - (now_ns - opened))) (a_opened_ns a)"

text \<open>The tail of \<^verbatim>\<open>append\<close>: a pack that reached the record limit leaves at once.\<close>

definition append_tail :: "ready_pack list \<Rightarrow> assembler \<Rightarrow> assembler \<times> ready_pack list result" where
  "append_tail emitted a =
     (case a_writer a of
        None \<Rightarrow> (a, Inl (Error AssertionError ''writer''))
      | Some w \<Rightarrow>
          if a_max_records a \<le> record_count w then
            (case flush RECORDS a of
               (a', Inl e) \<Rightarrow> (a', Inl e)
             | (a', Inr rest) \<Rightarrow> (a', Inr (emitted @ rest)))
          else (a, Inr emitted))"

text \<open>A fresh writer for \<open>r\<close> first, then the old pack leaves, then the fresh writer takes its place.\<close>

definition replace_writer :: "ready_pack list \<Rightarrow> flush_reason \<Rightarrow> capture_record \<Rightarrow> int \<Rightarrow> assembler \<Rightarrow> assembler \<times> ready_pack list result" where
  "replace_writer emitted reason r now_ns a =
     (case writer_with r a of
        (a1, Inl e) \<Rightarrow> (a1, Inl e)
      | (a1, Inr w) \<Rightarrow>
          (case flush reason a1 of
             (a2, Inl e) \<Rightarrow> (a2, Inl e)
           | (a2, Inr rest) \<Rightarrow>
               append_tail (emitted @ rest) (adopt w (rec_metadata r) (record_scope r) now_ns a2)))"

definition assembler_append :: "capture_record \<Rightarrow> int \<Rightarrow> assembler \<Rightarrow> assembler \<times> ready_pack list result" where
  "assembler_append r now_ns a =
     (if now_ns < 0 then (a, Inl (Error ValueError ''now_ns must be non-negative''))
      else
        case flush_expired now_ns a of
          (a1, Inl e) \<Rightarrow> (a1, Inl e)
        | (a1, Inr emitted) \<Rightarrow>
            (case a_writer a1 of
               None \<Rightarrow>
                 (case writer_with r a1 of
                    (a2, Inl e) \<Rightarrow> (a2, Inl e)
                  | (a2, Inr w) \<Rightarrow>
                      append_tail emitted (adopt w (rec_metadata r) (record_scope r) now_ns a2))
             | Some w \<Rightarrow>
                 if a_scope a1 \<noteq> Some (record_scope r) then replace_writer emitted SESSION r now_ns a1
                 else
                   (case pack_append r w of
                      Inr w' \<Rightarrow> append_tail emitted (a1\<lparr>a_writer := Some w'\<rparr>)
                    | Inl e \<Rightarrow>
                        if is_instance e PackCapacityError
                        then replace_writer emitted
                               (if a_max_records a1 \<le> record_count w then RECORDS else SIZE) r now_ns a1
                        else (a1, Inl e))))"

section \<open>Object keys of packs\<close>

text \<open>\<^verbatim>\<open>datetime.fromtimestamp(s, tz=timezone.utc)\<close> formatted \<^verbatim>\<open>%Y-%m-%d\<close>, for \<open>s \<ge> 0\<close>: days are counted in
  400-year eras that start on 1 March.\<close>

definition civil_from_days :: "nat \<Rightarrow> nat \<times> nat \<times> nat" where
  "civil_from_days days =
     (let z = days + 719468; era = z div 146097; doe = z mod 146097;
          yoe = (doe - doe div 1460 + doe div 36524 - doe div 146096) div 365;
          doy = doe - (365 * yoe + yoe div 4 - yoe div 100);
          mp = (5 * doy + 2) div 153; d = doy - (153 * mp + 2) div 5 + 1;
          m = (if mp < 10 then mp + 3 else mp - 9);
          y = yoe + era * 400 + (if m \<le> 2 then 1 else 0)
      in (y, m, d))"

definition zero_pad :: "nat \<Rightarrow> nat \<Rightarrow> pystr" where
  "zero_pad k n = (let s = dec_of_nat n in replicate (k - length s) 48 @ s)"

definition date_text :: "int \<Rightarrow> pystr" where
  "date_text secs =
     (case civil_from_days (nat (secs div 86400)) of
        (y, m, d) \<Rightarrow> zero_pad 4 y @ [45] @ zero_pad 2 m @ [45] @ zero_pad 2 d)"

definition object_key_for :: "ready_pack \<Rightarrow> pystr result" where
  "object_key_for ready =
     (let m = rp_first_metadata ready in
      rbind (key_component (md_tenant_id m)) (\<lambda>tenant.
      rbind (key_component (md_session_id m)) (\<lambda>session.
        Inr (lit ''v1/tenant='' @ tenant @ lit ''/date='' @ date_text (md_captured_at_ns m div 1000000000)
             @ lit ''/session='' @ session @ lit ''/rank='' @ dec_of_int (md_producer_rank m)
             @ lit ''/'' @ sp_pack_id (rp_pack ready) @ lit ''.dmi-pack''))))"

text \<open>\<^verbatim>\<open>DirectPackSink\<close> over the filesystem store.\<close>

record direct_sink =
  ds_store :: fs_store
  ds_last_ref :: "pack_ref option"

definition direct_persist :: "fnode option \<Rightarrow> direct_sink \<Rightarrow> ready_pack \<Rightarrow> direct_sink \<times> pack_ref result" where
  "direct_persist other s ready =
     (case object_key_for ready of
        Inl e \<Rightarrow> (s, Inl e)
      | Inr key \<Rightarrow>
          (case fs_put other (sealed_source (rp_pack ready)) key (ds_store s) of
             (st, Inl e) \<Rightarrow> (s\<lparr>ds_store := st\<rparr>, Inl e)
           | (st, Inr ref) \<Rightarrow> (\<lparr>ds_store = st, ds_last_ref = Some ref\<rparr>, Inr ref)))"

section \<open>Latency histograms\<close>

definition BOUNDS_NS :: "int list" where
  "BOUNDS_NS = [10000, 100000, 1000000, 10000000, 100000000, 1000000000]"

record histogram =
  h_counts :: "int list"
  h_count :: int
  h_total_ns :: int
  h_max_ns :: int

definition Histogram :: histogram where
  "Histogram = \<lparr>h_counts = replicate (length BOUNDS_NS + 1) 0, h_count = 0, h_total_ns = 0, h_max_ns = 0\<rparr>"

fun first_bucket :: "int \<Rightarrow> int list \<Rightarrow> nat" where
  "first_bucket d [] = 0"
| "first_bucket d (b # bs) = (if d \<le> b then 0 else Suc (first_bucket d bs))"

definition observe :: "int \<Rightarrow> histogram \<Rightarrow> histogram" where
  "observe duration_ns h =
     (let bucket = first_bucket duration_ns BOUNDS_NS in
      \<lparr>h_counts = (h_counts h)[bucket := h_counts h ! bucket + 1], h_count = h_count h + 1,
       h_total_ns = h_total_ns h + duration_ns, h_max_ns = max (h_max_ns h) duration_ns\<rparr>)"

section \<open>The pipeline\<close>

record counters =
  c_submitted_records :: int
  c_admitted_records :: int
  c_admitted_bytes :: int
  c_dropped_records :: int
  c_timed_out_records :: int
  c_oversized_records :: int
  c_duplicate_records :: int
  c_rejected_closed_records :: int
  c_persisted_records :: int
  c_packs_persisted :: int
  c_packed_bytes :: int
  c_flush :: "flush_reason \<Rightarrow> int"
  c_failures :: int
  c_event_callback_failures :: int

definition zero_counters :: counters where
  "zero_counters =
     \<lparr>c_submitted_records = 0, c_admitted_records = 0, c_admitted_bytes = 0, c_dropped_records = 0,
      c_timed_out_records = 0, c_oversized_records = 0, c_duplicate_records = 0,
      c_rejected_closed_records = 0, c_persisted_records = 0, c_packs_persisted = 0, c_packed_bytes = 0,
      c_flush = (\<lambda>_. 0), c_failures = 0, c_event_callback_failures = 0\<rparr>"

record pipeline_config =
  cfg_max_queue_records :: int
  cfg_max_queue_bytes :: int
  cfg_max_pack_bytes :: int
  cfg_max_pack_records :: int
  cfg_max_linger_ns :: int
  cfg_overload_policy :: overload_policy
  cfg_admission_timeout :: pyval

definition PipelineConfig :: "pipeline_config \<Rightarrow> pipeline_config result" where
  "PipelineConfig c =
     (if \<not> list_all (\<lambda>v. 0 < v)
            [cfg_max_queue_records c, cfg_max_queue_bytes c, cfg_max_pack_bytes c, cfg_max_pack_records c,
             cfg_max_linger_ns c]
      then Inl (Error ValueError ''pipeline bounds must be positive'')
      else rbind (check_timeout (cfg_admission_timeout c)) (\<lambda>_. Inr c))"

record flush_barrier =
  fb_target_admitted :: int
  fb_completed :: bool
  fb_error :: "error option"

text \<open>\<open>p_callback\<close> tells of each event whether the callback raises; \<open>p_worker\<close> is the thread.\<close>

datatype worker = NotStarted | Running | Stopped

record 's pipeline =
  p_config :: pipeline_config
  p_sink :: 's
  p_callback :: "(string \<Rightarrow> bool) option"
  p_queue :: record_queue
  p_assembler :: assembler
  p_worker :: worker
  p_pending_flush :: "nat option"
  p_barriers :: "flush_barrier list"
  p_error :: "error option"
  p_counters :: counters
  p_admission_duration :: histogram
  p_persist_duration :: histogram

definition HostCapturePipeline ::
  "pipeline_config \<Rightarrow> 's \<Rightarrow> (nat \<Rightarrow> uuid) \<Rightarrow> (string \<Rightarrow> bool) option \<Rightarrow> 's pipeline result" where
  "HostCapturePipeline c sink factory callback =
     rbind (BoundedRecordQueue (cfg_max_queue_records c) (cfg_max_queue_bytes c)) (\<lambda>q.
     rbind (PackAssembler (cfg_max_pack_bytes c) (cfg_max_pack_records c) (cfg_max_linger_ns c) factory) (\<lambda>a.
       Inr \<lparr>p_config = c, p_sink = sink, p_callback = callback, p_queue = q, p_assembler = a,
            p_worker = NotStarted, p_pending_flush = None, p_barriers = [], p_error = None,
            p_counters = zero_counters, p_admission_duration = Histogram, p_persist_duration = Histogram\<rparr>))"

definition start :: "'s pipeline \<Rightarrow> 's pipeline result" where
  "start p =
     (if p_worker p \<noteq> NotStarted then Inl (Error RuntimeError ''pipeline has already been started'')
      else Inr (p\<lparr>p_worker := Running\<rparr>))"

definition is_running :: "'s pipeline \<Rightarrow> bool" where
  "is_running p \<longleftrightarrow> p_worker p = Running \<and> p_error p = None \<and> \<not> bq_closed (p_queue p)"

definition count :: "(counters \<Rightarrow> counters) \<Rightarrow> 's pipeline \<Rightarrow> 's pipeline" where
  "count f p = p\<lparr>p_counters := f (p_counters p)\<rparr>"

definition emit :: "string \<Rightarrow> 's pipeline \<Rightarrow> 's pipeline" where
  "emit event p =
     (case p_callback p of
        None \<Rightarrow> p
      | Some raises \<Rightarrow>
          if raises event
          then count (\<lambda>c. c\<lparr>c_event_callback_failures := c_event_callback_failures c + 1\<rparr>) p
          else p)"

text \<open>Entering \<^verbatim>\<open>submit\<close>: the call is counted, and a failed pipeline or a payload that no pack could hold is
  answered at once (\<open>Some\<close>).\<close>

definition submit_enter :: "capture_record \<Rightarrow> 's pipeline \<Rightarrow> 's pipeline \<times> admission_result option result" where
  "submit_enter r p =
     (if p_worker p = NotStarted then (p, Inl (Error RuntimeError ''pipeline is not started''))
      else
        let p1 = count (\<lambda>c. c\<lparr>c_submitted_records := c_submitted_records c + 1\<rparr>) p
        in if p_error p \<noteq> None then (p1, Inl (Error PipelineFailedError ''capture pipeline failed''))
           else if cfg_max_pack_bytes (p_config p) < payload_bytes r
           then (count (\<lambda>c. c\<lparr>c_oversized_records := c_oversized_records c + 1\<rparr>) p1, Inr (Some TOO_LARGE))
           else (p1, Inr None))"

definition count_admission :: "capture_record \<Rightarrow> admission_result \<Rightarrow> counters \<Rightarrow> counters" where
  "count_admission r res c =
     (case res of
        ACCEPTED \<Rightarrow> c\<lparr>c_admitted_records := c_admitted_records c + 1,
                      c_admitted_bytes := c_admitted_bytes c + payload_bytes r\<rparr>
      | DROPPED \<Rightarrow> c\<lparr>c_dropped_records := c_dropped_records c + 1\<rparr>
      | TIMED_OUT \<Rightarrow> c\<lparr>c_timed_out_records := c_timed_out_records c + 1\<rparr>
      | TOO_LARGE \<Rightarrow> c\<lparr>c_oversized_records := c_oversized_records c + 1\<rparr>
      | CLOSED \<Rightarrow> c\<lparr>c_rejected_closed_records := c_rejected_closed_records c + 1\<rparr>)"

text \<open>One pass of the admission loop inside \<^verbatim>\<open>submit\<close>; \<open>None\<close> keeps waiting.\<close>

definition submit_try :: "capture_record \<Rightarrow> bool \<Rightarrow> int \<Rightarrow> 's pipeline \<Rightarrow> 's pipeline \<times> admission_result option" where
  "submit_try r expired duration p =
     (case queue_put r (cfg_overload_policy (p_config p)) expired (p_queue p) of
        (None, q) \<Rightarrow> (p, None)
      | (Some res, q) \<Rightarrow>
          (count (count_admission r res)
             (p\<lparr>p_queue := q, p_admission_duration := observe (max 0 duration) (p_admission_duration p)\<rparr>),
           Some res))"

text \<open>\<^verbatim>\<open>submit\<close> when its admission does not have to wait.\<close>

definition submit :: "capture_record \<Rightarrow> bool \<Rightarrow> int \<Rightarrow> 's pipeline \<Rightarrow> 's pipeline \<times> admission_result option result" where
  "submit r expired duration p =
     (case submit_enter r p of
        (p1, Inl e) \<Rightarrow> (p1, Inl e)
      | (p1, Inr (Some res)) \<Rightarrow> (p1, Inr (Some res))
      | (p1, Inr None) \<Rightarrow> (case submit_try r expired duration p1 of (p2, res) \<Rightarrow> (p2, Inr res)))"

section \<open>The persistence worker\<close>

type_synonym 's sink = "'s \<Rightarrow> ready_pack \<Rightarrow> 's \<times> unit result"

definition count_persist :: "ready_pack \<Rightarrow> counters \<Rightarrow> counters" where
  "count_persist ready c =
     c\<lparr>c_persisted_records := c_persisted_records c + sp_record_count (rp_pack ready),
       c_packs_persisted := c_packs_persisted c + 1,
       c_packed_bytes := c_packed_bytes c + object_bytes (rp_pack ready),
       c_flush := (c_flush c)(rp_reason ready := c_flush c (rp_reason ready) + 1)\<rparr>"

fun persist_all :: "'s sink \<Rightarrow> (ready_pack \<Rightarrow> int) \<Rightarrow> ready_pack list \<Rightarrow> 's pipeline \<Rightarrow> 's pipeline \<times> unit result" where
  "persist_all persist duration [] p = (p, Inr ())"
| "persist_all persist duration (ready # packs) p =
     (case persist (p_sink p) ready of
        (s, Inl e) \<Rightarrow> (p\<lparr>p_sink := s\<rparr>, Inl e)
      | (s, Inr _) \<Rightarrow>
          persist_all persist duration packs
            (emit ''pack_persisted''
               (count (count_persist ready)
                  (p\<lparr>p_sink := s,
                     p_persist_duration := observe (max 0 (duration ready)) (p_persist_duration p)\<rparr>))))"

definition complete_barrier :: "nat \<Rightarrow> error option \<Rightarrow> 's pipeline \<Rightarrow> 's pipeline" where
  "complete_barrier b err p =
     p\<lparr>p_barriers := (p_barriers p)[b := (p_barriers p ! b)
        \<lparr>fb_completed := True,
         fb_error := (case err of None \<Rightarrow> fb_error (p_barriers p ! b) | Some e \<Rightarrow> Some e)\<rparr>]\<rparr>"

text \<open>The handler of \<^verbatim>\<open>_run\<close>: the error is latched, the queue closed, the published waiter released.\<close>

definition fail_worker :: "error \<Rightarrow> 's pipeline \<Rightarrow> 's pipeline" where
  "fail_worker e p =
     (let p1 = count (\<lambda>c. c\<lparr>c_failures := c_failures c + 1\<rparr>) (p\<lparr>p_error := Some e\<rparr>);
          p2 = p1\<lparr>p_queue := queue_close (p_queue p1)\<rparr>;
          p3 = (case p_pending_flush p2 of
                  None \<Rightarrow> p2
                | Some b \<Rightarrow> if fb_completed (p_barriers p2 ! b) then p2 else complete_barrier b (Some e) p2)
      in emit ''pipeline_failed'' (p3\<lparr>p_worker := Stopped\<rparr>))"

definition persist_or_fail :: "'s sink \<Rightarrow> (ready_pack \<Rightarrow> int) \<Rightarrow> assembler \<times> ready_pack list result \<Rightarrow> 's pipeline \<Rightarrow> 's pipeline \<times> unit result" where
  "persist_or_fail persist duration res p =
     (case res of
        (a, Inl e) \<Rightarrow> (p\<lparr>p_assembler := a\<rparr>, Inl e)
      | (a, Inr packs) \<Rightarrow> persist_all persist duration packs (p\<lparr>p_assembler := a\<rparr>))"

text \<open>The branch of the worker loop for \<^verbatim>\<open>get\<close> returning \<^verbatim>\<open>None\<close>; it reads the queue again.\<close>

definition run_idle :: "'s sink \<Rightarrow> (ready_pack \<Rightarrow> int) \<Rightarrow> int \<Rightarrow> 's pipeline \<Rightarrow> 's pipeline" where
  "run_idle persist duration now p =
     (if bq_closed (p_queue p) \<and> bq_records (p_queue p) = 0 then
        (case persist_or_fail persist duration (flush SHUTDOWN (p_assembler p)) p of
           (p1, Inl e) \<Rightarrow> fail_worker e p1
         | (p1, Inr _) \<Rightarrow> p1\<lparr>p_worker := Stopped\<rparr>)
      else
        (case persist_or_fail persist duration (flush_expired now (p_assembler p)) p of
           (p1, Inl e) \<Rightarrow> fail_worker e p1
         | (p1, Inr _) \<Rightarrow> p1))"

text \<open>One pass of the worker loop: \<open>expired\<close> is the queue wait running out, \<open>now\<close> the clock read afterwards.\<close>

definition run_step :: "'s sink \<Rightarrow> (ready_pack \<Rightarrow> int) \<Rightarrow> bool \<Rightarrow> int \<Rightarrow> 's pipeline \<Rightarrow> 's pipeline" where
  "run_step persist duration expired now p =
     (if p_worker p \<noteq> Running then p
      else case queue_get expired (p_queue p) of
        (None, q) \<Rightarrow> p
      | (Some None, q) \<Rightarrow> run_idle persist duration now p
      | (Some (Some (QBarrier b)), q) \<Rightarrow>
          (case persist_or_fail persist duration (flush MANUAL (p_assembler p)) (p\<lparr>p_queue := q\<rparr>) of
             (p1, Inl e) \<Rightarrow> fail_worker e (complete_barrier b (Some e) p1)
           | (p1, Inr _) \<Rightarrow> complete_barrier b None p1)
      | (Some (Some (QRecord r)), q) \<Rightarrow>
          (case assembler_append r now (p_assembler p) of
             (a, Inl e) \<Rightarrow>
               let p1 = p\<lparr>p_queue := q, p_assembler := a\<rparr> in
               if is_instance e OversizedRecordError
               then emit ''record_oversized''
                      (count (\<lambda>c. c\<lparr>c_oversized_records := c_oversized_records c + 1\<rparr>) p1)
               else if is_instance e DuplicateCaptureError
               then emit ''record_duplicate''
                      (count (\<lambda>c. c\<lparr>c_duplicate_records := c_duplicate_records c + 1\<rparr>) p1)
               else fail_worker e p1
           | (a, Inr packs) \<Rightarrow>
               (case persist_all persist duration packs (p\<lparr>p_queue := q, p_assembler := a\<rparr>) of
                  (p1, Inl e) \<Rightarrow> fail_worker e p1
                | (p1, Inr _) \<Rightarrow> p1)))"

section \<open>Flushing and closing\<close>

definition raise_if_failed :: "'s pipeline \<Rightarrow> unit result" where
  "raise_if_failed p = require (p_error p = None) PipelineFailedError ''capture pipeline failed''"

text \<open>The phases of \<^verbatim>\<open>flush\<close> between which other threads run. \<open>flush_target\<close> reads how many records it must
  cover; \<open>flush_pending\<close> settles an earlier barrier (\<open>None\<close> goes on to publish its own).\<close>

definition flush_target :: "'s pipeline \<Rightarrow> int result" where
  "flush_target p =
     (if p_worker p = NotStarted then Inl (Error RuntimeError ''pipeline is not started'')
      else Inr (c_admitted_records (p_counters p)))"

definition clear_pending :: "nat \<Rightarrow> 's pipeline \<Rightarrow> 's pipeline" where
  "clear_pending b p = (if p_pending_flush p = Some b then p\<lparr>p_pending_flush := None\<rparr> else p)"

definition flush_pending :: "int \<Rightarrow> 's pipeline \<Rightarrow> 's pipeline \<times> bool option result" where
  "flush_pending target p =
     (if p_error p \<noteq> None then (p, Inl (Error PipelineFailedError ''capture pipeline failed''))
      else case p_pending_flush p of
        None \<Rightarrow> (p, Inr None)
      | Some b \<Rightarrow>
          if \<not> fb_completed (p_barriers p ! b) then (p, Inr (Some False))
          else if fb_error (p_barriers p ! b) \<noteq> None
          then (p, Inl (Error PipelineFailedError ''capture pipeline failed''))
          else (clear_pending b p,
                Inr (if target \<le> fb_target_admitted (p_barriers p ! b) then Some True else None)))"

definition flush_publish :: "int \<Rightarrow> 's pipeline \<Rightarrow> nat \<times> 's pipeline" where
  "flush_publish target p =
     (let b = length (p_barriers p) in
      (b, p\<lparr>p_barriers := p_barriers p @ [\<lparr>fb_target_admitted = target, fb_completed = False, fb_error = None\<rparr>],
            p_pending_flush := Some b\<rparr>))"

text \<open>Queueing the barrier, and the re-read of the latched error after it.\<close>

definition flush_enqueue :: "nat \<Rightarrow> 's pipeline \<Rightarrow> 's pipeline \<times> bool option result" where
  "flush_enqueue b p =
     (case put_barrier b (p_queue p) of
        (CLOSED, q) \<Rightarrow>
          (clear_pending b p,
           if p_error p \<noteq> None then Inl (Error PipelineFailedError ''capture pipeline failed'')
           else Inr (Some False))
      | (_, q) \<Rightarrow> (p\<lparr>p_queue := q\<rparr>, Inr None))"

definition flush_recheck :: "nat \<Rightarrow> 's pipeline \<Rightarrow> 's pipeline \<times> bool option result" where
  "flush_recheck b p =
     (if p_error p \<noteq> None then (clear_pending b p, Inl (Error PipelineFailedError ''capture pipeline failed''))
      else (p, Inr None))"

text \<open>The final wait: \<open>expired\<close> gives up.\<close>

definition flush_await :: "nat \<Rightarrow> bool \<Rightarrow> 's pipeline \<Rightarrow> 's pipeline \<times> bool option result" where
  "flush_await b expired p =
     (if \<not> fb_completed (p_barriers p ! b) then (p, Inr (if expired then Some False else None))
      else if fb_error (p_barriers p ! b) \<noteq> None
      then (p, Inl (Error PipelineFailedError ''capture pipeline failed''))
      else (clear_pending b p, Inr (Some True)))"

definition close_begin :: "'s pipeline \<Rightarrow> 's pipeline \<times> unit result" where
  "close_begin p =
     (p\<lparr>p_queue := queue_close (p_queue p)\<rparr>,
      require (p_worker p \<noteq> NotStarted) RuntimeError ''pipeline is not started'')"

record pipeline_snapshot =
  ps_counters :: counters
  ps_queue :: queue_snapshot
  ps_admission_duration :: histogram
  ps_persist_duration :: histogram

definition pipeline_snapshot_of :: "'s pipeline \<Rightarrow> pipeline_snapshot" where
  "pipeline_snapshot_of p =
     \<lparr>ps_counters = p_counters p, ps_queue = queue_snapshot_of (p_queue p),
      ps_admission_duration = p_admission_duration p, ps_persist_duration = p_persist_duration p\<rparr>"

definition close_finish :: "'s pipeline \<Rightarrow> pipeline_snapshot result" where
  "close_finish p =
     (if p_worker p = Running
      then Inl (Error TimeoutError ''capture pipeline did not stop before timeout'')
      else rbind (raise_if_failed p) (\<lambda>_. Inr (pipeline_snapshot_of p)))"

section \<open>The queue is a bounded FIFO\<close>

fun records_of :: "queue_item list \<Rightarrow> capture_record list" where
  "records_of [] = []"
| "records_of (QRecord r # items) = r # records_of items"
| "records_of (QBarrier b # items) = records_of items"

lemma records_of_append [simp]: "records_of (xs @ ys) = records_of xs @ records_of ys"
  by (induction xs rule: records_of.induct) auto

definition queue_ok :: "record_queue \<Rightarrow> bool" where
  "queue_ok q \<longleftrightarrow>
     bq_records q = int (length (records_of (bq_items q)))
     \<and> bq_bytes q = sum_list (map payload_bytes (records_of (bq_items q)))
     \<and> bq_records q \<le> bq_peak_records q \<and> bq_peak_records q \<le> bq_max_records q
     \<and> bq_bytes q \<le> bq_peak_bytes q \<and> bq_peak_bytes q \<le> bq_max_bytes q"

text \<open>Runs of a queue by any interleaving of its operations, with the records accepted and delivered so far.\<close>

inductive queue_run :: "int \<Rightarrow> int \<Rightarrow> capture_record list \<Rightarrow> capture_record list \<Rightarrow> record_queue \<Rightarrow> bool"
  for max_records max_bytes where
  new: "BoundedRecordQueue max_records max_bytes = Inr q \<Longrightarrow> queue_run max_records max_bytes [] [] q"
| put: "queue_run max_records max_bytes acc del q \<Longrightarrow> queue_put r policy expired q = (res, q')
    \<Longrightarrow> queue_run max_records max_bytes (if res = Some ACCEPTED then acc @ [r] else acc) del q'"
| barrier: "queue_run max_records max_bytes acc del q
    \<Longrightarrow> queue_run max_records max_bytes acc del (snd (put_barrier b q))"
| get: "queue_run max_records max_bytes acc del q \<Longrightarrow> queue_get expired q = (res, q')
    \<Longrightarrow> queue_run max_records max_bytes acc
          (case res of Some (Some (QRecord r)) \<Rightarrow> del @ [r] | _ \<Rightarrow> del) q'"
| close: "queue_run max_records max_bytes acc del q \<Longrightarrow> queue_run max_records max_bytes acc del (queue_close q)"

lemma queue_put_ok:
  assumes "queue_put r policy expired q = (res, q')" "queue_ok q"
  shows "queue_ok q'" "bq_max_records q' = bq_max_records q" "bq_max_bytes q' = bq_max_bytes q"
    "records_of (bq_items q') = records_of (bq_items q) @ (if res = Some ACCEPTED then [r] else [])"
  using assms by (auto simp: queue_put_def queue_ok_def queue_fits_def split: if_splits)

lemma queue_get_ok:
  assumes "queue_get expired q = (res, q')" "queue_ok q"
  shows "queue_ok q'" "bq_max_records q' = bq_max_records q" "bq_max_bytes q' = bq_max_bytes q"
    "records_of (bq_items q) = (case res of Some (Some (QRecord r)) \<Rightarrow> [r] | _ \<Rightarrow> []) @ records_of (bq_items q')"
  using assms
  by (auto simp: queue_get_def queue_ok_def payload_bytes_def split: list.splits queue_item.splits if_splits)

lemma queue_run_inv:
  assumes "queue_run mr mb acc del q"
  shows "queue_ok q \<and> acc = del @ records_of (bq_items q) \<and> bq_max_records q = mr \<and> bq_max_bytes q = mb"
  using assms
proof induction
  case (new q)
  then show ?case by (auto simp: BoundedRecordQueue_def queue_ok_def split: if_splits)
next
  case (put acc del q r policy expired res q')
  with queue_put_ok [OF put.hyps(2)] show ?case by auto
next
  case (barrier acc del q b)
  then show ?case by (auto simp: put_barrier_def queue_ok_def)
next
  case (get acc del q expired res q')
  with queue_get_ok [OF get.hyps(2)] show ?case by (auto split: option.splits queue_item.splits)
next
  case (close acc del q)
  then show ?case by (auto simp: queue_close_def queue_ok_def)
qed

section \<open>The assembler keeps every record\<close>

definition of_scope :: "scope \<Rightarrow> capture_record list \<Rightarrow> bool" where
  "of_scope sc rs \<longleftrightarrow> list_all (\<lambda>r. record_scope r = sc) rs"

lemma of_scope_simps [simp]: "of_scope sc []" "of_scope sc (r # rs) \<longleftrightarrow> record_scope r = sc \<and> of_scope sc rs"
  "of_scope sc (rs @ rs') \<longleftrightarrow> of_scope sc rs \<and> of_scope sc rs'"
  by (simp_all add: of_scope_def)

text \<open>\<open>pack_of rs ready\<close>: the emitted pack reads back to exactly the records \<open>rs\<close>.\<close>

definition pack_of :: "int \<Rightarrow> capture_record list \<Rightarrow> ready_pack \<Rightarrow> bool" where
  "pack_of limit rs ready \<longleftrightarrow>
     rs \<noteq> [] \<and> rp_first_metadata ready = rec_metadata (hd rs)
     \<and> of_scope (record_scope (hd rs)) rs
     \<and> sp_record_count (rp_pack ready) = int (length rs) \<and> object_bytes (rp_pack ready) \<le> limit
     \<and> sp_checksum (rp_pack ready) = hexdigest (sp_data (rp_pack ready))
     \<and> (\<exists>rd. from_bytes (sp_data (rp_pack ready)) = Inr rd \<and> rd_pack_id rd = sp_pack_id (rp_pack ready)
          \<and> map ix_metadata (rd_records rd) = map rec_metadata rs
          \<and> list_all2 (\<lambda>r i. read_payload rd (descriptor_of (reader_ref rd [] []) i) = Inr (rec_payload r))
              rs (rd_records rd))"

definition asm_params_ok :: "assembler \<Rightarrow> bool" where
  "asm_params_ok a \<longleftrightarrow> a_max_pack_bytes a < 2 ^ 64 \<and> (\<forall>n. a_pack_id_factory a n < 2 ^ 128)"

text \<open>\<open>asm_inv rs a\<close>: the open pack of \<open>a\<close> holds exactly \<open>rs\<close>, all of one scope; without an open pack \<open>rs\<close> is
  empty and every field of the open pack is unset.\<close>

definition asm_inv :: "capture_record list \<Rightarrow> assembler \<Rightarrow> bool" where
  "asm_inv rs a \<longleftrightarrow> asm_params_ok a \<and>
     (case a_writer a of
        None \<Rightarrow> rs = [] \<and> a_opened_ns a = None
      | Some w \<Rightarrow>
          rs \<noteq> [] \<and> writer_inv rs w \<and> w_max_pack_bytes w = a_max_pack_bytes a
          \<and> a_first_metadata a = Some (rec_metadata (hd rs)) \<and> a_scope a = Some (record_scope (hd rs))
          \<and> of_scope (record_scope (hd rs)) rs \<and> a_opened_ns a \<noteq> None)"

lemma seal_checksum: "seal w = Inr (sp, w') \<Longrightarrow> sp_checksum sp = hexdigest (sp_data sp)"
  by (auto simp: seal_def Let_def rbind_eq_Inr split: if_splits)

lemma flush_inv:
  assumes "asm_inv rs a" "rs \<noteq> []"
  shows "\<exists>ready. flush reason a = (reset a, Inr [ready]) \<and> pack_of (a_max_pack_bytes a) rs ready
     \<and> rp_reason ready = reason"
proof -
  obtain w where w0: "a_writer a = Some w" using assms by (cases "a_writer a") (simp_all add: asm_inv_def)
  then have w: "a_writer a = Some w" "writer_inv rs w" "w_max_pack_bytes w = a_max_pack_bytes a"
    "a_first_metadata a = Some (rec_metadata (hd rs))" "of_scope (record_scope (hd rs)) rs"
    "a_max_pack_bytes a < 2 ^ 64"
    using assms by (simp_all add: asm_inv_def asm_params_ok_def)
  then have mb: "w_max_pack_bytes w < 2 ^ 64" by simp
  obtain sp w' rd where s: "seal w = Inr (sp, w')" "from_bytes (sp_data sp) = Inr rd" "rd_pack_id rd = sp_pack_id sp"
    "sp_record_count sp = int (length rs)" "int (length (sp_data sp)) \<le> w_max_pack_bytes w"
    "map ix_metadata (rd_records rd) = map rec_metadata rs"
    "list_all2 (\<lambda>r i. read_payload rd (descriptor_of (reader_ref rd [] []) i) = Inr (rec_payload r)) rs (rd_records rd)"
    using inv_sealed_readable [OF w(2) assms(2) mb, of "[]" "[]"] by (elim exE conjE)
  show ?thesis using w s assms(2) seal_checksum [OF s(1)] by (simp add: flush_def pack_of_def object_bytes_def)
qed

lemma flush_empty: "asm_inv [] a \<Longrightarrow> flush reason a = (a, Inr [])"
  by (auto simp: asm_inv_def flush_def split: option.splits)

lemma asm_inv_reset: "asm_inv rs a \<Longrightarrow> asm_inv [] (reset a)"
  by (auto simp: asm_inv_def reset_def asm_params_ok_def split: option.splits)

text \<open>Flushing, in one statement: the open records leave in at most one pack.\<close>

lemma flush_cases:
  assumes "asm_inv rs a"
  obtains packs rss where "flush reason a = (if rs = [] then a else reset a, Inr packs)" "concat rss = rs"
    "list_all2 (pack_of (a_max_pack_bytes a)) rss packs" "asm_inv [] (if rs = [] then a else reset a)"
proof (cases "rs = []")
  case True
  with assms flush_empty show ?thesis by (intro that [of "[]" "[]"]) auto
next
  case False
  obtain ready where "flush reason a = (reset a, Inr [ready])" "pack_of (a_max_pack_bytes a) rs ready"
    using flush_inv [OF assms False, of reason] by blast
  with False asm_inv_reset [OF assms] show ?thesis by (intro that [of "[ready]" "[rs]"]) simp_all
qed

lemma writer_with_Inr:
  assumes "writer_with r a = (a', Inr w)" "record_ok r" "asm_params_ok a"
  shows "writer_inv [r] w" "w_max_pack_bytes w = a_max_pack_bytes a" "a' = a\<lparr>a_next := Suc (a_next a)\<rparr>"
proof -
  obtain w0 where w0: "PackWriter (IdUUID (a_pack_id_factory a (a_next a))) (md_captured_at_ns (rec_metadata r))
             (a_max_pack_bytes a) (a_max_records a) = Inr w0" "pack_append r w0 = Inr w"
    using assms(1) by (auto simp: writer_with_def Let_def split: sum.splits)
  have "pack_id_arg_ok (IdUUID (a_pack_id_factory a (a_next a)))"
    using assms(3) by (simp add: pack_id_arg_ok_def asm_params_ok_def)
  from writer_inv_append [OF w0(2) assms(2) writer_inv_init [OF w0(1) this]] show "writer_inv [r] w" by simp
  show "w_max_pack_bytes w = a_max_pack_bytes a"
    using append_Inr(4) [OF w0(2)] PackWriter_footer(10) [OF w0(1)] by simp
  show "a' = a\<lparr>a_next := Suc (a_next a)\<rparr>" using assms(1) by (auto simp: writer_with_def Let_def split: sum.splits)
qed

lemma writer_with_state: "fst (writer_with r a) = a\<lparr>a_next := Suc (a_next a)\<rparr>"
  by (auto simp: writer_with_def Let_def split: sum.splits)

lemma asm_inv_next [simp]: "asm_inv rs (a\<lparr>a_next := n\<rparr>) = asm_inv rs a"
  by (simp add: asm_inv_def asm_params_ok_def split: option.splits)

lemma asm_inv_adopt:
  assumes "writer_inv [r] w" "w_max_pack_bytes w = a_max_pack_bytes a" "asm_params_ok a"
  shows "asm_inv [r] (adopt w (rec_metadata r) (record_scope r) now_ns a)"
  using assms by (simp add: asm_inv_def adopt_def asm_params_ok_def)

lemma append_tail_inv:
  assumes "asm_inv rs a" "rs \<noteq> []"
  shows "\<exists>a' packs rss rs'. append_tail emitted a = (a', Inr (emitted @ packs)) \<and> rs = concat rss @ rs'
     \<and> list_all2 (pack_of (a_max_pack_bytes a)) rss packs \<and> asm_inv rs' a' \<and> a_max_pack_bytes a' = a_max_pack_bytes a"
proof -
  obtain w where w: "a_writer a = Some w" using assms by (auto simp: asm_inv_def split: option.splits)
  show ?thesis
  proof (cases "a_max_records a \<le> record_count w")
    case True
    obtain packs rss where f: "flush RECORDS a = (reset a, Inr packs)" "concat rss = rs"
      "list_all2 (pack_of (a_max_pack_bytes a)) rss packs" "asm_inv [] (reset a)"
      using flush_cases [OF assms(1), of RECORDS] assms(2) by auto
    show ?thesis
      by (rule exI [of _ "reset a"], rule exI [of _ packs], rule exI [of _ rss], rule exI [of _ "[]"])
        (use f True w in \<open>simp add: append_tail_def reset_def\<close>)
  next
    case False
    then show ?thesis
      using w assms by (intro exI [of _ a] exI [of _ "[]"] exI [of _ rs]) (simp add: append_tail_def)
  qed
qed

definition expired :: "int \<Rightarrow> assembler \<Rightarrow> bool" where
  "expired now_ns a \<longleftrightarrow> (case a_opened_ns a of None \<Rightarrow> False | Some opened \<Rightarrow> a_max_linger_ns a \<le> now_ns - opened)"

lemma flush_expired_eq: "flush_expired now_ns a = (if expired now_ns a then flush LINGER a else (a, Inr []))"
  by (auto simp: flush_expired_def expired_def split: option.splits)

text \<open>What the open records become: \<open>kept rs packs rs'\<close> says that they left in the packs, except for \<open>rs'\<close>.\<close>

definition kept :: "int \<Rightarrow> capture_record list \<Rightarrow> ready_pack list \<Rightarrow> capture_record list \<Rightarrow> bool" where
  "kept limit rs packs rs' \<longleftrightarrow> (\<exists>rss. rs = concat rss @ rs' \<and> list_all2 (pack_of limit) rss packs)"

lemma kept_refl [simp]: "kept limit rs [] rs"
  by (auto simp: kept_def)

lemma kept_trans:
  assumes "kept limit rs packs rs'" "kept limit (rs' @ ss) packs' rs''"
  shows "kept limit (rs @ ss) (packs @ packs') rs''"
proof -
  obtain rss rss' where "rs = concat rss @ rs'" "list_all2 (pack_of limit) rss packs"
    "rs' @ ss = concat rss' @ rs''" "list_all2 (pack_of limit) rss' packs'"
    using assms by (auto simp: kept_def)
  then show ?thesis unfolding kept_def
    by (intro exI [of _ "rss @ rss'"]) (simp add: list_all2_appendI)
qed

lemma flush_kept:
  assumes "asm_inv rs a"
  obtains a' packs where "flush reason a = (a', Inr packs)" "kept (a_max_pack_bytes a) rs packs []" "asm_inv [] a'"
    "a_max_pack_bytes a' = a_max_pack_bytes a" "a_writer a' = None"
proof (rule flush_cases [OF assms, of reason])
  fix packs rss
  let ?a = "if rs = [] then a else reset a"
  assume h: "flush reason a = (?a, Inr packs)" "concat rss = rs"
    "list_all2 (pack_of (a_max_pack_bytes a)) rss packs" "asm_inv [] ?a"
  moreover have "a_writer ?a = None" using h(4) by (auto simp: asm_inv_def split: option.splits)
  moreover have "a_max_pack_bytes ?a = a_max_pack_bytes a" by (simp add: reset_def)
  ultimately show ?thesis by (intro that [of ?a packs]) (auto simp: kept_def)
qed

lemma append_tail_kept:
  assumes "asm_inv rs a" "rs \<noteq> []" "append_tail emitted a = (a', res)"
  obtains packs rs' where "res = Inr (emitted @ packs)" "kept (a_max_pack_bytes a) rs packs rs'" "asm_inv rs' a'"
    "a_max_pack_bytes a' = a_max_pack_bytes a"
  using append_tail_inv [OF assms(1,2), of emitted] assms(3) that by (auto simp: kept_def)

text \<open>The new record starts a pack of its own; \<open>rs\<close> are the records the old pack held.\<close>

lemma adopt_kept:
  assumes "writer_with r a = (a1, Inr w)" "record_ok r" "asm_params_ok a2" "a_max_pack_bytes a2 = a_max_pack_bytes a"
    "asm_params_ok a" "append_tail emitted (adopt w (rec_metadata r) (record_scope r) now_ns a2) = (a', res)"
  obtains packs rs' where "res = Inr (emitted @ packs)" "kept (a_max_pack_bytes a) [r] packs rs'" "asm_inv rs' a'"
proof -
  note w = writer_with_Inr [OF assms(1,2,5)]
  have inv: "asm_inv [r] (adopt w (rec_metadata r) (record_scope r) now_ns a2)"
    using w assms(3,4) by (intro asm_inv_adopt) simp_all
  have "a_max_pack_bytes (adopt w (rec_metadata r) (record_scope r) now_ns a2) = a_max_pack_bytes a"
    using assms(4) by (simp add: adopt_def)
  with append_tail_kept [OF inv _ assms(6)] that show ?thesis by auto
qed

lemma replace_writer_kept:
  assumes "asm_inv rs a" "record_ok r" "replace_writer emitted reason r now_ns a = (a', Inr out)"
  obtains packs rs' where "out = emitted @ packs" "kept (a_max_pack_bytes a) (rs @ [r]) packs rs'" "asm_inv rs' a'"
proof -
  have pa: "asm_params_ok a" using assms(1) by (simp add: asm_inv_def)
  obtain a1 w where w: "writer_with r a = (a1, Inr w)"
    using assms(3) by (auto simp: replace_writer_def split: prod.splits sum.splits)
  then have a1: "asm_inv rs a1" "a_max_pack_bytes a1 = a_max_pack_bytes a"
    using writer_with_state [of r a] assms(1) by simp_all
  obtain a2 packs1 where f: "flush reason a1 = (a2, Inr packs1)" "kept (a_max_pack_bytes a1) rs packs1 []"
    "asm_inv [] a2" "a_max_pack_bytes a2 = a_max_pack_bytes a1"
    by (rule flush_kept [OF a1(1), of reason])
  have t: "append_tail (emitted @ packs1) (adopt w (rec_metadata r) (record_scope r) now_ns a2) = (a', Inr out)"
    using assms(3) by (simp add: replace_writer_def w f)
  have pa2: "asm_params_ok a2" using f(3) by (simp add: asm_inv_def)
  obtain packs2 rs' where "out = (emitted @ packs1) @ packs2" "kept (a_max_pack_bytes a) [r] packs2 rs'" "asm_inv rs' a'"
    using adopt_kept [OF w assms(2) pa2 _ pa t] f(4) a1(2) by auto
  moreover have "kept (a_max_pack_bytes a) (rs @ [r]) (packs1 @ packs2) rs'"
    using kept_trans [of "a_max_pack_bytes a" rs packs1 "[]" "[r]" packs2 rs'] f(2) a1(2) calculation(2) by simp
  ultimately show ?thesis by (intro that) auto
qed

lemma asm_inv_append:
  assumes "asm_inv rs a" "rs \<noteq> []" "record_ok r" "a_writer a = Some w" "pack_append r w = Inr w'"
    "a_scope a = Some (record_scope r)"
  shows "asm_inv (rs @ [r]) (a\<lparr>a_writer := Some w'\<rparr>)"
proof -
  have "writer_inv rs w" using assms(1,4) by (simp add: asm_inv_def)
  from writer_inv_append [OF assms(5,3) this] have inv: "writer_inv (rs @ [r]) w'" .
  have "w_max_pack_bytes w' = w_max_pack_bytes w" using append_Inr(4) [OF assms(5)] by simp
  with assms inv show ?thesis by (simp add: asm_inv_def asm_params_ok_def)
qed

lemma assembler_append_kept:
  assumes inv: "asm_inv rs a" and ok: "record_ok r" and ap: "assembler_append r now_ns a = (a', Inr out)"
  shows "\<exists>rs'. kept (a_max_pack_bytes a) (rs @ [r]) out rs' \<and> asm_inv rs' a'"
proof -
  have pos: "\<not> now_ns < 0" using ap by (auto simp: assembler_append_def)
  obtain a1 packs rs1 where f: "flush_expired now_ns a = (a1, Inr packs)" "kept (a_max_pack_bytes a) rs packs rs1"
    "asm_inv rs1 a1" "a_max_pack_bytes a1 = a_max_pack_bytes a"
  proof (cases "expired now_ns a")
    case True
    obtain b ps where "flush LINGER a = (b, Inr ps)" "kept (a_max_pack_bytes a) rs ps []" "asm_inv [] b"
      "a_max_pack_bytes b = a_max_pack_bytes a" by (rule flush_kept [OF inv, of LINGER])
    with True show ?thesis by (intro that [of b ps "[]"]) (simp_all add: flush_expired_eq)
  next
    case False
    with inv show ?thesis by (intro that [of a "[]" rs]) (simp_all add: flush_expired_eq)
  qed
  have pa: "asm_params_ok a1" using f(3) by (simp add: asm_inv_def)
  have fin: ?thesis if "out = packs @ more'" "kept (a_max_pack_bytes a1) (rs1 @ [r]) more' rs'" "asm_inv rs' a'" for more' rs'
    using kept_trans [OF f(2), of "[r]" more' rs'] that f(4) by auto
  show ?thesis
  proof (cases "a_writer a1")
    case None
    then have e: "rs1 = []" using f(3) by (simp add: asm_inv_def)
    obtain a2 w where w: "writer_with r a1 = (a2, Inr w)"
      using ap pos by (auto simp: assembler_append_def f None split: prod.splits sum.splits)
    have "append_tail packs (adopt w (rec_metadata r) (record_scope r) now_ns a2) = (a', Inr out)"
      using ap pos by (simp add: assembler_append_def f None w)
    moreover have "asm_params_ok a2" "a_max_pack_bytes a2 = a_max_pack_bytes a1"
      using writer_with_state [of r a1] w pa by (simp_all add: asm_params_ok_def)
    ultimately obtain more' rs' where "out = packs @ more'" "kept (a_max_pack_bytes a1) [r] more' rs'" "asm_inv rs' a'"
      using adopt_kept [OF w ok _ _ pa] by blast
    with e show ?thesis by (intro fin) simp_all
  next
    case (Some w)
    then have ne: "rs1 \<noteq> []" using f(3) by (auto simp: asm_inv_def)
    show ?thesis
    proof (cases "a_scope a1 = Some (record_scope r)")
      case False
      then have "replace_writer packs SESSION r now_ns a1 = (a', Inr out)"
        using ap pos by (simp add: assembler_append_def f Some)
      then show ?thesis by (rule replace_writer_kept [OF f(3) ok]) (rule fin)
    next
      case sc: True
      show ?thesis
      proof (cases "pack_append r w")
        case (Inl e)
        then have "replace_writer packs (if a_max_records a1 \<le> record_count w then RECORDS else SIZE) r now_ns a1 = (a', Inr out)"
          using ap pos by (auto simp: assembler_append_def f Some sc split: if_splits)
        then show ?thesis by (rule replace_writer_kept [OF f(3) ok]) (rule fin)
      next
        case (Inr w')
        then have "append_tail packs (a1\<lparr>a_writer := Some w'\<rparr>) = (a', Inr out)"
          using ap pos by (simp add: assembler_append_def f Some sc)
        from append_tail_kept [OF asm_inv_append [OF f(3) ne ok Some Inr sc] _ this] fin show ?thesis by auto
      qed
    qed
  qed
qed

text \<open>A raise leaves the open pack as it was, provided it had not expired.\<close>

lemma replace_writer_error:
  assumes "asm_inv rs a" "replace_writer emitted reason r now_ns a = (a', Inl e)" "record_ok r"
  shows "a' = a\<lparr>a_next := Suc (a_next a)\<rparr>"
proof -
  obtain a1 x where w: "writer_with r a = (a1, x)" by (cases "writer_with r a")
  then have a1: "a1 = a\<lparr>a_next := Suc (a_next a)\<rparr>" using writer_with_state [of r a] by simp
  show ?thesis
  proof (cases x)
    case (Inl e')
    with assms(2) w a1 show ?thesis by (simp add: replace_writer_def)
  next
    case (Inr w')
    have pa: "asm_params_ok a" using assms(1) by (simp add: asm_inv_def)
    obtain a2 packs where f: "flush reason a1 = (a2, Inr packs)" "asm_inv [] a2" "a_max_pack_bytes a2 = a_max_pack_bytes a1"
      using assms(1) a1 by (auto intro: flush_kept [of rs a1 reason])
    have "append_tail (emitted @ packs) (adopt w' (rec_metadata r) (record_scope r) now_ns a2) = (a', Inl e)"
      using assms(2) w Inr f by (simp add: replace_writer_def)
    then show ?thesis
      by (rule adopt_kept [OF w [unfolded Inr] assms(3) _ _ pa, rotated 2])
        (use f(2,3) a1 in \<open>simp_all add: asm_inv_def\<close>)
  qed
qed

lemma assembler_append_error:
  assumes "asm_inv rs a" "record_ok r" "assembler_append r now_ns a = (a', Inl e)" "\<not> expired now_ns a"
  shows "a' = a \<or> a' = a\<lparr>a_next := Suc (a_next a)\<rparr>"
proof (cases "now_ns < 0")
  case False
  have f: "flush_expired now_ns a = (a, Inr [])" using assms(4) by (simp add: flush_expired_eq)
  have pa: "asm_params_ok a" using assms(1) by (simp add: asm_inv_def)
  show ?thesis
  proof (cases "a_writer a")
    case None
    obtain a1 x where w: "writer_with r a = (a1, x)" by (cases "writer_with r a")
    then have a1: "a1 = a\<lparr>a_next := Suc (a_next a)\<rparr>" using writer_with_state [of r a] by simp
    show ?thesis
    proof (cases x)
      case (Inl e')
      with assms(3) False w a1 show ?thesis by (simp add: assembler_append_def f None)
    next
      case (Inr w')
      have "append_tail [] (adopt w' (rec_metadata r) (record_scope r) now_ns a1) = (a', Inl e)"
        using assms(3) False w Inr by (simp add: assembler_append_def f None)
      then show ?thesis
        by (rule adopt_kept [OF w [unfolded Inr] assms(2) _ _ pa, rotated 2])
          (use pa a1 in \<open>simp_all add: asm_params_ok_def\<close>)
    qed
  next
    case (Some w)
    then have ne: "rs \<noteq> []" using assms(1) by (auto simp: asm_inv_def)
    show ?thesis
    proof (cases "a_scope a = Some (record_scope r)")
      case False': False
      then have "replace_writer [] SESSION r now_ns a = (a', Inl e)"
        using assms(3) False by (simp add: assembler_append_def f Some)
      from replace_writer_error [OF assms(1) this assms(2)] show ?thesis ..
    next
      case sc: True
      show ?thesis
      proof (cases "pack_append r w")
        case (Inl e')
        show ?thesis
        proof (cases "is_instance e' PackCapacityError")
          case True
          then have "replace_writer [] (if a_max_records a \<le> record_count w then RECORDS else SIZE) r now_ns a = (a', Inl e)"
            using assms(3) False Inl by (simp add: assembler_append_def f Some sc)
          from replace_writer_error [OF assms(1) this assms(2)] show ?thesis ..
        next
          case False'': False
          then show ?thesis using assms(3) False Inl by (simp add: assembler_append_def f Some sc)
        qed
      next
        case (Inr w')
        then have "append_tail [] (a\<lparr>a_writer := Some w'\<rparr>) = (a', Inl e)"
          using assms(3) False by (simp add: assembler_append_def f Some sc)
        then show ?thesis
          by (rule append_tail_kept [OF asm_inv_append [OF assms(1) ne assms(2) Some Inr sc], rotated]) simp_all
      qed
    qed
  qed
qed (use assms(3) in \<open>simp add: assembler_append_def\<close>)

text \<open>An expired pack is gone when the record that arrives then fits no empty pack.\<close>

lemma assembler_append_drops:
  assumes "asm_inv rs a" "0 \<le> now_ns" "expired now_ns a"
    "snd (writer_with r (fst (flush LINGER a))) = Inl e"
  shows "\<exists>a'. assembler_append r now_ns a = (a', Inl e) \<and> a_writer a' = None"
proof -
  obtain a1 packs where f: "flush LINGER a = (a1, Inr packs)" "a_writer a1 = None"
    using flush_kept [OF assms(1), of LINGER] by blast
  then obtain a2 where w: "writer_with r a1 = (a2, Inl e)" using assms(4) by (cases "writer_with r a1") simp
  have "a_writer a2 = None" using writer_with_state [of r a1] w f(2) by simp
  then show ?thesis using assms(2,3) by (simp add: assembler_append_def flush_expired_eq f w)
qed

section \<open>Pack keys are valid object keys\<close>

definition key_char :: "nat \<Rightarrow> bool" where
  "key_char c \<longleftrightarrow> is_alnum c \<or> c \<in> {46, 95, 61, 37, 45}"

lemma key_pattern_iff: "key_pattern p \<longleftrightarrow> p \<noteq> [] \<and> is_alnum (hd p) \<and> list_all key_char (tl p)"
  by (simp add: key_pattern_def key_char_def [abs_def])

lemma key_char_not_sep: "list_all key_char s \<Longrightarrow> 47 \<notin> set s \<and> 92 \<notin> set s"
  by (auto simp: list_all_iff key_char_def is_alnum_def)

lemma split_ne [simp]: "split sep s \<noteq> []"
  by (induction s) auto

lemma split_sep: "split sep (a @ sep # b) = split sep a @ split sep b"
  by (induction a) auto

lemma split_none: "sep \<notin> set s \<Longrightarrow> split sep s = [s]"
  by (induction s) auto

lemma quote_chars: "quote v = Inr q \<Longrightarrow> list_all key_char q"
proof -
  assume q: "quote v = Inr q"
  have "list_all key_char (quote_byte b)" for b
  proof -
    have "unat b < 256" using unsigned_less [of b] by simp
    then have "unat b div 16 < 16" "unat b mod 16 < 16" by simp_all
    then show ?thesis
      by (auto simp: quote_byte_def quote_safe_def key_char_def is_alnum_def upper_hex_digit_def)
  qed
  with q show ?thesis by (auto simp: quote_def list_all_iff split: option.splits)
qed

lemma lower_hex_key: "is_lower_hex c \<Longrightarrow> key_char c \<and> is_alnum c"
  by (auto simp: is_lower_hex_def key_char_def is_alnum_def)

lemma hexdigest_key: "list_all key_char (hexdigest m)"
  using sha256_pattern_hexdigest [of m] lower_hex_key by (auto simp: sha256_pattern_def list_all_iff)

lemma key_component_chars: "key_component v = Inr k \<Longrightarrow> list_all key_char k"
  by (erule key_component_cases) (auto simp: quote_chars hexdigest_key DIGEST_PREFIX_def lit_def key_char_def is_alnum_def)

lemma text_ok_key_component: "text_ok n v \<Longrightarrow> \<exists>k. key_component v = Inr k"
  by (auto simp: text_ok_def key_component_def quote_def split: option.splits)

lemma dec_key: "list_all key_char (dec_of_nat n)"
  using dec_of_nat_digits by (fastforce simp: list_all_iff is_digit_def key_char_def is_alnum_def)

lemma date_text_key: "list_all key_char (date_text s)"
  by (auto simp: date_text_def zero_pad_def Let_def dec_key split: prod.splits)
    (auto simp: list_all_iff key_char_def is_alnum_def)

lemma uuid_key: "list_all key_char (uuid_str u) \<and> is_alnum (hd (uuid_str u))"
proof -
  have "c \<in> set (uuid_str u) \<Longrightarrow> key_char c" for c
    using uuid_str_chars [of c u] lower_hex_key by (auto simp: key_char_def)
  moreover have "is_lower_hex (hd (uuid_str u))" 
  proof (cases "hex_fixed 32 u")
    case Nil
    then show ?thesis using length_hex_fixed [of 32 u] by simp
  next
    case (Cons a t)
    then show ?thesis using hex_fixed_lower [of a 32 u] by (simp add: uuid_str_def Let_def)
  qed
  ultimately show ?thesis using lower_hex_key by (auto simp: list_all_iff)
qed

lemma split_object_key:
  assumes "list_all key_char t" "list_all key_char d" "list_all key_char s" "list_all key_char k" "list_all key_char p"
  shows "split 47 (lit ''v1/tenant='' @ t @ lit ''/date='' @ d @ lit ''/session='' @ s @ lit ''/rank='' @ k @ lit ''/'' @ p)
     = [lit ''v1'', lit ''tenant='' @ t, lit ''date='' @ d, lit ''session='' @ s, lit ''rank='' @ k, p]"
proof -
  have split: "lit ''v1/tenant='' = lit ''v1'' @ 47 # lit ''tenant=''" "lit ''/date='' = 47 # lit ''date=''"
    "lit ''/session='' = 47 # lit ''session=''" "lit ''/rank='' = 47 # lit ''rank=''" "lit ''/'' = [47]"
    by (simp_all add: lit_def)
  have assoc: "split 47 (a @ b @ 47 # c) = split 47 (a @ b) @ split 47 c" for a b c
    using split_sep [of 47 "a @ b" c] by simp
  have one: "47 \<notin> set (lit x) \<Longrightarrow> list_all key_char y \<Longrightarrow> split 47 (lit x @ y) = [lit x @ y]" for x y
    by (rule split_none) (auto dest: key_char_not_sep)
  have "47 \<notin> set (lit ''tenant='')" "47 \<notin> set (lit ''date='')" "47 \<notin> set (lit ''session='')" "47 \<notin> set (lit ''rank='')"
    "47 \<notin> set (lit ''v1'')" by (simp_all add: lit_def)
  with assms show ?thesis
    by (simp add: split split_sep assoc one split_none key_char_not_sep)
qed

lemma object_key_for_parts:
  assumes "metadata_ok (rp_first_metadata ready)" "sp_pack_id (rp_pack ready) = uuid_str u"
  obtains key tenant session parts date rank where "object_key_for ready = Inr key" "key_component (md_tenant_id (rp_first_metadata ready)) = Inr tenant"
    "key_component (md_session_id (rp_first_metadata ready)) = Inr session"
    "validate_object_key key = Inr parts" "tenant_segment key = Some tenant"
    "parts = [lit ''v1'', lit ''tenant='' @ tenant, lit ''date='' @ date, lit ''session='' @ session, lit ''rank='' @ rank,
       uuid_str u @ lit ''.dmi-pack'']"
    "key = join [47] parts"
proof -
  let ?m = "rp_first_metadata ready"
  obtain t s where ts: "key_component (md_tenant_id ?m) = Inr t" "key_component (md_session_id ?m) = Inr s"
    using assms(1) text_ok_key_component [of TEXT_LIMIT "md_tenant_id ?m"] text_ok_key_component [of TEXT_LIMIT "md_session_id ?m"]
    by (auto simp: metadata_ok_def)
  define d where "d = date_text (md_captured_at_ns ?m div 1000000000)"
  define k where "k = dec_of_int (md_producer_rank ?m)"
  define p where "p = uuid_str u @ lit ''.dmi-pack''"
  define key where "key = lit ''v1/tenant='' @ t @ lit ''/date='' @ d @ lit ''/session='' @ s @ lit ''/rank='' @ k @ lit ''/'' @ p"
  have ok: "object_key_for ready = Inr key"
    using ts assms(2) by (simp add: object_key_for_def Let_def key_def d_def k_def p_def)
  have "0 \<le> md_producer_rank ?m" using assms(1) by (simp add: metadata_ok_def)
  then have ch: "list_all key_char t" "list_all key_char s" "list_all key_char d" "list_all key_char k" "list_all key_char p"
    using ts key_component_chars uuid_key [of u]
    by (auto simp: d_def date_text_key k_def p_def dec_of_int_def dec_key lit_def) (auto simp: key_char_def is_alnum_def)
  note sp = split_object_key [OF ch(1,3,2,4,5), folded key_def]
  have "p \<noteq> [] \<and> hd p = hd (uuid_str u)" using length_uuid_str [of u] by (cases "uuid_str u") (auto simp: p_def)
  then have pk: "key_pattern p" using ch(5) uuid_key [of u] by (cases p) (auto simp: key_pattern_iff)
  have parts: "posix_parts key = split 47 key"
    using pk unfolding posix_parts_def sp
    by (auto simp: lit_def key_pattern_def is_alnum_def)
  have pat: "list_all (\<lambda>p. p \<notin> {[], lit ''.'', lit ''..''} \<and> key_pattern p) (posix_parts key)"
    using ch pk unfolding parts sp
    by (auto simp: lit_def key_pattern_iff) (auto simp: key_char_def is_alnum_def)
  have "92 \<notin> set key" "key \<noteq> []" "hd key \<noteq> 47"
    using ch key_char_not_sep by (auto simp: key_def lit_def)
  then have v: "validate_object_key key = Inr (split 47 key)" using pat parts by (simp add: validate_object_key_def)
  have seg: "tenant_segment key = Some t"
    unfolding tenant_segment_def sp by (simp add: startswith_def lit_def)
  have "key = join [47] (split 47 key)" unfolding sp by (simp add: key_def lit_def)
  then show ?thesis by (rule that [OF ok ts v seg, rotated]) (simp add: sp p_def)
qed

lemma object_key_for_own_tenant:
  assumes "metadata_ok (rp_first_metadata ready)" "sp_pack_id (rp_pack ready) = uuid_str u"
  shows "\<exists>key parts. object_key_for ready = Inr key \<and> validate_object_key key = Inr parts \<and> length parts = 6
    \<and> (\<forall>ref tenants. ref_object_key ref = key \<and> set tenants = {md_tenant_id (rp_first_metadata ready)}
         \<longrightarrow> reject_a_foreign_tenant ref tenants = Inr ())"
proof (rule object_key_for_parts [OF assms])
  fix key tenant session parts date rank
  assume h: "object_key_for ready = Inr key" "key_component (md_tenant_id (rp_first_metadata ready)) = Inr tenant"
    "validate_object_key key = Inr parts" "tenant_segment key = Some tenant"
    "parts = [lit ''v1'', lit ''tenant='' @ tenant, lit ''date='' @ date, lit ''session='' @ session, lit ''rank='' @ rank,
       uuid_str u @ lit ''.dmi-pack'']"
  have "reject_a_foreign_tenant ref tenants = Inr ()"
    if "ref_object_key ref = key" "set tenants = {md_tenant_id (rp_first_metadata ready)}" for ref tenants
  proof -
    have seg: "segment_belongs_to tenant t = Inr True" if "t \<in> set (fromkeys tenants)" for t
      using that \<open>set tenants = _\<close> h(2) by (simp add: segment_belongs_to_def)
    have "rmap (\<lambda>t. rbind (segment_belongs_to tenant t) (\<lambda>b.
        require b PackIntegrityError ''pack carries a record for a foreign tenant'')) (fromkeys tenants)
      = Inr (map (\<lambda>_. ()) (fromkeys tenants))"
      by (rule rmap_Inr_all) (simp add: seg require_def)
    then show ?thesis using that h(4) by (simp add: reject_a_foreign_tenant_def)
  qed
  moreover have "length parts = 6" using h(5) by simp
  ultimately show ?thesis using h(1,3) by blast
qed

end
