(* ===== verification/PipelineRuns.thy ===== *)
theory PipelineRuns
  imports Pipeline
begin

text \<open>
  Runs of the host capture pipeline: every interleaving of submitters, the worker, flushes and closing, with
  the accounting of submitted records, the drain of the queue on close, and what a sink holds of the packs
  handed to it.
\<close>

section \<open>Every submitted record is accounted for\<close>

definition open_records :: "assembler \<Rightarrow> int" where
  "open_records a = (case a_writer a of None \<Rightarrow> 0 | Some w \<Rightarrow> record_count w)"

text \<open>The records that left the pipeline or still sit in it, by the counters and the queue.\<close>

definition settled :: "'s pipeline \<Rightarrow> int" where
  "settled p =
     (let c = p_counters p in
      c_persisted_records c + bq_records (p_queue p) + open_records (p_assembler p) + c_dropped_records c
      + c_timed_out_records c + c_oversized_records c + c_duplicate_records c + c_rejected_closed_records c)"

lemma asm_inv_open_records: "asm_inv rs a \<Longrightarrow> open_records a = int (length rs)"
  by (auto simp: asm_inv_def open_records_def record_count_def writer_inv_def split: option.splits
      dest: list_all2_lengthD)

lemma kept_count:
  assumes "kept limit rs packs rs'"
  shows "int (length rs) = sum_list (map (\<lambda>p. sp_record_count (rp_pack p)) packs) + int (length rs')"
proof -
  obtain rss where h: "rs = concat rss @ rs'" "list_all2 (pack_of limit) rss packs" using assms by (auto simp: kept_def)
  from h(2) have "int (length (concat rss)) = sum_list (map (\<lambda>p. sp_record_count (rp_pack p)) packs)"
    by (induction rule: list_all2_induct) (auto simp: pack_of_def)
  with h(1) show ?thesis by simp
qed

lemma emit_keeps [simp]:
  "p_queue (emit ev p) = p_queue p" "p_assembler (emit ev p) = p_assembler p" "p_error (emit ev p) = p_error p"
  "p_worker (emit ev p) = p_worker p" "p_config (emit ev p) = p_config p" "p_barriers (emit ev p) = p_barriers p"
  "p_pending_flush (emit ev p) = p_pending_flush p" "p_sink (emit ev p) = p_sink p"
  by (auto simp: emit_def count_def split: option.splits)

lemma count_keeps [simp]:
  "p_queue (count f p) = p_queue p" "p_assembler (count f p) = p_assembler p" "p_error (count f p) = p_error p"
  "p_worker (count f p) = p_worker p" "p_config (count f p) = p_config p" "p_barriers (count f p) = p_barriers p"
  "p_pending_flush (count f p) = p_pending_flush p" "p_sink (count f p) = p_sink p" "p_counters (count f p) = f (p_counters p)"
  by (auto simp: count_def)

lemma emit_counters:
  "c_submitted_records (p_counters (emit ev p)) = c_submitted_records (p_counters p)"
  "settled (emit ev p) = settled p"
  by (auto simp: emit_def settled_def Let_def count_def split: option.splits)

lemma persist_all_ok:
  "persist_all persist duration packs p = (p', Inr u) \<Longrightarrow>
   p_queue p' = p_queue p \<and> p_assembler p' = p_assembler p \<and> p_error p' = p_error p \<and> p_worker p' = p_worker p
   \<and> p_config p' = p_config p \<and> p_barriers p' = p_barriers p \<and> p_pending_flush p' = p_pending_flush p
   \<and> c_submitted_records (p_counters p') = c_submitted_records (p_counters p)
   \<and> settled p' = settled p + sum_list (map (\<lambda>r. sp_record_count (rp_pack r)) packs)"
proof (induction packs arbitrary: p)
  case (Cons ready packs)
  obtain s x where s: "persist (p_sink p) ready = (s, Inr x)"
    using Cons.prems by (cases "persist (p_sink p) ready"; cases "snd (persist (p_sink p) ready)") auto
  define p1 where "p1 = emit ''pack_persisted'' (count (count_persist ready) (p\<lparr>p_sink := s,
      p_persist_duration := observe (max 0 (duration ready)) (p_persist_duration p)\<rparr>))"
  have "persist_all persist duration packs p1 = (p', Inr u)" using Cons.prems s by (simp add: p1_def)
  note ih = Cons.IH [OF this]
  have "settled p1 = settled p + sp_record_count (rp_pack ready)"
    "c_submitted_records (p_counters p1) = c_submitted_records (p_counters p)"
    by (simp_all add: p1_def emit_counters) (simp_all add: settled_def Let_def count_persist_def)
  with ih show ?case by (simp add: p1_def)
qed (auto)

text \<open>The state of a pipeline that has not failed.\<close>

definition pl_ok :: "nat \<Rightarrow> 's pipeline \<Rightarrow> bool" where
  "pl_ok waiting p \<longleftrightarrow>
     queue_ok (p_queue p) \<and> list_all record_ok (records_of (bq_items (p_queue p)))
     \<and> (\<exists>rs. asm_inv rs (p_assembler p))
     \<and> c_submitted_records (p_counters p) = settled p + int waiting
     \<and> (p_worker p = Stopped \<longrightarrow> bq_closed (p_queue p) \<and> bq_records (p_queue p) = 0 \<and> a_writer (p_assembler p) = None)"

text \<open>The step that loses an open pack: the linger time is over and the next record fits no empty pack.\<close>

definition drops_open_pack :: "int \<Rightarrow> 's pipeline \<Rightarrow> bool" where
  "drops_open_pack now p \<longleftrightarrow> expired now (p_assembler p) \<and>
     (case bq_items (p_queue p) of
        QRecord r # _ \<Rightarrow> isl (snd (writer_with r (fst (flush LINGER (p_assembler p))))) | _ \<Rightarrow> False)"

lemma fail_worker_error [simp]: "p_error (fail_worker e p) = Some e"
  by (auto simp: fail_worker_def Let_def complete_barrier_def split: option.splits)

lemma persist_flush_ok:
  assumes inv: "asm_inv rs (p_assembler p)" and res: "res = (a, Inr packs)" and k: "kept limit rs packs rs'" "asm_inv rs' a"
    and run: "persist_or_fail persist duration res p = (p1, Inr u)"
  shows "p_queue p1 = p_queue p" "p_assembler p1 = a" "p_error p1 = p_error p" "p_worker p1 = p_worker p"
    "c_submitted_records (p_counters p1) = c_submitted_records (p_counters p)" "settled p1 = settled p"
    "p_barriers p1 = p_barriers p"
proof -
  have "persist_all persist duration packs (p\<lparr>p_assembler := a\<rparr>) = (p1, Inr u)"
    using run by (simp add: persist_or_fail_def res)
  note h = persist_all_ok [OF this]
  have "settled (p\<lparr>p_assembler := a\<rparr>) + int (length rs) = settled p + int (length rs')"
    using asm_inv_open_records [OF inv] asm_inv_open_records [OF k(2)] by (simp add: settled_def Let_def)
  with h kept_count [OF k(1)] show "settled p1 = settled p" by simp
  show "p_queue p1 = p_queue p" "p_assembler p1 = a" "p_error p1 = p_error p" "p_worker p1 = p_worker p"
    "c_submitted_records (p_counters p1) = c_submitted_records (p_counters p)" "p_barriers p1 = p_barriers p"
    using h by simp_all
qed

lemma settled_upd [simp]:
  "settled (p\<lparr>p_worker := x\<rparr>) = settled p" "settled (p\<lparr>p_barriers := bs\<rparr>) = settled p"
  "settled (p\<lparr>p_pending_flush := y\<rparr>) = settled p" "settled (p\<lparr>p_error := z\<rparr>) = settled p"
  "settled (p\<lparr>p_sink := s\<rparr>) = settled p"
  by (simp_all add: settled_def)

lemma complete_barrier_ok: "pl_ok w p \<Longrightarrow> pl_ok w (complete_barrier b e p)"
  by (simp add: pl_ok_def complete_barrier_def)

lemma run_step_idle_ok:
  assumes ok: "pl_ok w p" "p_worker p = Running" and get: "queue_get ex (p_queue p) = (Some None, q)"
    and err: "p_error (run_step persist duration ex now p) = None"
  shows "pl_ok w (run_step persist duration ex now p)"
proof -
  obtain rs where inv: "asm_inv rs (p_assembler p)" using ok by (auto simp: pl_ok_def)
  have q: "q = p_queue p" using get by (auto simp: queue_get_def split: list.splits queue_item.splits if_splits)
  show ?thesis
  proof (cases "bq_closed q \<and> bq_records q = 0")
    case True
    obtain a packs where f: "flush SHUTDOWN (p_assembler p) = (a, Inr packs)"
      "kept (a_max_pack_bytes (p_assembler p)) rs packs []" "asm_inv [] a" "a_writer a = None"
      using flush_kept [OF inv, of SHUTDOWN] by blast
    obtain p1 u where p1: "persist_or_fail persist duration (flush SHUTDOWN (p_assembler p)) p = (p1, Inr u)"
      using err ok(2) True get q
      by (cases "persist_or_fail persist duration (flush SHUTDOWN (p_assembler p)) p";
          cases "snd (persist_or_fail persist duration (flush SHUTDOWN (p_assembler p)) p)") (auto simp: run_step_def run_idle_def)
    note h = persist_flush_ok [OF inv f(1,2,3) p1]
    have "run_step persist duration ex now p = p1\<lparr>p_worker := Stopped\<rparr>"
      using ok(2) True get q p1 by (simp add: run_step_def run_idle_def)
    with ok h f True q show ?thesis by (auto simp: pl_ok_def)
  next
    case False
    obtain a packs rs' where f: "flush_expired now (p_assembler p) = (a, Inr packs)"
      "kept (a_max_pack_bytes (p_assembler p)) rs packs rs'" "asm_inv rs' a"
    proof (cases "expired now (p_assembler p)")
      case True
      obtain a packs where "flush LINGER (p_assembler p) = (a, Inr packs)"
        "kept (a_max_pack_bytes (p_assembler p)) rs packs []" "asm_inv [] a"
        by (rule flush_kept [OF inv, of LINGER])
      with True show ?thesis by (intro that [of a packs "[]"]) (simp_all add: flush_expired_eq)
    next
      case False
      with inv show ?thesis by (intro that [of "p_assembler p" "[]" rs]) (simp_all add: flush_expired_eq)
    qed
    obtain p1 u where p1: "persist_or_fail persist duration (flush_expired now (p_assembler p)) p = (p1, Inr u)"
      using err ok(2) False get q
      by (cases "persist_or_fail persist duration (flush_expired now (p_assembler p)) p";
          cases "snd (persist_or_fail persist duration (flush_expired now (p_assembler p)) p)") (auto simp: run_step_def run_idle_def)
    note h = persist_flush_ok [OF inv f p1]
    have "run_step persist duration ex now p = p1"
      using ok(2) False get q p1 by (auto simp: run_step_def run_idle_def)
    with ok h f show ?thesis by (auto simp: pl_ok_def)
  qed
qed

lemma run_step_barrier_ok:
  assumes ok: "pl_ok w p" "p_worker p = Running" and get: "queue_get ex (p_queue p) = (Some (Some (QBarrier b)), q)"
    and err: "p_error (run_step persist duration ex now p) = None"
  shows "pl_ok w (run_step persist duration ex now p)" "a_writer (p_assembler (run_step persist duration ex now p)) = None"
proof -
  let ?p = "p\<lparr>p_queue := q\<rparr>"
  obtain rs where inv: "asm_inv rs (p_assembler p)" using ok by (auto simp: pl_ok_def)
  then have inv': "asm_inv rs (p_assembler ?p)" by simp
  have qo: "queue_ok (p_queue p)" using ok by (simp add: pl_ok_def)
  note q = queue_get_ok [OF get qo]
  have q2: "bq_records q = bq_records (p_queue p)"
    using qo q(1,4) by (simp add: queue_ok_def)
  obtain a packs where f: "flush MANUAL (p_assembler p) = (a, Inr packs)"
    "kept (a_max_pack_bytes (p_assembler p)) rs packs []" "asm_inv [] a" "a_writer a = None"
    using flush_kept [OF inv, of MANUAL] by blast
  obtain p1 u where p1: "persist_or_fail persist duration (flush MANUAL (p_assembler p)) ?p = (p1, Inr u)"
    using err ok(2) get
    by (cases "persist_or_fail persist duration (flush MANUAL (p_assembler p)) ?p";
        cases "snd (persist_or_fail persist duration (flush MANUAL (p_assembler p)) ?p)") (auto simp: run_step_def run_idle_def)
  note h = persist_flush_ok [OF inv' f(1,2,3) p1]
  have r: "run_step persist duration ex now p = complete_barrier b None p1"
    using ok(2) get p1 by (simp add: run_step_def run_idle_def)
  have "settled ?p = settled p" using q2 by (simp add: settled_def)
  with ok h f q have "pl_ok w p1" by (auto simp: pl_ok_def)
  then show "pl_ok w (run_step persist duration ex now p)" unfolding r by (rule complete_barrier_ok)
  show "a_writer (p_assembler (run_step persist duration ex now p)) = None"
    unfolding r using h f by (simp add: complete_barrier_def)
qed

lemma run_step_record_ok:
  assumes ok: "pl_ok w p" "p_worker p = Running" and get: "queue_get ex (p_queue p) = (Some (Some (QRecord r)), q)"
    and err: "p_error (run_step persist duration ex now p) = None" and nd: "\<not> drops_open_pack now p"
  shows "pl_ok w (run_step persist duration ex now p)"
proof -
  obtain rs where inv: "asm_inv rs (p_assembler p)" using ok by (auto simp: pl_ok_def)
  have qo: "queue_ok (p_queue p)" "list_all record_ok (records_of (bq_items (p_queue p)))" using ok by (simp_all add: pl_ok_def)
  note q = queue_get_ok [OF get qo(1)]
  have rok: "record_ok r" and qrec: "list_all record_ok (records_of (bq_items q))" using qo(2) q(4) by simp_all
  have q2: "bq_records (p_queue p) = bq_records q + 1" using qo q(1,4) by (simp add: queue_ok_def)
  obtain a res where ap: "assembler_append r now (p_assembler p) = (a, res)" by (cases "assembler_append r now (p_assembler p)")
  let ?p = "p\<lparr>p_queue := q, p_assembler := a\<rparr>"
  show ?thesis
  proof (cases res)
    case (Inr packs)
    obtain rs' where k: "kept (a_max_pack_bytes (p_assembler p)) (rs @ [r]) packs rs'" "asm_inv rs' a"
      using assembler_append_kept [OF inv rok ap [unfolded Inr]] by blast
    obtain p1 u where p1: "persist_all persist duration packs ?p = (p1, Inr u)"
      using err ok(2) get ap Inr
      by (cases "persist_all persist duration packs ?p"; cases "snd (persist_all persist duration packs ?p)")
        (auto simp: run_step_def run_idle_def)
    note h = persist_all_ok [OF p1]
    have r: "run_step persist duration ex now p = p1" using ok(2) get ap Inr p1 by (simp add: run_step_def run_idle_def)
    have "settled ?p + sum_list (map (\<lambda>r. sp_record_count (rp_pack r)) packs) = settled p"
      using asm_inv_open_records [OF inv] asm_inv_open_records [OF k(2)] kept_count [OF k(1)] q2
      by (simp add: settled_def Let_def)
    with ok h k q qrec show ?thesis by (auto simp: pl_ok_def r)
  next
    case (Inl e)
    have ne: "\<not> expired now (p_assembler p)"
    proof
      assume x: "expired now (p_assembler p)"
      obtain a1 packs where f: "flush LINGER (p_assembler p) = (a1, Inr packs)" "a_writer a1 = None"
          "kept (a_max_pack_bytes (p_assembler p)) rs packs []" "asm_inv [] a1" "a_max_pack_bytes a1 = a_max_pack_bytes (p_assembler p)"
        using flush_kept [OF inv, of LINGER] by blast
      obtain items where "bq_items (p_queue p) = QRecord r # items"
        using get by (auto simp: queue_get_def split: list.splits queue_item.splits if_splits)
      with nd x f obtain a2 wr where w: "writer_with r a1 = (a2, Inr wr)"
        by (cases "writer_with r a1"; cases "snd (writer_with r a1)") (auto simp: drops_open_pack_def)
      have pos: "\<not> now < 0" using ap Inl x err get ok(2)
        by (auto simp: assembler_append_def run_step_def run_idle_def Let_def is_instance_def exc_ancestors_def split: if_splits)
      then have t: "append_tail packs (adopt wr (rec_metadata r) (record_scope r) now a2) = (a, res)"
        using ap x f w by (simp add: assembler_append_def flush_expired_eq)
      have "asm_params_ok a1" using f(4) by (simp add: asm_inv_def)
      moreover have "asm_params_ok a2" "a_max_pack_bytes a2 = a_max_pack_bytes a1"
        using writer_with_state [of r a1] w calculation by (simp_all add: asm_params_ok_def)
      ultimately show False using adopt_kept [OF w rok _ _ _ t] Inl by auto
    qed
    have a: "a = p_assembler p \<or> a = (p_assembler p)\<lparr>a_next := Suc (a_next (p_assembler p))\<rparr>"
      using assembler_append_error [OF inv rok ap [unfolded Inl] ne] .
    then have inva: "asm_inv rs a" "open_records a = open_records (p_assembler p)" "a_writer a = a_writer (p_assembler p)"
      using inv by (auto simp: open_records_def)
    have s: "settled ?p + 1 = settled p" using q2 inva(2) by (simp add: settled_def Let_def)
    consider "is_instance e OversizedRecordError" | "\<not> is_instance e OversizedRecordError" "is_instance e DuplicateCaptureError"
      using err ok(2) get ap Inl by (auto simp: run_step_def run_idle_def Let_def split: if_splits)
    then show ?thesis
    proof cases
      case 1
      then have r: "run_step persist duration ex now p = emit ''record_oversized''
          (count (\<lambda>c. c\<lparr>c_oversized_records := c_oversized_records c + 1\<rparr>) ?p)"
        using ok(2) get ap Inl by (simp add: run_step_def run_idle_def Let_def)
      show ?thesis using ok s inva q qrec
        by (auto simp: pl_ok_def r emit_counters) (simp add: settled_def Let_def)
    next
      case 2
      then have r: "run_step persist duration ex now p = emit ''record_duplicate''
          (count (\<lambda>c. c\<lparr>c_duplicate_records := c_duplicate_records c + 1\<rparr>) ?p)"
        using ok(2) get ap Inl by (simp add: run_step_def run_idle_def Let_def)
      show ?thesis using ok s inva q qrec
        by (auto simp: pl_ok_def r emit_counters) (simp add: settled_def Let_def)
    qed
  qed
qed

text \<open>Runs of a pipeline: any interleaving of submitters (\<open>waiting\<close> of them are inside the admission loop), the
  worker, flushes and closing. The worker rule excludes the one step that loses an open pack.\<close>

inductive pl_run :: "'s sink \<Rightarrow> (ready_pack \<Rightarrow> int) \<Rightarrow> nat \<Rightarrow> 's pipeline \<Rightarrow> bool"
  for persist duration where
  new: "HostCapturePipeline c sink factory callback = Inr p \<Longrightarrow> start p = Inr p' \<Longrightarrow> cfg_max_pack_bytes c < 2 ^ 64
    \<Longrightarrow> \<forall>n. factory n < 2 ^ 128 \<Longrightarrow> pl_run persist duration 0 p'"
| enter: "pl_run persist duration w p \<Longrightarrow> record_ok r \<Longrightarrow> submit_enter r p = (p', res)
    \<Longrightarrow> pl_run persist duration (if res = Inr None then Suc w else w) p'"
| admit: "pl_run persist duration (Suc w) p \<Longrightarrow> record_ok r \<Longrightarrow> submit_try r ex d p = (p', Some res)
    \<Longrightarrow> pl_run persist duration w p'"
| work: "pl_run persist duration w p \<Longrightarrow> \<not> drops_open_pack now p
    \<Longrightarrow> pl_run persist duration w (run_step persist duration ex now p)"
| pending: "pl_run persist duration w p \<Longrightarrow> pl_run persist duration w (fst (flush_pending target p))"
| publish: "pl_run persist duration w p \<Longrightarrow> pl_run persist duration w (snd (flush_publish target p))"
| enqueue: "pl_run persist duration w p \<Longrightarrow> pl_run persist duration w (fst (flush_enqueue b p))"
| recheck: "pl_run persist duration w p \<Longrightarrow> pl_run persist duration w (fst (flush_recheck b p))"
| await: "pl_run persist duration w p \<Longrightarrow> pl_run persist duration w (fst (flush_await b ex p))"
| close: "pl_run persist duration w p \<Longrightarrow> pl_run persist duration w (fst (close_begin p))"

lemma run_step_ok:
  assumes "pl_ok w p" "\<not> drops_open_pack now p" "p_error p = None" "p_error (run_step persist duration ex now p) = None"
  shows "pl_ok w (run_step persist duration ex now p)"
proof (cases "p_worker p = Running")
  case True
  obtain x q where g: "queue_get ex (p_queue p) = (x, q)" by (cases "queue_get ex (p_queue p)")
  show ?thesis
  proof (cases x)
    case None
    with True g assms(1) show ?thesis by (simp add: run_step_def run_idle_def)
  next
    case (Some y)
    show ?thesis
    proof (cases y)
      case None
      with run_step_idle_ok [OF assms(1) True] g Some assms(4) show ?thesis by simp
    next
      case item: (Some i)
      show ?thesis
      proof (cases i)
        case (QRecord r)
        with run_step_record_ok [OF assms(1) True] g Some item assms(2,4) show ?thesis by simp
      next
        case (QBarrier b)
        with run_step_barrier_ok(1) [OF assms(1) True] g Some item assms(4) show ?thesis by simp
      qed
    qed
  qed
qed (use assms in \<open>simp add: run_step_def run_idle_def\<close>)

lemma persist_all_error: "p_error (fst (persist_all persist duration packs p)) = p_error p"
  by (induction packs arbitrary: p) (auto split: prod.splits sum.splits)

lemma persist_or_fail_error: "p_error (fst (persist_or_fail persist duration res p)) = p_error p"
  by (auto simp: persist_or_fail_def persist_all_error split: prod.splits sum.splits)

lemma complete_barrier_error [simp]: "p_error (complete_barrier b e p) = p_error p"
  by (simp add: complete_barrier_def)

lemma run_step_error_latched:
  assumes "p_error p \<noteq> None"
  shows "p_error (run_step persist duration ex now p) \<noteq> None"
proof -
  have one: "persist_all persist duration packs q = (q', res) \<Longrightarrow> p_error q' = p_error q" for packs q q' res
    using persist_all_error [of persist duration packs q] by simp
  have two: "persist_or_fail persist duration r q = (q', res) \<Longrightarrow> p_error q' = p_error q" for r q q' res
    using persist_or_fail_error [of persist duration r q] by simp
  show ?thesis using assms
    by (simp add: run_step_def run_idle_def Let_def split: prod.split option.split sum.split queue_item.split)
      (auto dest!: one two)
qed

lemma submit_enter_ok:
  assumes "pl_ok w p" "p_error p = None" "submit_enter r p = (p', res)"
  shows "pl_ok (if res = Inr None then Suc w else w) p'"
  using assms by (auto simp: submit_enter_def pl_ok_def settled_def Let_def split: if_splits)

lemma submit_try_ok:
  assumes "pl_ok (Suc w) p" "record_ok r" "submit_try r ex d p = (p', Some res)"
  shows "pl_ok w p'"
proof -
  obtain q where q: "queue_put r (cfg_overload_policy (p_config p)) ex (p_queue p) = (Some res, q)"
    using assms(3) by (auto simp: submit_try_def split: prod.splits option.splits)
  have qo: "queue_ok (p_queue p)" using assms(1) by (simp add: pl_ok_def)
  note h = queue_put_ok [OF q qo]
  have rec: "bq_records q = bq_records (p_queue p) + (if res = ACCEPTED then 1 else 0)"
    using h(1,4) qo by (simp add: queue_ok_def)
  have cl: "bq_closed q = bq_closed (p_queue p)" "bq_closed (p_queue p) \<Longrightarrow> res \<noteq> ACCEPTED"
    using q by (auto simp: queue_put_def split: if_splits)
  have p': "p' = count (count_admission r res)
             (p\<lparr>p_queue := q, p_admission_duration := observe (max 0 d) (p_admission_duration p)\<rparr>)"
    using assms(3) q by (simp add: submit_try_def)
  have "settled p' = settled p + 1" "c_submitted_records (p_counters p') = c_submitted_records (p_counters p)"
    using rec by (cases res; simp add: p' settled_def Let_def count_admission_def)+
  with assms(1,2) h rec cl show ?thesis by (auto simp: pl_ok_def p')
qed

lemma pl_run_inv: "pl_run persist duration w p \<Longrightarrow> p_error p = None \<longrightarrow> pl_ok w p"
proof (induction rule: pl_run.induct)
  case (new c sink factory callback p p')
  then show ?case
    by (auto simp: HostCapturePipeline_def start_def BoundedRecordQueue_def PackAssembler_def rbind_eq_Inr pl_ok_def
        queue_ok_def asm_inv_def asm_params_ok_def settled_def zero_counters_def open_records_def split: if_splits)
next
  case (enter w p r p' res)
  have "p_error p' = p_error p" using enter.hyps(3) by (auto simp: submit_enter_def Let_def split: if_splits)
  with enter submit_enter_ok show ?case by metis
next
  case (admit w p r ex d p' res)
  have "p_error p' = p_error p" using admit.hyps(3) by (auto simp: submit_try_def split: prod.splits option.splits)
  with admit submit_try_ok show ?case by metis
next
  case (work w p now ex)
  then show ?case using run_step_ok run_step_error_latched by metis
next
  case (pending w p target)
  then show ?case by (auto simp: flush_pending_def clear_pending_def pl_ok_def split: option.splits)
next
  case (publish w p target)
  then show ?case by (auto simp: flush_publish_def Let_def pl_ok_def settled_def)
next
  case (enqueue w p b)
  then show ?case
    by (auto simp: flush_enqueue_def put_barrier_def clear_pending_def pl_ok_def settled_def queue_ok_def Let_def)
next
  case (recheck w p b)
  then show ?case by (auto simp: flush_recheck_def clear_pending_def pl_ok_def)
next
  case (await w p b ex)
  then show ?case by (auto simp: flush_await_def clear_pending_def pl_ok_def)
next
  case (close w p)
  then show ?case by (auto simp: close_begin_def queue_close_def pl_ok_def settled_def queue_ok_def Let_def)
qed

section \<open>Closing drains the queue\<close>

lemma persist_all_queue:
  "p_queue (fst (persist_all persist duration packs p)) = p_queue p"
  "p_worker (fst (persist_all persist duration packs p)) = p_worker p"
  by (induction packs arbitrary: p) (auto split: prod.splits sum.splits)

lemma persist_or_fail_queue:
  "p_queue (fst (persist_or_fail persist duration res p)) = p_queue p"
  "p_worker (fst (persist_or_fail persist duration res p)) = p_worker p"
  by (auto simp: persist_or_fail_def persist_all_queue split: prod.splits sum.splits)

lemma fail_worker_worker [simp]: "p_worker (fail_worker e p) = Stopped"
  by (simp add: fail_worker_def Let_def)

lemma complete_barrier_keeps [simp]:
  "p_queue (complete_barrier b e p) = p_queue p" "p_worker (complete_barrier b e p) = p_worker p"
  "p_assembler (complete_barrier b e p) = p_assembler p" "p_counters (complete_barrier b e p) = p_counters p"
  "p_sink (complete_barrier b e p) = p_sink p"
  by (simp_all add: complete_barrier_def)

text \<open>A worker step on a closed queue stops the worker or takes one item.\<close>

lemma run_step_closed:
  assumes "p_worker p = Running" "bq_closed (p_queue p)" "queue_ok (p_queue p)"
    "p' = run_step persist duration ex now p" "p_worker p' \<noteq> Stopped"
  shows "p_worker p' = Running \<and> bq_closed (p_queue p') \<and> queue_ok (p_queue p')
     \<and> Suc (length (bq_items (p_queue p'))) = length (bq_items (p_queue p))"
proof (cases "bq_items (p_queue p)")
  case Nil
  then have "bq_records (p_queue p) = 0" using assms(3) by (simp add: queue_ok_def)
  with Nil assms(1,2,4,5) have False
    by (simp add: run_step_def run_idle_def queue_get_def split: prod.splits sum.splits)
  then show ?thesis ..
next
  case (Cons i items)
  obtain q where g: "queue_get ex (p_queue p) = (Some (Some i), q)" "bq_items q = items" "bq_closed q"
    using Cons assms(2) by (cases i) (auto simp: queue_get_def)
  have qo: "queue_ok q" using queue_get_ok(1) [OF g(1) assms(3)] .
  have "p_queue p' = q \<and> p_worker p' = Running"
  proof (cases i)
    case (QRecord r)
    obtain a res where ap: "assembler_append r now (p_assembler p) = (a, res)"
      by (cases "assembler_append r now (p_assembler p)")
    show ?thesis
    proof (cases res)
      case (Inl e)
      with ap assms(1,4,5) g(1) QRecord show ?thesis
        by (cases "is_instance e OversizedRecordError"; cases "is_instance e DuplicateCaptureError")
          (simp_all add: run_step_def run_idle_def Let_def)
    next
      case (Inr packs)
      let ?p = "p\<lparr>p_queue := q, p_assembler := a\<rparr>"
      obtain p1 u where p1: "persist_all persist duration packs ?p = (p1, u)" by (cases "persist_all persist duration packs ?p")
      with persist_all_queue [of persist duration packs ?p] have "p_queue p1 = q" "p_worker p1 = p_worker p" by simp_all
      with p1 Inr ap assms(1,4,5) g(1) QRecord show ?thesis by (simp add: run_step_def run_idle_def split: sum.splits)
    qed
  next
    case (QBarrier b)
    obtain p1 u where p1: "persist_or_fail persist duration (flush MANUAL (p_assembler p)) (p\<lparr>p_queue := q\<rparr>) = (p1, u)"
      by (cases "persist_or_fail persist duration (flush MANUAL (p_assembler p)) (p\<lparr>p_queue := q\<rparr>)")
    with persist_or_fail_queue [of persist duration "flush MANUAL (p_assembler p)" "p\<lparr>p_queue := q\<rparr>"]
    have "p_queue p1 = q" "p_worker p1 = p_worker p" by simp_all
    with p1 assms(1,4,5) g(1) QBarrier show ?thesis by (simp add: run_step_def run_idle_def split: sum.splits)
  qed
  with g qo Cons show ?thesis by simp
qed

definition work :: "'s sink \<Rightarrow> (ready_pack \<Rightarrow> int) \<Rightarrow> (bool \<times> int) list \<Rightarrow> 's pipeline \<Rightarrow> 's pipeline" where
  "work persist duration clock p = fold (\<lambda>(ex, now). run_step persist duration ex now) clock p"

lemma run_step_stopped: "p_worker p = Stopped \<Longrightarrow> run_step persist duration ex now p = p"
  by (simp add: run_step_def run_idle_def)

lemma work_stopped: "p_worker p = Stopped \<Longrightarrow> work persist duration clock p = p"
  unfolding work_def by (induction clock arbitrary: p) (auto simp: run_step_stopped)

lemma work_drains:
  assumes "p_worker p \<noteq> NotStarted" "bq_closed (p_queue p)" "queue_ok (p_queue p)"
    "length (bq_items (p_queue p)) < length clock"
  shows "p_worker (work persist duration clock p) = Stopped"
  using assms
proof (induction clock arbitrary: p)
  case (Cons c clock)
  obtain ex now where c: "c = (ex, now)" by (cases c)
  let ?p = "run_step persist duration ex now p"
  have w: "work persist duration (c # clock) p = work persist duration clock ?p" by (simp add: work_def c)
  show ?case
  proof (cases "p_worker p = Stopped \<or> p_worker ?p = Stopped")
    case True
    then show ?thesis using work_stopped run_step_stopped w by metis
  next
    case False
    with Cons.prems have "p_worker p = Running" by (cases "p_worker p") auto
    from run_step_closed [OF this Cons.prems(2,3) refl] False
    have "p_worker ?p = Running \<and> bq_closed (p_queue ?p) \<and> queue_ok (p_queue ?p)
       \<and> Suc (length (bq_items (p_queue ?p))) = length (bq_items (p_queue p))" by blast
    then show ?thesis unfolding w using Cons.IH [of ?p] Cons.prems(4) by simp
  qed
qed simp

section \<open>What a sink holds\<close>

definition reads_back :: "capture_record list \<Rightarrow> ready_pack \<Rightarrow> bool" where
  "reads_back rs ready \<longleftrightarrow> (\<exists>limit. pack_of limit rs ready)"

lemma kept_reads_back: "kept limit rs packs rs' \<Longrightarrow> \<exists>rss. list_all2 reads_back rss packs"
  unfolding kept_def reads_back_def by (metis (mono_tags, lifting) list_all2_mono)

lemma reads_back_count: "list_all2 reads_back rss packs
    \<Longrightarrow> sum_list (map (\<lambda>r. sp_record_count (rp_pack r)) packs) = int (length (concat rss))"
  by (induction rule: list_all2_induct) (auto simp: reads_back_def pack_of_def)

text \<open>What the pipeline asks of a sink: a pack that was taken is held, and stays held whatever is persisted
  later, failures included.\<close>

definition held :: "('s \<Rightarrow> sealed_pack \<Rightarrow> bool) \<Rightarrow> 's pipeline \<Rightarrow> bool" where
  "held holds p \<longleftrightarrow> (\<exists>rss packs. list_all2 reads_back rss packs
     \<and> c_persisted_records (p_counters p) = int (length (concat rss))
     \<and> list_all (\<lambda>r. holds (p_sink p) (rp_pack r)) packs)"

lemma held_cong: "held holds p \<Longrightarrow> p_sink p' = p_sink p
    \<Longrightarrow> c_persisted_records (p_counters p') = c_persisted_records (p_counters p) \<Longrightarrow> held holds p'"
  by (simp add: held_def)

lemma held_upd [simp]:
  "held holds (p\<lparr>p_worker := x\<rparr>) = held holds p" "held holds (p\<lparr>p_queue := q\<rparr>) = held holds p"
  "held holds (p\<lparr>p_assembler := a\<rparr>) = held holds p" "held holds (complete_barrier b e p) = held holds p"
  "held holds (p\<lparr>p_admission_duration := h\<rparr>) = held holds p" "held holds (p\<lparr>p_pending_flush := y\<rparr>) = held holds p"
  "held holds (p\<lparr>p_barriers := bs\<rparr>) = held holds p"
  by (simp_all add: held_def)

lemma held_fail_worker: "held holds p \<Longrightarrow> held holds (fail_worker e p)"
  by (rule held_cong, assumption)
    (auto simp: fail_worker_def Let_def complete_barrier_def emit_def count_def split: option.splits)

lemma held_count: "held holds p \<Longrightarrow> c_persisted_records (f (p_counters p)) = c_persisted_records (p_counters p)
    \<Longrightarrow> held holds (count f p)"
  by (rule held_cong, assumption) (auto simp: count_def)

lemma count_admission_persisted: "c_persisted_records (count_admission r res c) = c_persisted_records c"
  by (cases res) (simp_all add: count_admission_def)

lemma held_emit: "held holds p \<Longrightarrow> held holds (emit ev p)"
  by (rule held_cong, assumption) (auto simp: emit_def count_def split: option.splits)

lemma run_step_error_stops:
  assumes "p_error p \<noteq> None \<longrightarrow> p_worker p = Stopped"
  shows "p_error (run_step persist duration ex now p) \<noteq> None \<longrightarrow> p_worker (run_step persist duration ex now p) = Stopped"
proof -
  have one: "persist_all persist duration packs q = (q', res) \<Longrightarrow> p_error q' = p_error q" for packs q q' res
    using persist_all_error [of persist duration packs q] by simp
  have two: "persist_or_fail persist duration r q = (q', res) \<Longrightarrow> p_error q' = p_error q" for r q q' res
    using persist_or_fail_error [of persist duration r q] by simp
  show ?thesis using assms
    by (simp add: run_step_def run_idle_def Let_def split: prod.split option.split sum.split queue_item.split)
      (auto dest!: one two)
qed

locale pack_sink =
  fixes persist :: "'s sink" and holds :: "'s \<Rightarrow> sealed_pack \<Rightarrow> bool"
  assumes persist_holds: "persist s ready = (s', Inr u) \<Longrightarrow> reads_back rs ready \<Longrightarrow> holds s' (rp_pack ready)"
    and persist_keeps: "holds s sp \<Longrightarrow> holds (fst (persist s ready)) sp"
begin

lemma held_persist_one:
  assumes "held holds p" "persist (p_sink p) ready = (s, Inr u)" "reads_back rs ready" "p_sink p' = s"
    "c_persisted_records (p_counters p') = c_persisted_records (p_counters p) + sp_record_count (rp_pack ready)"
  shows "held holds p'"
proof -
  obtain rss packs where h: "list_all2 reads_back rss packs"
    "c_persisted_records (p_counters p) = int (length (concat rss))" "list_all (\<lambda>r. holds (p_sink p) (rp_pack r)) packs"
    using assms(1) by (auto simp: held_def)
  have "list_all (\<lambda>r. holds s (rp_pack r)) packs"
    using h(3) persist_keeps [of "p_sink p" _ ready] assms(2) by (auto simp: list_all_iff)
  moreover have "sp_record_count (rp_pack ready) = int (length rs)"
    using assms(3) by (auto simp: reads_back_def pack_of_def)
  ultimately show ?thesis
    using h assms persist_holds [OF assms(2,3)] unfolding held_def
    by (intro exI [of _ "rs # rss"] exI [of _ "ready # packs"]) simp
qed

lemma held_persist_all: "held holds p \<Longrightarrow> list_all2 reads_back rss packs \<Longrightarrow> held holds (fst (persist_all persist duration packs p))"
proof (induction packs arbitrary: p rss)
  case (Cons ready packs)
  then obtain rs rest where rs: "reads_back rs ready" "list_all2 reads_back rest packs" by (auto simp: list_all2_Cons2)
  obtain s x where s: "persist (p_sink p) ready = (s, x)" by (cases "persist (p_sink p) ready")
  show ?case
  proof (cases x)
    case (Inl e)
    have "held holds (p\<lparr>p_sink := s\<rparr>)"
      using Cons.prems(1) persist_keeps [of "p_sink p" _ ready] s by (auto simp: held_def list_all_iff)
    with s Inl show ?thesis by simp
  next
    case (Inr u)
    define p1 where "p1 = emit ''pack_persisted'' (count (count_persist ready) (p\<lparr>p_sink := s,
        p_persist_duration := observe (max 0 (duration ready)) (p_persist_duration p)\<rparr>))"
    have "held holds p1" using Cons.prems(1) s [unfolded Inr] rs(1)
      by (rule held_persist_one)
        (auto simp: p1_def emit_def count_def count_persist_def split: option.splits)
    from Cons.IH [OF this rs(2)] show ?thesis using s Inr by (simp add: p1_def)
  qed
qed simp

lemma held_persist_or_fail:
  assumes "held holds p" "kept limit rs packs rs'"
  shows "held holds (fst (persist_or_fail persist duration (a, Inr packs) p))"
proof -
  obtain rss where "list_all2 reads_back rss packs" using kept_reads_back [OF assms(2)] ..
  then have "held holds (fst (persist_all persist duration packs (p\<lparr>p_assembler := a\<rparr>)))"
    using assms(1) by (intro held_persist_all) simp_all
  then show ?thesis by (simp add: persist_or_fail_def)
qed

lemma held_run_step:
  assumes "held holds p" "pl_ok w p"
  shows "held holds (run_step persist duration ex now p)"
proof -
  obtain rs where inv: "asm_inv rs (p_assembler p)" using assms(2) by (auto simp: pl_ok_def)
  have fl: "\<exists>a packs rs'. flush reason (p_assembler p) = (a, Inr packs) \<and> kept (a_max_pack_bytes (p_assembler p)) rs packs rs'" for reason
    using flush_kept [OF inv, of reason] by metis
  have step: "held holds p0 \<Longrightarrow> held holds (fst (persist_or_fail persist duration (flush reason (p_assembler p)) p0))" for reason p0
  proof -
    assume p0: "held holds p0"
    obtain a packs rs' where f: "flush reason (p_assembler p) = (a, Inr packs)"
      "kept (a_max_pack_bytes (p_assembler p)) rs packs rs'" using fl [of reason] by (elim exE conjE)
    show ?thesis unfolding f(1) using p0 f(2) by (rule held_persist_or_fail)
  qed
  have exp: "held holds (fst (persist_or_fail persist duration (flush_expired now (p_assembler p)) p))"
    using step [OF assms(1), of LINGER] held_persist_or_fail [OF assms(1) kept_refl] by (simp add: flush_expired_eq)
  obtain x q where g: "queue_get ex (p_queue p) = (x, q)" by (cases "queue_get ex (p_queue p)")
  show ?thesis
  proof (cases "p_worker p = Running")
    case True
    consider "x = None" | "x = Some None" | b where "x = Some (Some (QBarrier b))" | r where "x = Some (Some (QRecord r))"
      by (metis option.exhaust queue_item.exhaust)
    then show ?thesis
    proof cases
      case 1
      with True g assms(1) show ?thesis by (simp add: run_step_def run_idle_def)
    next
      case 2
      with True g step [OF assms(1), of SHUTDOWN] exp show ?thesis
        by (auto simp: run_step_def run_idle_def held_fail_worker split: prod.splits sum.splits)
    next
      case 3
      have "held holds (p\<lparr>p_queue := q\<rparr>)" using assms(1) by (rule held_cong) simp_all
      from step [OF this, of MANUAL] True g 3 show ?thesis
        by (auto simp: run_step_def run_idle_def split: prod.splits sum.splits intro!: held_fail_worker)
    next
      case 4
      have rok: "record_ok r"
        using assms(2) g 4 queue_get_ok(4) [OF g] by (auto simp: pl_ok_def)
      obtain a res where ap: "assembler_append r now (p_assembler p) = (a, res)" by (cases "assembler_append r now (p_assembler p)")
      have h0: "held holds (p\<lparr>p_queue := q, p_assembler := a\<rparr>)" using assms(1) by (rule held_cong) simp_all
      show ?thesis
      proof (cases res)
        case (Inl e)
        with True g 4 ap h0 show ?thesis
          by (auto simp: run_step_def run_idle_def Let_def intro!: held_fail_worker held_emit held_count)
      next
        case (Inr packs)
        obtain rs' where "kept (a_max_pack_bytes (p_assembler p)) (rs @ [r]) packs rs'"
          using assembler_append_kept [OF inv rok ap [unfolded Inr]] by blast
        then obtain rss where "list_all2 reads_back rss packs" using kept_reads_back by blast
        from held_persist_all [OF h0 this, of duration] True g 4 ap Inr show ?thesis
          by (auto simp: run_step_def run_idle_def split: prod.splits sum.splits intro!: held_fail_worker)
      qed
    qed
  qed (use assms in \<open>simp add: run_step_def run_idle_def\<close>)
qed

lemma pl_run_held:
  assumes "pl_run persist duration w p"
  shows "(p_error p \<noteq> None \<longrightarrow> p_worker p = Stopped) \<and> held holds p"
  using assms
proof (induction rule: pl_run.induct)
  case (new c sink factory callback p p')
  then have "p_counters p' = zero_counters" "p_error p' = None"
    by (auto simp: HostCapturePipeline_def start_def rbind_eq_Inr split: if_splits)
  then show ?case by (auto simp: held_def zero_counters_def intro!: exI [of _ "[]"])
next
  case (enter w p r p' res)
  then show ?case by (auto simp: submit_enter_def Let_def split: if_splits intro!: held_count)
next
  case (admit w p r ex d p' res)
  then show ?case
    by (auto simp: submit_try_def count_admission_persisted split: prod.splits option.splits intro!: held_count)
next
  case (work w p now ex)
  show ?case
  proof (cases "p_worker p = Stopped")
    case True
    with work.IH show ?thesis by (simp add: run_step_stopped)
  next
    case False
    with work.IH pl_run_inv [OF work.hyps(1)] have "pl_ok w p" by simp
    with work.IH held_run_step run_step_error_stops show ?thesis by blast
  qed
next
  case (pending w p target)
  then show ?case by (auto simp: flush_pending_def clear_pending_def split: option.splits)
next
  case (publish w p target)
  then show ?case by (auto simp: flush_publish_def Let_def)
next
  case (enqueue w p b)
  then show ?case by (auto simp: flush_enqueue_def put_barrier_def clear_pending_def)
next
  case (recheck w p b)
  then show ?case by (auto simp: flush_recheck_def clear_pending_def)
next
  case (await w p b ex)
  then show ?case by (auto simp: flush_await_def clear_pending_def)
next
  case (close w p)
  then show ?case by (auto simp: close_begin_def)
qed

end

section \<open>The filesystem sink\<close>

text \<open>\<open>race\<close> tells what a concurrent writer publishes during each call.\<close>

definition direct_sink_persist :: "(direct_sink \<Rightarrow> ready_pack \<Rightarrow> fnode option) \<Rightarrow> direct_sink sink" where
  "direct_sink_persist race s ready =
     (case direct_persist (race s ready) s ready of (s', res) \<Rightarrow> (s', rbind res (\<lambda>_. Inr ())))"

definition stores :: "direct_sink \<Rightarrow> sealed_pack \<Rightarrow> bool" where
  "stores s sp \<longleftrightarrow> (\<exists>path data. fs_tree (ds_store s) path = Some (FReg data)
     \<and> int (length data) = object_bytes sp \<and> hexdigest data = sp_checksum sp)"

lemma sealed_source_honest: "sp_checksum sp = hexdigest (sp_data sp) \<Longrightarrow> source_honest (sealed_source sp)"
  by (simp add: source_honest_def sealed_source_def)

lemma direct_persist_stores:
  assumes "direct_persist other s ready = (s', Inr ref)" "reads_back rs ready"
  shows "stores s' (rp_pack ready)"
proof -
  obtain key st where k: "fs_put other (sealed_source (rp_pack ready)) key (ds_store s) = (st, Inr ref)" "ds_store s' = st"
    using assms(1) by (auto simp: direct_persist_def split: sum.splits prod.splits)
  have hon: "source_honest (sealed_source (rp_pack ready))"
    using assms(2) by (intro sealed_source_honest) (auto simp: reads_back_def pack_of_def)
  from k(1) show ?thesis
    by (rule fs_put_Inr) (use hon k(2) in \<open>auto simp: stores_def sealed_source_def\<close>)
qed

lemma direct_persist_keeps: "stores s sp \<Longrightarrow> stores (fst (direct_persist other s ready)) sp"
  by (auto simp: stores_def direct_persist_def split: sum.splits prod.splits dest: fs_put_keeps_files)

interpretation direct: pack_sink "direct_sink_persist race" stores for race
proof unfold_locales
  show "direct_sink_persist race s ready = (s', Inr u) \<Longrightarrow> reads_back rs ready \<Longrightarrow> stores s' (rp_pack ready)"
    for s ready s' u rs
    using direct_persist_stores [of "race s ready" s ready s' _ rs]
    by (auto simp: direct_sink_persist_def rbind_eq_Inr split: prod.splits)
  show "stores s sp \<Longrightarrow> stores (fst (direct_sink_persist race s ready)) sp" for s sp ready
    using direct_persist_keeps [of s sp "race s ready" ready]
    by (cases "direct_persist (race s ready) s ready") (simp add: direct_sink_persist_def)
qed

section \<open>A concrete run\<close>

definition demo_config :: pipeline_config where
  "demo_config =
     \<lparr>cfg_max_queue_records = 4, cfg_max_queue_bytes = 8192, cfg_max_pack_bytes = 4096, cfg_max_pack_records = 10,
      cfg_max_linger_ns = 3, cfg_overload_policy = DROP_NEWEST, cfg_admission_timeout = PNone\<rparr>"

definition demo_queue :: record_queue where
  "demo_queue = \<lparr>bq_max_records = 4, bq_max_bytes = 8192, bq_items = [], bq_records = 0, bq_bytes = 0,
     bq_peak_records = 0, bq_peak_bytes = 0, bq_closed = False\<rparr>"

definition demo_assembler :: assembler where
  "demo_assembler = \<lparr>a_max_pack_bytes = 4096, a_max_records = 10, a_max_linger_ns = 3, a_pack_id_factory = (\<lambda>_. 5),
     a_next = 0, a_writer = None, a_first_metadata = None, a_scope = None, a_opened_ns = None\<rparr>"

definition demo_pipeline :: "'s \<Rightarrow> 's pipeline" where
  "demo_pipeline s =
     \<lparr>p_config = demo_config, p_sink = s, p_callback = None, p_queue = demo_queue, p_assembler = demo_assembler,
      p_worker = Running, p_pending_flush = None, p_barriers = [], p_error = None, p_counters = zero_counters,
      p_admission_duration = Histogram, p_persist_duration = Histogram\<rparr>"

lemma demo_pipeline: "pl_run persist duration 0 (demo_pipeline s)"
proof (rule pl_run.new)
  show "HostCapturePipeline demo_config s (\<lambda>_. 5) None = Inr ((demo_pipeline s)\<lparr>p_worker := NotStarted\<rparr>)"
    by (simp add: HostCapturePipeline_def BoundedRecordQueue_def PackAssembler_def demo_config_def demo_pipeline_def
        demo_queue_def demo_assembler_def)
qed (simp_all add: start_def demo_pipeline_def demo_config_def)

text \<open>A record whose payload alone has the size of a pack: it is admitted, but fits no pack.\<close>

definition big_record :: capture_record where
  "big_record = \<lparr>rec_metadata = demo_metadata\<lparr>md_capture_id := lit ''c1'', md_shape := [4096]\<rparr>, rec_payload = replicate 4096 0\<rparr>"

lemma big_record_ok: "record_ok big_record"
proof -
  have "metadata_ok (demo_metadata\<lparr>md_capture_id := lit ''c1'', md_shape := [4096]\<rparr>)"
    by (simp add: metadata_ok_def demo_metadata_def text_ok_def utf8_lit TEXT_LIMIT_def MAX_RANK_def DTYPE_BYTES_def)
  then show ?thesis
    by (simp add: record_ok_def big_record_def) (simp add: demo_metadata_def logical_bytes_def dtype_bytes_def DTYPE_BYTES_def)
qed

lemma payload_bytes_demo: "payload_bytes demo_record = 2" "payload_bytes big_record = 4096"
  by (simp_all add: payload_bytes_def demo_record_def big_record_def)

lemma big_record_rejected: "pack_append big_record demo_writer = Inl (Error PackCapacityError ''record would exceed max_pack_bytes'')"
proof -
  note P = PackWriter_footer [OF demo_writer]
  have b: "length (w_buffer demo_writer) = 64" using P(14) by (rule length_header)
  have "aligned_length 64 = 64" "aligned_length (64 + 4096) = 4160" by (simp_all add: aligned_length_def PACK_ALIGNMENT_def)
  moreover have "length (rec_payload big_record) = 4096" by (simp add: big_record_def)
  ultimately show ?thesis
    using P b by (simp add: pack_append_def Let_def TRAILER_SIZE_def)
qed

definition demo_open :: pack_writer where
  "demo_open = (case pack_append demo_record demo_writer of Inr w \<Rightarrow> w | Inl _ \<Rightarrow> undefined)"

lemma demo_open: "pack_append demo_record demo_writer = Inr demo_open"
  using demo_append by (auto simp: demo_open_def rbind_eq_Inr)

lemma demo_writer_with:
  assumes "a_max_pack_bytes a = 4096" "a_max_records a = 10" "a_pack_id_factory a = (\<lambda>_. 5)"
  shows "writer_with demo_record a = (a\<lparr>a_next := Suc (a_next a)\<rparr>, Inr demo_open)"
    "writer_with big_record a = (a\<lparr>a_next := Suc (a_next a)\<rparr>, Inl (Error OversizedRecordError ''capture does not fit an empty pack''))"
proof -
  have "md_captured_at_ns (rec_metadata demo_record) = 7" "md_captured_at_ns (rec_metadata big_record) = 7"
    by (simp_all add: demo_record_def big_record_def demo_metadata_def)
  then show "writer_with demo_record a = (a\<lparr>a_next := Suc (a_next a)\<rparr>, Inr demo_open)"
    "writer_with big_record a = (a\<lparr>a_next := Suc (a_next a)\<rparr>, Inl (Error OversizedRecordError ''capture does not fit an empty pack''))"
    using assms demo_writer demo_open big_record_rejected by (simp_all add: writer_with_def is_instance_def exc_ancestors_def)
qed

lemma pack_append_count: "pack_append r w = Inr w' \<Longrightarrow> record_count w' = record_count w + 1"
  by (auto simp: pack_append_def Let_def record_count_def split: if_splits)

lemma demo_open_count: "record_count demo_open = 1"
  using pack_append_count [OF demo_open] PackWriter_footer [OF demo_writer] by (simp add: record_count_def)

definition demo_asm_open :: assembler where
  "demo_asm_open = adopt demo_open demo_metadata (record_scope demo_record) 0 (demo_assembler\<lparr>a_next := 1\<rparr>)"

lemma demo_assembler_append: "assembler_append demo_record 0 demo_assembler = (demo_asm_open, Inr [])"
proof -
  have "writer_with demo_record demo_assembler = (demo_assembler\<lparr>a_next := Suc (a_next demo_assembler)\<rparr>, Inr demo_open)"
    by (rule demo_writer_with) (simp_all add: demo_assembler_def)
  then show ?thesis
    by (simp add: assembler_append_def flush_expired_def demo_assembler_def append_tail_def adopt_def demo_open_count
        demo_asm_open_def demo_record_def)
qed

lemma pl_run_submit:
  assumes "pl_run persist duration w p" "record_ok r" "submit r ex d p = (p', Inr (Some res))"
  shows "pl_run persist duration w p'"
proof -
  obtain p1 x where e: "submit_enter r p = (p1, x)" by (cases "submit_enter r p")
  note run = pl_run.enter [OF assms(1,2) e]
  show ?thesis
  proof (cases "x = Inr None")
    case True
    with e assms(3) have "submit_try r ex d p1 = (p', Some res)"
      by (cases "submit_try r ex d p1") (simp add: submit_def)
    with True run show ?thesis by (auto intro: pl_run.admit [OF _ assms(2)])
  next
    case False
    with e assms(3) have "p1 = p'" by (auto simp: submit_def split: sum.splits option.splits prod.splits)
    with False run show ?thesis by simp
  qed
qed

text \<open>One record submitted, admitted and taken by the worker; then a second one.\<close>

definition demo_run1 :: "'s \<Rightarrow> 's pipeline" where
  "demo_run1 s = fst (submit demo_record False 1 (demo_pipeline s))"

definition demo_run2 :: "'s \<Rightarrow> 's pipeline" where
  "demo_run2 s = (demo_run1 s)\<lparr>p_queue := snd (queue_get False (p_queue (demo_run1 s))), p_assembler := demo_asm_open\<rparr>"

definition demo_run3 :: "'s \<Rightarrow> 's pipeline" where
  "demo_run3 s = fst (submit big_record False 1 (demo_run2 s))"

lemmas demo_pl_defs = submit_def submit_enter_def submit_try_def queue_put_def queue_fits_def demo_pipeline_def
  demo_config_def demo_queue_def payload_bytes_demo count_def

lemma demo_submit1: "submit demo_record False 1 (demo_pipeline s) = (demo_run1 s, Inr (Some ACCEPTED))"
  unfolding demo_run1_def by (simp add: demo_pl_defs)

lemma demo_run1:
  "bq_items (p_queue (demo_run1 s)) = [QRecord demo_record]" "p_assembler (demo_run1 s) = demo_assembler"
  "p_worker (demo_run1 s) = Running" "p_error (demo_run1 s) = None" "p_config (demo_run1 s) = demo_config"
  "bq_closed (p_queue (demo_run1 s)) = False" "p_sink (demo_run1 s) = s" "p_callback (demo_run1 s) = None"
  "bq_max_records (p_queue (demo_run1 s)) = 4" "bq_max_bytes (p_queue (demo_run1 s)) = 8192"
  "bq_records (p_queue (demo_run1 s)) = 1" "bq_bytes (p_queue (demo_run1 s)) = 2"
  by (simp_all add: demo_run1_def demo_pl_defs)

lemma demo_work1: "run_step persist duration False 0 (demo_run1 s) = demo_run2 s"
  by (simp add: run_step_def run_idle_def demo_run1 queue_get_def demo_assembler_append demo_run2_def)

lemma demo_run2:
  "bq_items (p_queue (demo_run2 s)) = []" "p_assembler (demo_run2 s) = demo_asm_open"
  "p_worker (demo_run2 s) = Running" "p_error (demo_run2 s) = None" "p_config (demo_run2 s) = demo_config"
  "bq_closed (p_queue (demo_run2 s)) = False" "p_sink (demo_run2 s) = s" "p_callback (demo_run2 s) = None"
  "bq_max_records (p_queue (demo_run2 s)) = 4" "bq_max_bytes (p_queue (demo_run2 s)) = 8192"
  "bq_records (p_queue (demo_run2 s)) = 0" "bq_bytes (p_queue (demo_run2 s)) = 0"
  by (simp_all add: demo_run2_def queue_get_def demo_run1 payload_bytes_demo)

lemma demo_submit2: "submit big_record False 1 (demo_run2 s) = (demo_run3 s, Inr (Some ACCEPTED))"
  unfolding demo_run3_def
  by (simp add: submit_def submit_enter_def submit_try_def queue_put_def queue_fits_def payload_bytes_demo demo_run2
      demo_config_def)

lemma demo_run3:
  "bq_items (p_queue (demo_run3 s)) = [QRecord big_record]" "p_assembler (demo_run3 s) = demo_asm_open"
  "p_worker (demo_run3 s) = Running" "p_error (demo_run3 s) = None"
  by (simp_all add: demo_run3_def submit_def submit_enter_def submit_try_def queue_put_def queue_fits_def
      payload_bytes_demo demo_run2 demo_config_def)

lemma demo_not_expired: "\<not> drops_open_pack 0 (demo_run1 s)"
  by (simp add: drops_open_pack_def expired_def demo_run1 demo_assembler_def)

lemma demo_pl_run:
  "pl_run persist duration 0 (demo_run1 s)" "pl_run persist duration 0 (demo_run2 s)" "pl_run persist duration 0 (demo_run3 s)"
proof -
  show 1: "pl_run persist duration 0 (demo_run1 s)"
    by (rule pl_run_submit [OF demo_pipeline demo_record_ok demo_submit1])
  show 2: "pl_run persist duration 0 (demo_run2 s)"
    using pl_run.work [OF 1 demo_not_expired] demo_work1 by metis
  show "pl_run persist duration 0 (demo_run3 s)"
    by (rule pl_run_submit [OF 2 big_record_ok demo_submit2])
qed

section \<open>Properties of the queue and the assembler\<close>

text \<open>C13: under every interleaving of \<^verbatim>\<open>put\<close>, \<^verbatim>\<open>put_barrier\<close>, \<^verbatim>\<open>get\<close> and \<^verbatim>\<open>close\<close> the queue is a bounded FIFO: the
  accepted records are the delivered ones followed by the queued ones, in order; its record and byte counts are
  those of the queued records; and neither they nor their recorded peaks ever pass the limits.\<close>

theorem queue_bounded_fifo:
  assumes "queue_run max_records max_bytes accepted delivered q"
  shows "accepted = delivered @ records_of (bq_items q)
     \<and> bq_records q = int (length (records_of (bq_items q)))
     \<and> bq_bytes q = sum_list (map payload_bytes (records_of (bq_items q)))
     \<and> bq_records q \<le> bq_peak_records q \<and> bq_peak_records q \<le> max_records
     \<and> bq_bytes q \<le> bq_peak_bytes q \<and> bq_peak_bytes q \<le> max_bytes"
  using queue_run_inv [OF assms] by (auto simp: queue_ok_def)

theorem queue_bounded_fifo_witness:
  "\<exists>q. queue_run 4 8192 [demo_record] [demo_record] q \<and> bq_peak_records q \<le> 4 \<and> bq_records q = 0"
proof -
  have n: "queue_run 4 8192 [] [] demo_queue" by (rule queue_run.new) (simp add: BoundedRecordQueue_def demo_queue_def)
  obtain q where q: "queue_put demo_record BLOCK False demo_queue = (Some ACCEPTED, q)" "bq_items q = [QRecord demo_record]"
    by (simp add: queue_put_def queue_fits_def demo_queue_def payload_bytes_demo)
  obtain q' where q': "queue_get False q = (Some (Some (QRecord demo_record)), q')" "bq_items q' = []"
    using q(2) by (simp add: queue_get_def)
  have "queue_run 4 8192 [demo_record] [] q" using queue_run.put [OF n q(1)] by simp
  from queue_run.get [OF this q'(1)] have r: "queue_run 4 8192 [demo_record] [demo_record] q'" by simp
  from queue_bounded_fifo [OF r] r q'(2) show ?thesis by auto
qed


lemma demo_asm_inv: "asm_inv [] demo_assembler" "asm_inv [demo_record] demo_asm_open"
proof -
  show 1: "asm_inv [] demo_assembler" by (simp add: asm_inv_def asm_params_ok_def demo_assembler_def)
  obtain rs' where "kept 4096 ([] @ [demo_record]) [] rs'" "asm_inv rs' demo_asm_open"
    using assembler_append_kept [OF 1 demo_record_ok demo_assembler_append] by (auto simp: demo_assembler_def)
  then show "asm_inv [demo_record] demo_asm_open" by (simp add: kept_def)
qed


text \<open>C15: a record the assembler refuses leaves the open pack as it was, as long as its linger time is not over.\<close>

theorem assembler_refusal_keeps_pack:
  assumes "asm_inv rs a" "record_ok r" "assembler_append r now_ns a = (a', Inl e)" "\<not> expired now_ns a"
  shows "a_writer a' = a_writer a \<and> a_first_metadata a' = a_first_metadata a \<and> a_scope a' = a_scope a
     \<and> a_opened_ns a' = a_opened_ns a \<and> asm_inv rs a'"
  using assembler_append_error [OF assms] assms(1) by auto

lemma pack_append_fields:
  assumes "pack_append r w = Inr w'"
  shows "w_max_pack_bytes w' = w_max_pack_bytes w" "w_max_records w' = w_max_records w" "w_sealed w' = w_sealed w"
    "w_capture_ids w' = md_capture_id (rec_metadata r) # w_capture_ids w" "length (w_records w') = Suc (length (w_records w))"
    "w_record_json_bytes w \<le> w_record_json_bytes w'" "w_pack_id w' = w_pack_id w" "w_created_at_ns w' = w_created_at_ns w"
  using assms by (auto simp: pack_append_def Let_def split: if_splits)

lemma PackWriter_id: "PackWriter (IdUUID u) c mb mr = Inr w \<Longrightarrow> w_pack_id w = uuid_str u"
  by (auto simp: PackWriter_def rbind_eq_Inr split: if_splits option.splits)

lemma demo_open_full:
  "pack_append big_record demo_open = Inl (Error PackCapacityError ''record would exceed max_pack_bytes'')"
proof -
  have o: "w_max_pack_bytes demo_open = 4096" "w_max_records demo_open = 10" "\<not> w_sealed demo_open"
    "w_capture_ids demo_open = [lit ''c0'']" "length (w_records demo_open) = 1"
    "0 \<le> w_record_json_bytes demo_open"
    using pack_append_fields [OF demo_open] PackWriter_footer(3,5,6,7,10,11) [OF demo_writer]
    by (simp_all add: demo_record_def demo_metadata_def del: capture_record.defs)
  have "4096 \<le> aligned_length (aligned_length (int (length (w_buffer demo_open))) + 4096)"
    using aligned_length_le [of "aligned_length (int (length (w_buffer demo_open))) + 4096"]
      aligned_length_le [of "int (length (w_buffer demo_open))"] by simp
  moreover have "md_capture_id (rec_metadata big_record) \<noteq> lit ''c0''" by (simp add: big_record_def lit_def)
  moreover have "length (rec_payload big_record) = 4096" by (simp add: big_record_def)
  ultimately show ?thesis using o by (simp add: pack_append_def Let_def TRAILER_SIZE_def)
qed

lemma demo_refusal:
  "\<exists>a'. assembler_append big_record 0 demo_asm_open = (a', Inl (Error OversizedRecordError ''capture does not fit an empty pack''))"
proof -
  have "writer_with big_record demo_asm_open = (demo_asm_open\<lparr>a_next := Suc (a_next demo_asm_open)\<rparr>,
      Inl (Error OversizedRecordError ''capture does not fit an empty pack''))"
    by (rule demo_writer_with(2)) (simp_all add: demo_asm_open_def adopt_def demo_assembler_def)
  moreover have "flush_expired 0 demo_asm_open = (demo_asm_open, Inr [])" "a_writer demo_asm_open = Some demo_open"
    "a_scope demo_asm_open = Some (record_scope big_record)"
    by (simp_all add: flush_expired_def demo_asm_open_def adopt_def demo_assembler_def record_scope_def demo_record_def big_record_def)
  ultimately show ?thesis
    using demo_open_full
    by (simp add: assembler_append_def replace_writer_def is_instance_def exc_ancestors_def)
qed

theorem assembler_refusal_keeps_pack_witness:
  "\<exists>a' e. assembler_append big_record 0 demo_asm_open = (a', Inl e) \<and> \<not> expired 0 demo_asm_open
     \<and> asm_inv [demo_record] demo_asm_open \<and> record_ok big_record \<and> a_writer a' = Some demo_open"
proof -
  have ne: "\<not> expired 0 demo_asm_open" "a_writer demo_asm_open = Some demo_open"
    by (simp_all add: expired_def demo_asm_open_def adopt_def demo_assembler_def)
  obtain a' e where r: "assembler_append big_record 0 demo_asm_open = (a', Inl e)" using demo_refusal by blast
  from assembler_refusal_keeps_pack [OF demo_asm_inv(2) big_record_ok r ne(1)] r ne demo_asm_inv(2) big_record_ok
  show ?thesis by auto
qed

section \<open>Properties of the pipeline\<close>

lemma run_step_started:
  assumes "p_worker p \<noteq> NotStarted"
  shows "p_worker (run_step persist duration ex now p) \<noteq> NotStarted"
proof -
  have one: "persist_all persist duration packs q = (q', res) \<Longrightarrow> p_worker q \<noteq> NotStarted \<Longrightarrow> p_worker q' \<noteq> NotStarted" for packs q q' res
    using persist_all_queue(2) [of persist duration packs q] by simp
  have two: "persist_or_fail persist duration r q = (q', res) \<Longrightarrow> p_worker q \<noteq> NotStarted \<Longrightarrow> p_worker q' \<noteq> NotStarted" for r q q' res
    using persist_or_fail_queue(2) [of persist duration r q] by simp
  show ?thesis using assms
    by (simp add: run_step_def run_idle_def Let_def split: prod.split option.split sum.split queue_item.split)
      (auto dest: one two)
qed

lemma pl_run_started: "pl_run persist duration w p \<Longrightarrow> p_worker p \<noteq> NotStarted"
proof (induction rule: pl_run.induct)
  case (work w p now ex)
  then show ?case using run_step_started by metis
qed (auto simp: start_def submit_enter_def submit_try_def flush_pending_def flush_publish_def flush_enqueue_def
      flush_recheck_def flush_await_def clear_pending_def put_barrier_def close_begin_def Let_def
      split: if_splits prod.splits option.splits)


definition demo_ready :: ready_pack where
  "demo_ready = (case flush SHUTDOWN demo_asm_open of (_, Inr [ready]) \<Rightarrow> ready | _ \<Rightarrow> undefined)"

lemma seal_fields: "seal w = Inr (sp, w') \<Longrightarrow> sp_pack_id sp = w_pack_id w \<and> sp_created_at_ns sp = w_created_at_ns w
    \<and> sp_record_count sp = int (length (w_records w))"
  by (auto simp: seal_def Let_def rbind_eq_Inr split: if_splits)

lemma demo_ready:
  "flush SHUTDOWN demo_asm_open = (reset demo_asm_open, Inr [demo_ready])" "pack_of 4096 [demo_record] demo_ready"
  "sp_pack_id (rp_pack demo_ready) = uuid_str 5" "sp_created_at_ns (rp_pack demo_ready) = 7"
proof -
  have mb: "a_max_pack_bytes demo_asm_open = 4096" "a_writer demo_asm_open = Some demo_open"
    by (simp_all add: demo_asm_open_def adopt_def demo_assembler_def)
  obtain ready where r: "flush SHUTDOWN demo_asm_open = (reset demo_asm_open, Inr [ready])" "pack_of 4096 [demo_record] ready"
    using flush_inv [OF demo_asm_inv(2), of SHUTDOWN] by (auto simp: mb)
  then show 1: "flush SHUTDOWN demo_asm_open = (reset demo_asm_open, Inr [demo_ready])" and "pack_of 4096 [demo_record] demo_ready"
    by (simp_all add: demo_ready_def)
  obtain sp w' where sl: "seal demo_open = Inr (sp, w')"
    using 1 mb(2) by (auto simp: flush_def split: option.splits sum.splits)
  moreover have "rp_pack demo_ready = sp" using 1 mb(2) sl by (auto simp: flush_def split: option.splits) (metis ready_pack.select_convs(1))
  moreover have "w_pack_id demo_open = w_pack_id demo_writer" "w_created_at_ns demo_open = w_created_at_ns demo_writer"
    by (rule pack_append_fields [OF demo_open])+
  moreover have "w_pack_id demo_writer = uuid_str 5" "w_created_at_ns demo_writer = 7"
    by (rule PackWriter_id [OF demo_writer], rule PackWriter_footer(9) [OF demo_writer])
  ultimately show "sp_pack_id (rp_pack demo_ready) = uuid_str 5" "sp_created_at_ns (rp_pack demo_ready) = 7"
    using seal_fields by metis+
qed

text \<open>Closing the pipeline of the concrete run persists its one pack.\<close>

definition demo_closed :: "'s sink \<Rightarrow> 's \<Rightarrow> 's pipeline" where
  "demo_closed persist s = run_step persist (\<lambda>_. 0) False 0 (fst (close_begin (demo_run2 s)))"

lemma demo_closed:
  assumes "persist s demo_ready = (s', Inr ())"
  shows "pl_run persist (\<lambda>_. 0) 0 (demo_closed persist s)" "p_worker (demo_closed persist s) = Stopped"
    "p_error (demo_closed persist s) = None" "p_sink (demo_closed persist s) = s'"
    "c_persisted_records (p_counters (demo_closed persist s)) = c_persisted_records (p_counters (demo_run2 s)) + 1"
proof -
  let ?p = "fst (close_begin (demo_run2 s))"
  have p: "bq_items (p_queue ?p) = []" "bq_closed (p_queue ?p)" "bq_records (p_queue ?p) = 0" "p_worker ?p = Running"
    "p_assembler ?p = demo_asm_open" "p_sink ?p = s" "p_error ?p = None" "p_callback ?p = None"
    "p_counters ?p = p_counters (demo_run2 s)"
    by (simp_all add: close_begin_def queue_close_def demo_run2)
  have nd: "\<not> drops_open_pack 0 ?p" using p by (simp add: drops_open_pack_def)
  show "pl_run persist (\<lambda>_. 0) 0 (demo_closed persist s)"
    unfolding demo_closed_def by (rule pl_run.work [OF pl_run.close [OF demo_pl_run(2)] nd])
  have "sp_record_count (rp_pack demo_ready) = 1" using demo_ready(2) by (simp add: pack_of_def)
  then show "p_worker (demo_closed persist s) = Stopped" "p_error (demo_closed persist s) = None" "p_sink (demo_closed persist s) = s'"
    "c_persisted_records (p_counters (demo_closed persist s)) = c_persisted_records (p_counters (demo_run2 s)) + 1"
    by (simp_all add: demo_closed_def run_step_def run_idle_def queue_get_def p demo_ready(1) persist_or_fail_def assms emit_def
        count_def count_persist_def)
qed


text \<open>C18: the accounting fails when the linger time of the open pack is over and the record that the worker takes
  next fits no empty pack. The expired pack is sealed and taken out of the assembler, then the refusal of the
  record discards it: its records are neither persisted nor counted, and the pipeline goes on without an
  error.\<close>

theorem expired_pack_is_lost:
  assumes "pl_run persist duration waiting p" "p_worker p = Running" "p_error p = None" "0 \<le> now"
    "expired now (p_assembler p)" "bq_items (p_queue p) = QRecord r # items"
    "snd (writer_with r (fst (flush LINGER (p_assembler p)))) = Inl (Error OversizedRecordError msg)"
  shows "let p' = run_step persist duration ex now p in
     p_error p' = None \<and> p_worker p' = Running \<and> a_writer (p_assembler p') = None
     \<and> 0 < open_records (p_assembler p) \<and> c_persisted_records (p_counters p') = c_persisted_records (p_counters p)
     \<and> c_submitted_records (p_counters p') = settled p' + int waiting + open_records (p_assembler p)"
proof -
  have ok: "pl_ok waiting p" using pl_run_inv [OF assms(1)] assms(3) by simp
  then obtain rs where inv: "asm_inv rs (p_assembler p)" by (auto simp: pl_ok_def)
  obtain a where a: "assembler_append r now (p_assembler p) = (a, Inl (Error OversizedRecordError msg))" "a_writer a = None"
    using assembler_append_drops [OF inv assms(4,5,7)] by blast
  have "rs \<noteq> []" using inv assms(5) by (auto simp: asm_inv_def expired_def split: option.splits)
  then have pos: "0 < open_records (p_assembler p)" using asm_inv_open_records [OF inv] by simp
  let ?p' = "run_step persist duration ex now p"
  obtain q where q: "queue_get ex (p_queue p) = (Some (Some (QRecord r)), q)" "bq_records q = bq_records (p_queue p) - 1"
    using assms(6) by (simp add: queue_get_def)
  have p': "?p' = emit ''record_oversized'' (count (\<lambda>c. c\<lparr>c_oversized_records := c_oversized_records c + 1\<rparr>)
      (p\<lparr>p_queue := q, p_assembler := a\<rparr>))"
    using assms(2) q a(1) by (simp add: run_step_def run_idle_def Let_def is_instance_def exc_ancestors_def)
  have "settled ?p' = settled p - open_records (p_assembler p)"
    unfolding p' emit_counters using q a(2) by (simp add: settled_def Let_def open_records_def)
  moreover have "c_submitted_records (p_counters ?p') = c_submitted_records (p_counters p)"
    "c_persisted_records (p_counters ?p') = c_persisted_records (p_counters p)"
    by (simp_all add: p' emit_def count_def split: option.splits)
  ultimately show ?thesis using ok a(2) assms(2,3) pos by (simp add: pl_ok_def Let_def) (simp add: p')
qed

theorem expired_pack_is_lost_witness:
  "let p = demo_run3 []; p' = run_step (\<lambda>packs ready. (ready # packs, Inr ())) (\<lambda>_. 0) False 3 p in
   p_error p' = None \<and> a_writer (p_assembler p') = None \<and> c_persisted_records (p_counters p') = c_persisted_records (p_counters p)
   \<and> settled p' < c_submitted_records (p_counters p')"
proof -
  let ?persist = "\<lambda>packs ready. (ready # packs, Inr ())"
  have asm: "a_opened_ns demo_asm_open = Some 0" "a_max_linger_ns demo_asm_open = 3"
    by (simp_all add: demo_asm_open_def adopt_def demo_assembler_def)
  have e: "expired 3 (p_assembler (demo_run3 []))" by (simp add: expired_def demo_run3 asm)
  have f: "fst (flush LINGER demo_asm_open) = reset demo_asm_open"
    using flush_inv [OF demo_asm_inv(2), of LINGER] by auto
  have w: "snd (writer_with big_record (fst (flush LINGER (p_assembler (demo_run3 [])))))
      = Inl (Error OversizedRecordError ''capture does not fit an empty pack'')"
    unfolding demo_run3 f
    by (subst demo_writer_with(2)) (simp_all add: reset_def demo_asm_open_def adopt_def demo_assembler_def)
  show ?thesis
    using expired_pack_is_lost [OF demo_pl_run(3) demo_run3(3,4) _ e demo_run3(1) w, of ?persist "\<lambda>_. 0" False]
    by (simp add: Let_def)
qed

text \<open>C17: a flush barrier that the worker reaches and completes without an error leaves nothing open: every record
  taken from the queue before it has been handed to the sink, its counters are settled, and the waiter sees a
  completed barrier.\<close>

theorem flush_barrier_leaves_nothing_open:
  assumes "pl_run persist duration waiting p" "p_worker p = Running" "bq_items (p_queue p) = QBarrier b # items"
    "b < length (p_barriers p)" "p_error (run_step persist duration ex now p) = None"
  shows "let p' = run_step persist duration ex now p in
     open_records (p_assembler p') = 0 \<and> fb_completed (p_barriers p' ! b) \<and> bq_items (p_queue p') = items
     \<and> settled p' = settled p \<and> p_worker p' = Running"
proof -
  have "p_error p = None" using run_step_error_latched assms(5) by metis
  then have ok: "pl_ok waiting p" using pl_run_inv [OF assms(1)] by simp
  obtain q where q: "queue_get ex (p_queue p) = (Some (Some (QBarrier b)), q)" "bq_items q = items"
    using assms(3) by (simp add: queue_get_def)
  note h = run_step_barrier_ok [OF ok assms(2) q(1) assms(5)]
  obtain p1 u where p1: "persist_or_fail persist duration (flush MANUAL (p_assembler p)) (p\<lparr>p_queue := q\<rparr>) = (p1, u)"
    by (cases "persist_or_fail persist duration (flush MANUAL (p_assembler p)) (p\<lparr>p_queue := q\<rparr>)")
  then obtain v where u: "u = Inr v" using assms(2,5) q(1) by (cases u) (simp_all add: run_step_def run_idle_def)
  have p': "run_step persist duration ex now p = complete_barrier b None p1"
    using assms(2) q(1) p1 u by (simp add: run_step_def run_idle_def)
  have "p_barriers p1 = p_barriers p" "p_queue p1 = q" "p_worker p1 = Running"
    "c_submitted_records (p_counters p1) = c_submitted_records (p_counters p)"
    using persist_all_ok [of persist duration _ _ p1 v] p1 u assms(2)
    by (auto simp: persist_or_fail_def split: prod.splits sum.splits)
  then show ?thesis using h ok assms(4) q(2) unfolding p'
    by (simp add: Let_def open_records_def pl_ok_def) (simp add: complete_barrier_def)
qed

text \<open>The barrier of a flush published and queued on the concrete run.\<close>

definition demo_flush :: "'s \<Rightarrow> 's pipeline" where
  "demo_flush s = fst (flush_enqueue 0 (snd (flush_publish 1 (demo_run2 s))))"

lemma demo_flush:
  "pl_run persist duration 0 (demo_flush s)" "bq_items (p_queue (demo_flush s)) = [QBarrier 0]" "p_worker (demo_flush s) = Running"
  "length (p_barriers (demo_flush s)) = 1" "p_assembler (demo_flush s) = demo_asm_open" "p_error (demo_flush s) = None"
  "p_callback (demo_flush s) = None" "p_sink (demo_flush s) = s"
proof -
  have "p_barriers (demo_run2 s) = []" by (simp add: demo_run2_def demo_run1_def demo_pl_defs)
  then show "bq_items (p_queue (demo_flush s)) = [QBarrier 0]" "p_worker (demo_flush s) = Running"
    "length (p_barriers (demo_flush s)) = 1" "p_assembler (demo_flush s) = demo_asm_open" "p_error (demo_flush s) = None"
    "p_callback (demo_flush s) = None" "p_sink (demo_flush s) = s"
    by (simp_all add: demo_flush_def flush_enqueue_def flush_publish_def put_barrier_def Let_def demo_run2)
  show "pl_run persist duration 0 (demo_flush s)"
    unfolding demo_flush_def by (intro pl_run.enqueue pl_run.publish demo_pl_run)
qed

theorem flush_barrier_leaves_nothing_open_witness:
  "let p = demo_flush []; p' = run_step (\<lambda>packs ready. (ready # packs, Inr ())) (\<lambda>_. 0) False 0 p in
   open_records (p_assembler p) = 1 \<and> open_records (p_assembler p') = 0 \<and> fb_completed (p_barriers p' ! 0)"
proof -
  let ?persist = "\<lambda>packs ready. (ready # packs, Inr ())"
  obtain ready where "flush MANUAL demo_asm_open = (reset demo_asm_open, Inr [ready])"
    using flush_inv [OF demo_asm_inv(2), of MANUAL] by auto
  then have e: "p_error (run_step ?persist (\<lambda>_. 0) False 0 (demo_flush [])) = None"
    by (simp add: run_step_def run_idle_def demo_flush queue_get_def persist_or_fail_def)
  have o: "open_records (p_assembler (demo_flush [])) = 1"
    using asm_inv_open_records [OF demo_asm_inv(2)] by (simp add: demo_flush)
  have b: "0 < length (p_barriers (demo_flush []))" unfolding demo_flush(4) by simp
  show ?thesis
    using flush_barrier_leaves_nothing_open [OF demo_flush(1,3,2) b e] o by (simp add: Let_def)
qed

text \<open>C16: closing a pipeline that has not failed always stops its worker: with the queue closed it takes at most
  one step for each queued item and one more, whatever the clock and the sink do, so \<^verbatim>\<open>close\<close> does not run into
  its timeout once the worker has been scheduled that often.\<close>

theorem close_stops_the_worker:
  assumes "pl_run persist duration waiting p" "p_error p = None" "length (bq_items (p_queue p)) < length clock"
  shows "let p' = work persist duration clock (fst (close_begin p)) in
     p_worker p' = Stopped \<and> (close_finish p' = Inr (pipeline_snapshot_of p')
        \<or> close_finish p' = Inl (Error PipelineFailedError ''capture pipeline failed''))"
proof -
  have "queue_ok (p_queue p)" using pl_run_inv [OF assms(1)] assms(2) by (simp add: pl_ok_def)
  then have "p_worker (work persist duration clock (fst (close_begin p))) = Stopped"
    using assms(3) pl_run_started [OF assms(1)]
    by (intro work_drains) (simp_all add: close_begin_def queue_close_def queue_ok_def)
  then show ?thesis by (simp add: Let_def close_finish_def raise_if_failed_def require_def)
qed

theorem close_stops_the_worker_witness:
  "p_worker (work (\<lambda>packs ready. (ready # packs, Inr ())) (\<lambda>_. 0) [(False, 0), (False, 1)] (fst (close_begin (demo_run1 [])))) = Stopped"
  by (rule close_stops_the_worker [unfolded Let_def, THEN conjunct1, OF demo_pl_run(1) demo_run1(4)]) (simp add: demo_run1)


lemma fs_put_fresh:
  assumes "validate_pack_source src = Inr ()" "fs_path key = Inr path" "copy_pack_source src = Inr data"
    "path \<noteq> []" "fs_tree st = [[] \<mapsto> FDir]"
  shows "\<exists>st' ref. fs_put None src key st = (st', Inr ref)"
proof -
  have "path \<notin> set (ancestors path)" using ancestors_shorter by blast
  moreover have "list_all (\<lambda>a. fs_tree st a \<in> {None, Some FDir}) (ancestors path)" by (auto simp: list_all_iff assms(5))
  ultimately show ?thesis using assms by (simp add: fs_put_def mkdir_parents_def)
qed

definition demo_direct :: direct_sink where
  "demo_direct = \<lparr>ds_store = \<lparr>fs_store_id = lit ''fs'', fs_tree = [[] \<mapsto> FDir]\<rparr>, ds_last_ref = None\<rparr>"

lemma demo_sealed_source:
  "validate_pack_source (sealed_source (rp_pack demo_ready)) = Inr ()"
  "copy_pack_source (sealed_source (rp_pack demo_ready)) = Inr (sp_data (rp_pack demo_ready))"
proof -
  obtain rd where r: "sp_record_count (rp_pack demo_ready) = 1" "object_bytes (rp_pack demo_ready) \<le> 4096"
    "sp_checksum (rp_pack demo_ready) = hexdigest (sp_data (rp_pack demo_ready))" "from_bytes (sp_data (rp_pack demo_ready)) = Inr rd"
    using demo_ready(2) by (auto simp: pack_of_def)
  have "sp_data (rp_pack demo_ready) \<noteq> []" using r(4) by (auto simp: from_bytes_def HEADER_SIZE_def TRAILER_SIZE_def)
  then show "validate_pack_source (sealed_source (rp_pack demo_ready)) = Inr ()"
    using r demo_ready(3,4) uuid_parse_str [of 5]
    by (simp add: validate_pack_source_def sealed_source_def object_bytes_def sha256_pattern_hexdigest)
  then show "copy_pack_source (sealed_source (rp_pack demo_ready)) = Inr (sp_data (rp_pack demo_ready))"
    by (simp add: copy_pack_source_def drain_pack_source_def) (simp add: sealed_source_def object_bytes_def)
qed

lemma demo_direct_persist: "\<exists>s'. direct_sink_persist (\<lambda>_ _. None) demo_direct demo_ready = (s', Inr ())"
proof -
  have m: "rp_first_metadata demo_ready = demo_metadata" using demo_ready(2) by (simp add: pack_of_def demo_record_def)
  have "metadata_ok (rp_first_metadata demo_ready)" using m demo_metadata_ok by simp
  from object_key_for_own_tenant [OF this demo_ready(3)]
  obtain key parts where k: "object_key_for demo_ready = Inr key" "validate_object_key key = Inr parts" "length parts = 6" by blast
  then have p: "fs_path key = Inr parts" "parts \<noteq> []" by (auto simp: fs_path_def)
  obtain st' ref where "fs_put None (sealed_source (rp_pack demo_ready)) key (ds_store demo_direct) = (st', Inr ref)"
    using fs_put_fresh [OF demo_sealed_source(1) p(1) demo_sealed_source(2) p(2), of "ds_store demo_direct"]
    by (auto simp: demo_direct_def)
  then show ?thesis using k(1) by (simp add: direct_sink_persist_def direct_persist_def)
qed


text \<open>C20: the object key of a pack is one every store accepts, with six components, and its tenant segment passes
  the tenant check of the reader for the tenant of the pack's records, whatever characters the identifiers
  have.\<close>

theorem object_key_for_is_accepted:
  assumes "metadata_ok (rp_first_metadata ready)" "sp_pack_id (rp_pack ready) = uuid_str u"
  shows "\<exists>key parts. object_key_for ready = Inr key \<and> validate_object_key key = Inr parts \<and> length parts = 6
    \<and> (\<forall>ref tenants. ref_object_key ref = key \<and> set tenants = {md_tenant_id (rp_first_metadata ready)}
         \<longrightarrow> reject_a_foreign_tenant ref tenants = Inr ())"
  using assms by (rule object_key_for_own_tenant)

theorem object_key_for_is_accepted_witness:
  "\<exists>key parts. object_key_for demo_ready = Inr key \<and> validate_object_key key = Inr parts \<and> length parts = 6"
proof -
  have "rp_first_metadata demo_ready = demo_metadata" using demo_ready(2) by (simp add: pack_of_def demo_record_def)
  then have "metadata_ok (rp_first_metadata demo_ready)" using demo_metadata_ok by simp
  from object_key_for_is_accepted [OF this demo_ready(3)] show ?thesis by blast
qed

text \<open>C19: a flush can wait for ever. The worker's wait times out on an empty queue; before it looks at the queue
  again, one thread queues a flush barrier and another closes the pipeline. The worker then sees a closed queue
  without records and stops, successfully, leaving the barrier queued: nothing will ever complete it, so a
  \<^verbatim>\<open>flush\<close> without a timeout does not return.\<close>

theorem shutdown_abandons_flush_barrier:
  assumes "pl_run persist duration waiting p" "p_worker p = Running" "p_error p = None"
    "bq_items (p_queue p) = []" "\<not> bq_closed (p_queue p)" "flush_publish target p = (b, p1)"
    "p3 = run_idle persist duration now (fst (close_begin (fst (flush_enqueue b p1))))" "p_error p3 = None"
  shows "queue_get True (p_queue p) = (Some None, p_queue p) \<and> p_worker p3 = Stopped
     \<and> flush_await b False (work persist duration clock p3) = (work persist duration clock p3, Inr None)"
proof -
  let ?p2 = "fst (close_begin (fst (flush_enqueue b p1)))"
  have ok: "queue_ok (p_queue p)" using pl_run_inv [OF assms(1)] assms(3) by (simp add: pl_ok_def)
  have p1: "p1 = p\<lparr>p_barriers := p_barriers p @ [\<lparr>fb_target_admitted = target, fb_completed = False, fb_error = None\<rparr>],
      p_pending_flush := Some b\<rparr>" and b: "b = length (p_barriers p)"
    using assms(6) by (auto simp: flush_publish_def Let_def)
  have p2: "p_barriers ?p2 = p_barriers p1" "bq_closed (p_queue ?p2)" "bq_records (p_queue ?p2) = 0"
    using assms(4,5) ok
    by (auto simp: close_begin_def flush_enqueue_def put_barrier_def queue_close_def p1 queue_ok_def)
  obtain q u where q: "persist_or_fail persist duration (flush SHUTDOWN (p_assembler ?p2)) ?p2 = (q, u)"
    by (cases "persist_or_fail persist duration (flush SHUTDOWN (p_assembler ?p2)) ?p2")
  have "p_barriers (fst (persist_all persist duration packs x)) = p_barriers x" for packs x
    by (induction packs arbitrary: x) (auto split: prod.splits sum.splits)
  then have "p_barriers (fst (persist_or_fail persist duration r x)) = p_barriers x" for r x
    by (auto simp: persist_or_fail_def split: prod.splits sum.splits)
  from this [of "flush SHUTDOWN (p_assembler ?p2)" ?p2] have bq: "p_barriers q = p_barriers p1" using q p2(1) by simp
  have p3: "p3 = q\<lparr>p_worker := Stopped\<rparr>" using assms(7,8) q p2(2,3) by (cases u) (simp_all add: run_idle_def)
  then have st: "p_worker p3 = Stopped" "\<not> fb_completed (p_barriers p3 ! b)" by (simp_all add: bq p1 b)
  have "queue_get True (p_queue p) = (Some None, p_queue p)" using assms(4) by (simp add: queue_get_def)
  with st show ?thesis by (simp add: work_stopped flush_await_def)
qed

lemma demo_run2_open: "run_idle (\<lambda>packs ready. (ready # packs, Inr ())) (\<lambda>_. 0) 0 p =
    (fst (persist_or_fail (\<lambda>packs ready. (ready # packs, Inr ())) (\<lambda>_. 0) (flush SHUTDOWN (p_assembler p)) p))\<lparr>p_worker := Stopped\<rparr>"
  if "bq_closed (p_queue p)" "bq_records (p_queue p) = 0" "p_assembler p = demo_asm_open"
  using that by (simp add: run_idle_def persist_or_fail_def demo_ready)

theorem shutdown_abandons_flush_barrier_witness:
  "\<exists>b p1 p3. flush_publish 1 (demo_run2 []) = (b, p1)
     \<and> p3 = run_idle (\<lambda>packs ready. (ready # packs, Inr ())) (\<lambda>_. 0) 0 (fst (close_begin (fst (flush_enqueue b p1))))
     \<and> p_error p3 = None \<and> p_worker p3 = Stopped
     \<and> flush_await b False (work (\<lambda>packs ready. (ready # packs, Inr ())) (\<lambda>_. 0) [(True, 1), (True, 2)] p3)
        = (work (\<lambda>packs ready. (ready # packs, Inr ())) (\<lambda>_. 0) [(True, 1), (True, 2)] p3, Inr None)"
proof -
  let ?persist = "\<lambda>packs ready. (ready # packs, Inr ())"
  obtain b p1 where f: "flush_publish 1 (demo_run2 ([] :: ready_pack list)) = (b, p1)" by (cases "flush_publish 1 (demo_run2 ([] :: ready_pack list))")
  define p2 where "p2 = fst (close_begin (fst (flush_enqueue b p1)))"
  have p2: "bq_closed (p_queue p2)" "bq_records (p_queue p2) = 0" "p_assembler p2 = demo_asm_open" "p_error p2 = None"
    using f by (auto simp: p2_def close_begin_def flush_enqueue_def put_barrier_def queue_close_def flush_publish_def Let_def demo_run2)
  have e: "p_error (run_idle ?persist (\<lambda>_. 0) 0 p2) = None"
    unfolding demo_run2_open [OF p2(1-3)] using persist_or_fail_error [of ?persist "\<lambda>_. 0"] p2(4) by simp
  from shutdown_abandons_flush_barrier [OF demo_pl_run(2) demo_run2(3,4,1) _ f refl, of ?persist "\<lambda>_. 0" 0 "[(True, 1), (True, 2)]"]
  have "p_worker (run_idle ?persist (\<lambda>_. 0) 0 p2) = Stopped
    \<and> flush_await b False (work ?persist (\<lambda>_. 0) [(True, 1), (True, 2)] (run_idle ?persist (\<lambda>_. 0) 0 p2))
        = (work ?persist (\<lambda>_. 0) [(True, 1), (True, 2)] (run_idle ?persist (\<lambda>_. 0) 0 p2), Inr None)"
    using e by (simp add: p2_def demo_run2(6))
  with f e show ?thesis unfolding p2_def by blast
qed

end
