(* ===== verification/Spool.thy ===== *)
theory Spool
  imports PipelineRuns
begin

text \<open>
  The durable pack spool of \<^verbatim>\<open>storage/capture/spool.py\<close>: packs are staged as files whose names carry
  their metadata, recovered after a restart, removed once uploaded, and accounted against a byte limit.
  The directory tree under the spool is an association list from absolute path components to nodes, so
  that \<^verbatim>\<open>rglob\<close> is a list operation; it holds no symbolic links to directories, and \<open>FOther\<close> is a symbolic
  link to an existing file. The temporary file of a stage is created and unlinked while the lock is held
  and so is not part of the tree; leftovers of a crashed process are. Every directory \<^verbatim>\<open>fsync\<close> takes its
  outcome from \<open>dps_sync_faults\<close>: \<open>True\<close> is one that raises, and the ones after the list succeed.
\<close>

section \<open>The state of the spool\<close>

record staged_pack =
  stg_pack_id :: pystr
  stg_created_at_ns :: int
  stg_record_count :: int
  stg_checksum :: pystr
  stg_object_key :: pystr
  stg_path :: "pystr list"
  stg_object_bytes :: int

record spool =
  dps_root :: "pystr list"
  dps_files :: "(pystr list \<times> fnode) list"
  dps_max_bytes :: int
  dps_bytes :: int
  dps_entries :: int
  dps_peak_bytes :: int
  dps_accounted_ready :: "(pystr list \<times> int) list"
  dps_mutation_generation :: int
  dps_sync_faults :: "bool list"

type_synonym 'a spool_result = "spool \<times> 'a result"

definition st_bind :: "'s \<times> 'a result \<Rightarrow> ('s \<Rightarrow> 'a \<Rightarrow> 's \<times> 'b result) \<Rightarrow> 's \<times> 'b result" where
  "st_bind m f = (case m of (s, Inl e) \<Rightarrow> (s, Inl e) | (s, Inr x) \<Rightarrow> f s x)"

lemma st_bind_simps [simp]: "st_bind (s, Inl e) f = (s, Inl e)" "st_bind (s, Inr x) f = f s x"
  by (simp_all add: st_bind_def)

lemma st_bind_eq_Inr: "st_bind m f = (s', Inr y) \<longleftrightarrow> (\<exists>s x. m = (s, Inr x) \<and> f s x = (s', Inr y))"
  by (cases m; cases "snd m") auto

lemma st_bind_Inl: "fst m = s \<Longrightarrow> snd m = Inl e \<Longrightarrow> st_bind m f = (s, Inl e)"
  by (cases m) simp

record spool_snapshot =
  ss_entries :: int
  ss_bytes :: int
  ss_peak_bytes :: int
  ss_max_bytes :: int

section \<open>Directory operations\<close>

definition is_relative_to :: "pystr list \<Rightarrow> pystr list \<Rightarrow> bool" where
  "is_relative_to base path \<longleftrightarrow> take (length base) path = base"

definition endswith :: "pystr \<Rightarrow> pystr \<Rightarrow> bool" where
  "endswith suffix s \<longleftrightarrow> length suffix \<le> length s \<and> drop (length s - length suffix) s = suffix"

definition READY_SUFFIX :: pystr where "READY_SUFFIX = lit ''.dmi-pack.ready''"

definition OPEN_SUFFIX :: pystr where "OPEN_SUFFIX = lit ''.open''"

text \<open>\<^verbatim>\<open>self.root.rglob("*" + suffix)\<close>.\<close>

definition rglob_match :: "pystr list \<Rightarrow> pystr \<Rightarrow> pystr list \<Rightarrow> bool" where
  "rglob_match base suffix path \<longleftrightarrow> is_relative_to base path \<and> length base < length path \<and> endswith suffix (last path)"

definition rglob :: "pystr \<Rightarrow> spool \<Rightarrow> pystr list list" where
  "rglob suffix sp = filter (rglob_match (dps_root sp) suffix) (map fst (dps_files sp))"

definition node :: "spool \<Rightarrow> pystr list \<Rightarrow> fnode option" where
  "node sp path = map_of (dps_files sp) path"

definition put_node :: "pystr list \<Rightarrow> fnode \<Rightarrow> spool \<Rightarrow> spool" where
  "put_node path n sp = sp\<lparr>dps_files := dict_set path n (dps_files sp)\<rparr>"

definition unlink :: "pystr list \<Rightarrow> spool \<Rightarrow> spool" where
  "unlink path sp = sp\<lparr>dps_files := filter (\<lambda>f. fst f \<noteq> path) (dps_files sp)\<rparr>"

definition fsync_directory :: "spool \<Rightarrow> unit spool_result" where
  "fsync_directory sp =
     (case dps_sync_faults sp of
        [] \<Rightarrow> (sp, Inr ())
      | fault # rest \<Rightarrow>
          (sp\<lparr>dps_sync_faults := rest\<rparr>, if fault then Inl (Error OSError ''fsync failed'') else Inr ()))"

text \<open>The directories from the leaf up to the root, one after the other.\<close>

fun fsync_chain :: "nat \<Rightarrow> spool \<Rightarrow> unit spool_result" where
  "fsync_chain 0 sp = fsync_directory sp"
| "fsync_chain (Suc n) sp = st_bind (fsync_directory sp) (\<lambda>sp' _. fsync_chain n sp')"

definition fsync_path_to_root :: "pystr list \<Rightarrow> spool \<Rightarrow> unit spool_result" where
  "fsync_path_to_root leaf sp =
     (if \<not> is_relative_to (dps_root sp) leaf then (sp, Inl (Error ValueError ''leaf is not under root''))
      else fsync_chain (length leaf - length (dps_root sp)) sp)"

text \<open>\<^verbatim>\<open>path.parent.mkdir(parents=True, exist_ok=True)\<close> below the root, which exists.\<close>

definition mkdir_spool :: "pystr list \<Rightarrow> spool \<Rightarrow> unit spool_result" where
  "mkdir_spool path sp =
     (let dirs = map (\<lambda>n. take n path) [Suc (length (dps_root sp))..<length path] in
      if list_all (\<lambda>d. node sp d \<in> {None, Some FDir}) dirs
      then (fold (\<lambda>d. put_node d FDir) dirs sp, Inr ())
      else (sp, Inl (Error OSError ''not a directory'')))"

section \<open>Accounting\<close>

text \<open>The size \<^verbatim>\<open>lstat\<close> reports; that of a directory or a link is the file system's affair.\<close>

definition lstat_size :: "(pystr list \<Rightarrow> int) \<Rightarrow> pystr list \<times> fnode \<Rightarrow> int" where
  "lstat_size other_size f = (case snd f of FReg data \<Rightarrow> int (length data) | _ \<Rightarrow> other_size (fst f))"

definition DurablePackSpool ::
    "pystr list \<Rightarrow> (pystr list \<times> fnode) list \<Rightarrow> (pystr list \<Rightarrow> int) \<Rightarrow> bool list \<Rightarrow> int \<Rightarrow> spool result" where
  "DurablePackSpool base files other_size faults max_bytes =
     (if max_bytes \<le> 0 then Inl (Error ValueError ''max_bytes must be positive'')
      else
        let ready = filter (\<lambda>f. rglob_match base READY_SUFFIX (fst f)) files;
            stale = filter (\<lambda>f. rglob_match base OPEN_SUFFIX (fst f)) files;
            ready_bytes = map (\<lambda>f. (fst f, lstat_size other_size f)) ready;
            total = sum_list (map snd ready_bytes) + sum_list (map (lstat_size other_size) stale)
        in Inr \<lparr>dps_root = base, dps_files = files, dps_max_bytes = max_bytes, dps_bytes = total,
             dps_entries = int (length ready), dps_peak_bytes = total, dps_accounted_ready = ready_bytes,
             dps_mutation_generation = 0, dps_sync_faults = faults\<rparr>)"

definition account_ready :: "pystr list \<Rightarrow> int \<Rightarrow> spool \<Rightarrow> spool" where
  "account_ready path n sp =
     (if path \<in> set (map fst (dps_accounted_ready sp)) then sp
      else sp\<lparr>dps_accounted_ready := dict_set path n (dps_accounted_ready sp),
              dps_bytes := dps_bytes sp + n,
              dps_entries := dps_entries sp + 1,
              dps_peak_bytes := max (dps_peak_bytes sp) (dps_bytes sp + n),
              dps_mutation_generation := dps_mutation_generation sp + 1\<rparr>)"

definition unaccount_ready :: "pystr list \<Rightarrow> spool \<Rightarrow> spool" where
  "unaccount_ready path sp =
     (case map_of (dps_accounted_ready sp) path of
        None \<Rightarrow> sp
      | Some n \<Rightarrow>
          sp\<lparr>dps_accounted_ready := filter (\<lambda>a. fst a \<noteq> path) (dps_accounted_ready sp),
             dps_bytes := dps_bytes sp - n,
             dps_entries := dps_entries sp - 1,
             dps_mutation_generation := dps_mutation_generation sp + 1\<rparr>)"

definition snapshot :: "spool \<Rightarrow> spool_snapshot" where
  "snapshot sp =
     \<lparr>ss_entries = dps_entries sp, ss_bytes = dps_bytes sp, ss_peak_bytes = dps_peak_bytes sp,
      ss_max_bytes = dps_max_bytes sp\<rparr>"

section \<open>Ready files\<close>

definition ready_name :: "pack_source \<Rightarrow> pystr" where
  "ready_name p =
     src_pack_id p @ [46] @ dec_of_int (src_created_at_ns p) @ [46] @ dec_of_int (src_record_count p) @ [46]
     @ src_checksum p @ READY_SUFFIX"

definition ready_path :: "pystr list \<Rightarrow> pystr list \<Rightarrow> pack_source \<Rightarrow> pystr list result" where
  "ready_path base key p =
     (let path = base @ butlast key @ [ready_name p] in
      if \<not> is_relative_to base (butlast path) then Inl (Error ValueError ''object key escapes the spool root'')
      else Inr path)"

text \<open>\<^verbatim>\<open>_READY_NAME.fullmatch\<close>: pack ID, creation time, record count and checksum.\<close>

definition match_ready_name :: "pystr \<Rightarrow> (pystr \<times> pystr \<times> pystr \<times> pystr) option" where
  "match_ready_name s =
     (let pack_id = take 36 s; s1 = drop 37 s;
          created = takeWhile is_digit s1; s2 = drop (Suc (length created)) s1;
          records = takeWhile is_digit s2; s3 = drop (Suc (length records)) s2;
          checksum = take 64 s3
      in if length pack_id = 36 \<and> list_all (\<lambda>c. is_lower_hex c \<or> c = 45) pack_id
            \<and> s = pack_id @ [46] @ created @ [46] @ records @ [46] @ checksum @ READY_SUFFIX
            \<and> created \<noteq> [] \<and> records \<noteq> [] \<and> length checksum = 64 \<and> list_all is_lower_hex checksum
         then Some (pack_id, created, records, checksum) else None)"

text \<open>\<^verbatim>\<open>int()\<close> of a run of digits, with Python's limit on their number.\<close>

definition int_of_digits :: "pystr \<Rightarrow> int result" where
  "int_of_digits s =
     (if int_digits_limit < length s then Inl (Error ValueError ''Exceeds the limit for integer string conversion'')
      else Inr (int (dec_val s)))"

text \<open>\<^verbatim>\<open>StagedPack\<close> as a pack source: \<^verbatim>\<open>open\<close> opens the file at its path.\<close>

definition open_staged :: "spool \<Rightarrow> pystr list \<Rightarrow> bytes result" where
  "open_staged sp path =
     (case node sp path of
        None \<Rightarrow> Inl (Error FileNotFoundError ''no such file'')
      | Some (FReg data) \<Rightarrow> Inr data
      | Some _ \<Rightarrow> Inl (Error PackFormatError ''pack object must be a regular file''))"

definition staged_source :: "spool \<Rightarrow> staged_pack \<Rightarrow> pack_source" where
  "staged_source sp s =
     \<lparr>src_pack_id = stg_pack_id s, src_created_at_ns = stg_created_at_ns s, src_record_count = stg_record_count s,
      src_object_bytes = stg_object_bytes s, src_checksum = stg_checksum s, src_verified = None,
      src_open = rbind (open_staged sp (stg_path s)) (\<lambda>data. Inr (chunks (length data) data))\<rparr>"

definition entry :: "spool \<Rightarrow> pystr list \<Rightarrow> staged_pack result" where
  "entry sp path =
     (case node sp path of
        Some (FReg data) \<Rightarrow>
          if \<not> is_relative_to (dps_root sp) path then Inl (Error PackIntegrityError ''ready pack must be a regular spool file'')
          else (case match_ready_name (last path) of
                  None \<Rightarrow> Inl (Error PackIntegrityError ''invalid ready-pack name'')
                | Some (pack_id, created, records, checksum) \<Rightarrow>
                    rbind (int_of_digits created) (\<lambda>created_at_ns.
                    rbind (int_of_digits records) (\<lambda>record_count.
                      let staged =
                        \<lparr>stg_pack_id = pack_id, stg_created_at_ns = created_at_ns, stg_record_count = record_count,
                         stg_checksum = checksum,
                         stg_object_key = join [47]
                           (butlast (drop (length (dps_root sp)) path) @ [pack_id @ lit ''.dmi-pack'']),
                         stg_path = path, stg_object_bytes = int (length data)\<rparr>
                      in rbind (validate_pack_source (staged_source sp staged)) (\<lambda>_. Inr staged))))
      | _ \<Rightarrow> Inl (Error PackIntegrityError ''ready pack must be a regular spool file''))"

definition checksum_of :: "spool \<Rightarrow> pystr list \<Rightarrow> pystr result" where
  "checksum_of sp path = rbind (open_staged sp path) (\<lambda>data. Inr (hexdigest data))"

definition existing :: "pack_source \<Rightarrow> pystr \<Rightarrow> pystr list \<Rightarrow> spool \<Rightarrow> staged_pack result" where
  "existing p object_key ready sp =
     rbind (entry sp ready) (\<lambda>staged.
       if stg_object_key staged \<noteq> object_key \<or> stg_object_bytes staged \<noteq> src_object_bytes p
          \<or> stg_checksum staged \<noteq> src_checksum p
       then Inl (Error PackConflictError ''spool contains different content'')
       else rbind (checksum_of sp ready) (\<lambda>checksum.
         if checksum \<noteq> src_checksum p then Inl (Error PackConflictError ''spool contains different content'')
         else Inr staged))"

section \<open>Staging\<close>

text \<open>\<^verbatim>\<open>ready.parent.glob(f"{pack.pack_id}.*.dmi-pack.ready")\<close>.\<close>

definition glob_intents :: "pystr \<Rightarrow> pystr list \<Rightarrow> spool \<Rightarrow> pystr list list" where
  "glob_intents pack_id parent sp =
     filter (\<lambda>path. path \<noteq> [] \<and> butlast path = parent \<and> startswith (pack_id @ [46]) (last path)
                \<and> endswith READY_SUFFIX (last path)
                \<and> length pack_id + 1 + length READY_SUFFIX \<le> length (last path)) (map fst (dps_files sp))"

text \<open>A ready file that is there already, with content that agrees: count it, and make its name durable.\<close>

definition adopt_existing :: "pack_source \<Rightarrow> pystr \<Rightarrow> pystr list \<Rightarrow> spool \<Rightarrow> staged_pack spool_result" where
  "adopt_existing p object_key ready sp =
     (case existing p object_key ready sp of
        Inl e \<Rightarrow> (sp, Inl e)
      | Inr staged \<Rightarrow>
          st_bind (fsync_path_to_root (butlast ready) (account_ready ready (stg_object_bytes staged) sp))
            (\<lambda>sp' _. (sp', Inr staged)))"

text \<open>\<open>other\<close> is what another process publishes at the ready path before \<^verbatim>\<open>os.link\<close> runs.\<close>

definition link_ready :: "fnode option \<Rightarrow> pack_source \<Rightarrow> pystr \<Rightarrow> pystr list \<Rightarrow> spool \<Rightarrow> staged_pack spool_result" where
  "link_ready other p object_key ready sp =
     (let sp1 = (case other of None \<Rightarrow> sp | Some n \<Rightarrow> put_node ready n sp) in
      case copy_pack_source p of
        Inl e \<Rightarrow> (sp1, Inl e)
      | Inr data \<Rightarrow>
          if node sp1 ready \<noteq> None then adopt_existing p object_key ready sp1
          else st_bind (fsync_path_to_root (butlast ready)
                          (account_ready ready (src_object_bytes p) (put_node ready (FReg data) sp1)))
                 (\<lambda>sp' _. (sp', entry sp' ready)))"

definition stage :: "fnode option \<Rightarrow> pack_source \<Rightarrow> pystr \<Rightarrow> spool \<Rightarrow> staged_pack spool_result" where
  "stage other p object_key sp =
     (case rbind (validate_pack_source p) (\<lambda>_. validate_object_key object_key) of
        Inl e \<Rightarrow> (sp, Inl e)
      | Inr key \<Rightarrow>
          if key = [] \<or> last key \<noteq> src_pack_id p @ lit ''.dmi-pack''
          then (sp, Inl (Error ValueError ''spool object key must end with the pack ID''))
          else case ready_path (dps_root sp) key p of
            Inl e \<Rightarrow> (sp, Inl e)
          | Inr ready \<Rightarrow>
              if node sp ready \<noteq> None then adopt_existing p object_key ready sp
              else if glob_intents (src_pack_id p) (butlast ready) sp \<noteq> []
              then (sp, Inl (Error PackConflictError ''spool already contains a different pack intent''))
              else if dps_max_bytes sp < dps_bytes sp + src_object_bytes p
              then (sp, Inl (Error SpoolFullError ''spool byte limit exceeded''))
              else st_bind (mkdir_spool ready sp) (\<lambda>sp1 _. link_ready other p object_key ready sp1))"

section \<open>Removal and quarantine\<close>

definition remove_staged :: "staged_pack \<Rightarrow> spool \<Rightarrow> unit spool_result" where
  "remove_staged staged sp =
     (let path = stg_path staged in
      if node sp path = Some FOther then (sp, Inl (Error PackIntegrityError ''ready pack must be a regular spool file''))
      else if \<not> is_relative_to (dps_root sp) path then (sp, Inl (Error ValueError ''staged pack is outside the spool root''))
      else if node sp path = None then (unaccount_ready path sp, Inr ())
      else case entry sp path of
        Inl e \<Rightarrow> (sp, Inl e)
      | Inr current \<Rightarrow>
          if current \<noteq> staged
          then (sp, Inl (Error PackIntegrityError ''staged pack identity changed before removal''))
          else fsync_directory (unaccount_ready path (unlink path sp)))"

text \<open>\<^verbatim>\<open>path.with_suffix(".quarantined")\<close> of a path that ends in \<^verbatim>\<open>.ready\<close>.\<close>

definition quarantined_path :: "pystr list \<Rightarrow> pystr list" where
  "quarantined_path path =
     butlast path @ [take (length (last path) - length (lit ''.ready'')) (last path) @ lit ''.quarantined'']"

text \<open>\<^verbatim>\<open>os.replace\<close>: a directory moves with its content, and neither replaces nor is replaced by a file.\<close>

definition os_replace :: "pystr list \<Rightarrow> pystr list \<Rightarrow> spool \<Rightarrow> unit spool_result" where
  "os_replace src dst sp =
     (case node sp src of
        None \<Rightarrow> (sp, Inl (Error FileNotFoundError ''no such file''))
      | Some n \<Rightarrow>
          if (case node sp dst of
                None \<Rightarrow> False
              | Some d \<Rightarrow> (n = FDir) \<noteq> (d = FDir)
                  \<or> n = FDir \<and> list_ex (\<lambda>f. fst f \<noteq> dst \<and> is_relative_to dst (fst f)) (dps_files sp))
          then (sp, Inl (Error OSError ''cannot replace''))
          else (sp\<lparr>dps_files :=
                  map (\<lambda>f. (if fst f = src \<or> n = FDir \<and> is_relative_to src (fst f)
                             then dst @ drop (length src) (fst f) else fst f, snd f))
                    (filter (\<lambda>f. fst f \<noteq> dst) (dps_files sp))\<rparr>, Inr ()))"

definition quarantine :: "pystr list \<Rightarrow> spool \<Rightarrow> unit spool_result" where
  "quarantine path sp =
     (case os_replace path (quarantined_path path) sp of
        (sp1, Inl e) \<Rightarrow> if is_instance e FileNotFoundError then (sp1, Inr ()) else (sp1, Inl e)
      | (sp1, Inr _) \<Rightarrow>
          let was_accounted = path \<in> set (map fst (dps_accounted_ready sp1));
              sp2 = unaccount_ready path sp1;
              sp3 = (if was_accounted then sp2
                     else sp2\<lparr>dps_mutation_generation := dps_mutation_generation sp2 + 1\<rparr>)
          in fsync_directory sp3)"

section \<open>Recovery\<close>

text \<open>A pass runs without the lock, so other threads may stage and remove between its steps: \<open>gaps i\<close> are
  the calls that run in the \<open>i\<close>-th gap of the pass. The hash of one file is taken at one instant.\<close>

datatype spool_call = CallStage "fnode option" pack_source pystr | CallRemove staged_pack

fun run_call :: "spool_call \<Rightarrow> spool \<Rightarrow> spool" where
  "run_call (CallStage other p key) sp = fst (stage other p key sp)"
| "run_call (CallRemove staged) sp = fst (remove_staged staged sp)"

definition spool_calls :: "spool_call list \<Rightarrow> spool \<Rightarrow> spool" where
  "spool_calls calls sp = fold run_call calls sp"

fun unlink_stale :: "pystr list list \<Rightarrow> spool \<Rightarrow> unit spool_result" where
  "unlink_stale [] sp = (sp, Inr ())"
| "unlink_stale (path # paths) sp =
     (if node sp path = Some FDir then (sp, Inl (Error OSError ''is a directory''))
      else unlink_stale paths (unlink path sp))"

fun fsync_each :: "nat \<Rightarrow> spool \<Rightarrow> unit spool_result" where
  "fsync_each 0 sp = (sp, Inr ())"
| "fsync_each (Suc n) sp = st_bind (fsync_directory sp) (\<lambda>sp' _. fsync_each n sp')"

definition begin_recovery :: "spool \<Rightarrow> pystr list list spool_result" where
  "begin_recovery sp =
     (let stale = rglob OPEN_SUFFIX sp in
      st_bind (unlink_stale stale sp) (\<lambda>sp1 _.
      st_bind (fsync_each (length (remdups (map butlast stale))) sp1) (\<lambda>sp2 _.
        (sp2, Inr (sort (rglob READY_SUFFIX sp2))))))"

datatype verdict = Valid staged_pack | Gone | Corrupt

definition ready_verdict :: "spool \<Rightarrow> pystr list \<Rightarrow> verdict result" where
  "ready_verdict sp path =
     (case rbind (entry sp path) (\<lambda>e. rbind (checksum_of sp path) (\<lambda>c. Inr (e, c))) of
        Inl e \<Rightarrow>
          if is_instance e FileNotFoundError then Inr Gone
          else if is_instance e PackIntegrityError \<or> is_instance e ValueError
          then Inr (if node sp path \<noteq> None then Corrupt else Gone)
          else Inl e
      | Inr (e, c) \<Rightarrow> Inr (if c \<noteq> stg_checksum e then Corrupt else Valid e))"

fun validate_ready :: "(nat \<Rightarrow> spool_call list) \<Rightarrow> nat \<Rightarrow> pystr list list \<Rightarrow> spool \<Rightarrow> staged_pack list spool_result" where
  "validate_ready gaps i [] sp = (sp, Inr [])"
| "validate_ready gaps i (path # paths) sp =
     (let sp1 = spool_calls (gaps (2 * i)) sp in
      case ready_verdict sp1 path of
        Inl e \<Rightarrow> (sp1, Inl e)
      | Inr Gone \<Rightarrow> validate_ready gaps (Suc i) paths sp1
      | Inr Corrupt \<Rightarrow>
          st_bind (quarantine path (spool_calls (gaps (2 * i + 1)) sp1)) (\<lambda>sp2 _.
            validate_ready gaps (Suc i) paths sp2)
      | Inr (Valid e) \<Rightarrow>
          st_bind (validate_ready gaps (Suc i) paths sp1) (\<lambda>sp2 entries. (sp2, Inr (e # entries))))"

definition commit_recovery :: "staged_pack list \<Rightarrow> spool \<Rightarrow> spool" where
  "commit_recovery entries sp =
     (let total = sum_list (map stg_object_bytes entries) in
      sp\<lparr>dps_bytes := total, dps_entries := int (length entries),
         dps_peak_bytes := max (dps_peak_bytes sp) total,
         dps_accounted_ready := map (\<lambda>e. (stg_path e, stg_object_bytes e)) entries,
         dps_mutation_generation := dps_mutation_generation sp + 1\<rparr>)"

definition RECOVER_ATTEMPTS :: nat where "RECOVER_ATTEMPTS = 8"

text \<open>\<open>gaps k\<close> belongs to the \<open>k\<close>-th optimistic pass; the last pass holds the lock throughout.\<close>

fun recover_passes :: "(nat \<Rightarrow> nat \<Rightarrow> spool_call list) \<Rightarrow> nat \<Rightarrow> nat \<Rightarrow> spool \<Rightarrow> staged_pack list spool_result" where
  "recover_passes gaps 0 k sp =
     st_bind (begin_recovery sp) (\<lambda>sp1 paths.
     st_bind (validate_ready (\<lambda>_. []) 0 paths sp1) (\<lambda>sp2 entries.
       (commit_recovery entries sp2, Inr entries)))"
| "recover_passes gaps (Suc n) k sp =
     st_bind (begin_recovery sp) (\<lambda>sp1 paths.
     st_bind (validate_ready (gaps k) 0 paths sp1) (\<lambda>sp2 entries.
       let sp3 = spool_calls (gaps k (2 * length paths)) sp2 in
       if dps_mutation_generation sp3 \<noteq> dps_mutation_generation sp then recover_passes gaps n (Suc k) sp3
       else (commit_recovery entries sp3, Inr entries)))"

definition recover :: "(nat \<Rightarrow> nat \<Rightarrow> spool_call list) \<Rightarrow> spool \<Rightarrow> staged_pack list spool_result" where
  "recover gaps sp = recover_passes gaps RECOVER_ATTEMPTS 0 sp"

section \<open>The durable sink\<close>

definition durable_persist :: "fnode option \<Rightarrow> spool \<Rightarrow> ready_pack \<Rightarrow> staged_pack spool_result" where
  "durable_persist other sp ready =
     (case object_key_for ready of
        Inl e \<Rightarrow> (sp, Inl e)
      | Inr key \<Rightarrow> stage other (sealed_source (rp_pack ready)) key sp)"

end
