(* ===== verification/SpoolAccounting.thy ===== *)
theory SpoolAccounting
  imports Spool
begin

text \<open>
  The accounting of the spool under any interleaving of stages, removals and recovery passes: the ready
  files on disk are what is accounted, the aggregate stays below the limit, and the mutation generation
  tells an optimistic recovery pass whether what it listed is still true.
\<close>

section \<open>Names of ready files\<close>

lemma endswith_append [simp]: "endswith s (t @ s)"
  by (simp add: endswith_def)

lemma endswithE: "endswith s t \<Longrightarrow> \<exists>u. t = u @ s"
  unfolding endswith_def by (metis append_take_drop_id)

lemma endswith_last: "endswith s t \<Longrightarrow> s \<noteq> [] \<Longrightarrow> t \<noteq> [] \<and> last t = last s"
  by (auto dest!: endswithE)

lemma open_not_ready: "endswith OPEN_SUFFIX t \<Longrightarrow> \<not> endswith READY_SUFFIX t"
  by (auto dest!: endswith_last simp: OPEN_SUFFIX_def READY_SUFFIX_def lit_def)

lemma quarantined_not_ready: "\<not> endswith READY_SUFFIX (t @ lit ''.quarantined'')"
  by (auto dest!: endswith_last simp: READY_SUFFIX_def lit_def)

lemma pack_name_not_ready: "\<not> endswith READY_SUFFIX (t @ lit ''.dmi-pack'')"
  by (auto dest!: endswith_last simp: READY_SUFFIX_def lit_def)

lemma validate_pack_sourceD:
  assumes "validate_pack_source p = Inr ()"
  obtains u where "src_pack_id p = uuid_str u" "0 \<le> src_created_at_ns p" "src_created_at_ns p < 2 ^ 63"
    "0 < src_record_count p" "src_record_count p < 2 ^ 63" "0 < src_object_bytes p" "src_object_bytes p < 2 ^ 63"
    "sha256_pattern (src_checksum p)"
proof -
  obtain u where u: "uuid_parse (src_pack_id p) = Some u" "uuid_str u = src_pack_id p"
    using assms by (auto simp: validate_pack_source_def split: option.splits if_splits)
  show ?thesis
    using assms u by (intro that [of u]) (auto simp: validate_pack_source_def split: if_splits)
qed

lemma validate_pack_source_cong:
  assumes "src_pack_id p = src_pack_id q" "src_created_at_ns p = src_created_at_ns q"
    "src_record_count p = src_record_count q" "src_object_bytes p = src_object_bytes q" "src_checksum p = src_checksum q"
  shows "validate_pack_source p = validate_pack_source q"
  unfolding validate_pack_source_def assms ..

lemma validate_staged_source:
  "validate_pack_source (staged_source sp e) = validate_pack_source (staged_source sp' e)"
  by (rule validate_pack_source_cong) (simp_all add: staged_source_def)

lemma int_of_digits_dec: "0 \<le> i \<Longrightarrow> i < 2 ^ 63 \<Longrightarrow> int_of_digits (dec_of_int i) = Inr i"
proof -
  assume i: "0 \<le> i" "i < 2 ^ 63"
  then have "nat i < 10 ^ 20" by simp
  then have "length (dec_of_nat (nat i)) \<le> 20" by (rule length_dec_of_nat) simp
  with i show ?thesis by (simp add: int_of_digits_def dec_of_int_def int_digits_limit_def)
qed

lemma takeWhile_digits: "takeWhile is_digit (dec_of_int i @ 46 # s) = dec_of_int i" if "0 \<le> i"
  using that by (simp add: dec_of_int_def takeWhile_append2 dec_of_nat_digits) (simp add: is_digit_def)

lemma match_ready_name_parts:
  assumes "length pid = 36" "list_all (\<lambda>c. is_lower_hex c \<or> c = 45) pid" "0 \<le> i" "0 \<le> j" "sha256_pattern h"
  shows "match_ready_name (pid @ [46] @ dec_of_int i @ [46] @ dec_of_int j @ [46] @ h @ READY_SUFFIX)
    = Some (pid, dec_of_int i, dec_of_int j, h)"
proof -
  have d: "dec_of_int k \<noteq> []" for k by (simp add: dec_of_int_def)
  show ?thesis
    using assms d by (simp add: match_ready_name_def Let_def takeWhile_digits sha256_pattern_def)
qed

lemma match_ready_name_print:
  assumes "validate_pack_source p = Inr ()"
  shows "match_ready_name (ready_name p)
    = Some (src_pack_id p, dec_of_int (src_created_at_ns p), dec_of_int (src_record_count p), src_checksum p)"
proof (rule validate_pack_sourceD [OF assms])
  fix u
  assume "src_pack_id p = uuid_str u" "0 \<le> src_created_at_ns p" "0 < src_record_count p" "sha256_pattern (src_checksum p)"
  with uuid_str_chars [of _ u] show ?thesis
    unfolding ready_name_def by (intro match_ready_name_parts) (auto simp: list_all_iff)
qed

lemma match_ready_name_suffix: "match_ready_name s = Some x \<Longrightarrow> endswith READY_SUFFIX s"
proof -
  assume "match_ready_name s = Some x"
  then obtain a b c d where "s = a @ [46] @ b @ [46] @ c @ [46] @ d @ READY_SUFFIX"
    by (auto simp: match_ready_name_def Let_def split: if_splits)
  then show ?thesis using endswith_append [of READY_SUFFIX "a @ [46] @ b @ [46] @ c @ [46] @ d"] by simp
qed

lemma endswith_ready_name [simp]: "endswith READY_SUFFIX (ready_name p)"
  using endswith_append [of READY_SUFFIX] by (simp add: ready_name_def flip: append_assoc append_Cons)

lemma is_relative_to_append [simp]: "is_relative_to base (base @ path)"
  by (simp add: is_relative_to_def)

lemma ready_path_Inr: "ready_path base key p = Inr ready \<longleftrightarrow> ready = base @ butlast key @ [ready_name p]"
  by (auto simp: ready_path_def Let_def butlast_append)

text \<open>The entry a ready file's name stands for.\<close>

definition staged_of :: "pystr list \<Rightarrow> pack_source \<Rightarrow> pystr list \<Rightarrow> staged_pack" where
  "staged_of base p key =
     \<lparr>stg_pack_id = src_pack_id p, stg_created_at_ns = src_created_at_ns p, stg_record_count = src_record_count p,
      stg_checksum = src_checksum p, stg_object_key = join [47] (butlast key @ [src_pack_id p @ lit ''.dmi-pack'']),
      stg_path = base @ butlast key @ [ready_name p], stg_object_bytes = src_object_bytes p\<rparr>"

lemma entry_staged:
  assumes "validate_pack_source p = Inr ()" "node sp (base @ butlast key @ [ready_name p]) = Some (FReg data)"
    "int (length data) = src_object_bytes p" "dps_root sp = base"
  shows "entry sp (base @ butlast key @ [ready_name p]) = Inr (staged_of base p key)"
proof (rule validate_pack_sourceD [OF assms(1)])
  fix u
  assume h: "0 \<le> src_created_at_ns p" "src_created_at_ns p < 2 ^ 63"
    "0 < src_record_count p" "src_record_count p < 2 ^ 63"
  have "validate_pack_source (staged_source sp (staged_of base p key)) = Inr ()"
    using assms(1) validate_pack_source_cong [of "staged_source sp (staged_of base p key)" p]
    by (simp add: staged_source_def staged_of_def)
  then show ?thesis
    using assms h match_ready_name_print [OF assms(1)] int_of_digits_dec [of "src_created_at_ns p"]
      int_of_digits_dec [of "src_record_count p"]
    by (simp add: entry_def staged_of_def butlast_append)
qed

lemma entry_Inr:
  assumes "entry sp path = Inr e"
  obtains data where "node sp path = Some (FReg data)" "is_relative_to (dps_root sp) path" "endswith READY_SUFFIX (last path)"
    "stg_path e = path" "stg_object_bytes e = int (length data)" "validate_pack_source (staged_source sp e) = Inr ()"
proof -
  obtain data where n: "node sp path = Some (FReg data)" "is_relative_to (dps_root sp) path"
    using assms by (auto simp: entry_def split: option.splits fnode.splits if_splits)
  obtain a b c d where m: "match_ready_name (last path) = Some (a, b, c, d)"
    using assms n by (auto simp: entry_def split: option.splits)
  show ?thesis
    using assms n m match_ready_name_suffix [OF m] by (intro that [OF n]) (auto simp: entry_def rbind_eq_Inr Let_def)
qed

lemma entry_cong:
  assumes "node sp path = node sp' path" "dps_root sp = dps_root sp'"
  shows "entry sp path = entry sp' path"
  unfolding entry_def assms validate_staged_source [of sp _ sp'] ..

lemma checksum_of_cong: "node sp path = node sp' path \<Longrightarrow> checksum_of sp path = checksum_of sp' path"
  by (simp add: checksum_of_def open_staged_def)

lemma ready_verdict_cong:
  assumes "node sp path = node sp' path" "dps_root sp = dps_root sp'"
  shows "ready_verdict sp path = ready_verdict sp' path"
  unfolding ready_verdict_def entry_cong [OF assms] checksum_of_cong [OF assms(1)] assms(1) ..

lemma ready_verdict_Valid:
  assumes "ready_verdict sp path = Inr (Valid e)"
  shows "entry sp path = Inr e \<and> checksum_of sp path = Inr (stg_checksum e)"
  using assms by (auto simp: ready_verdict_def rbind_eq_Inr split: sum.splits if_splits)

section \<open>The accounting invariant\<close>

text \<open>The ready files on disk, and the invariant: every one of them is a regular file and accounted with its
  size, nothing else is, and neither the aggregate nor its peak passes \<open>B\<close>. The aggregate may exceed the
  accounted sizes by what a crashed process left behind, until a recovery removes that.\<close>

definition ready_view :: "spool \<Rightarrow> pystr list \<Rightarrow> fnode option" where
  "ready_view sp path = (if rglob_match (dps_root sp) READY_SUFFIX path then node sp path else None)"

definition reg_size :: "fnode \<Rightarrow> int" where
  "reg_size n = (case n of FReg data \<Rightarrow> int (length data) | _ \<Rightarrow> 0)"

definition spool_inv :: "int \<Rightarrow> spool \<Rightarrow> bool" where
  "spool_inv B sp \<longleftrightarrow> distinct (map fst (dps_files sp)) \<and> distinct (map fst (dps_accounted_ready sp))
     \<and> dps_entries sp = int (length (dps_accounted_ready sp))
     \<and> sum_list (map snd (dps_accounted_ready sp)) \<le> dps_bytes sp \<and> dps_bytes sp \<le> B
     \<and> dps_max_bytes sp \<le> B \<and> dps_bytes sp \<le> dps_peak_bytes sp \<and> dps_peak_bytes sp \<le> B
     \<and> map_of (dps_accounted_ready sp) = (\<lambda>path. map_option reg_size (ready_view sp path))
     \<and> (\<forall>path n. ready_view sp path = Some n \<longrightarrow> (\<exists>data. n = FReg data))"

lemma spool_invD:
  assumes "spool_inv B sp"
  shows "distinct (map fst (dps_files sp))" "distinct (map fst (dps_accounted_ready sp))"
    "dps_entries sp = int (length (dps_accounted_ready sp))"
    "sum_list (map snd (dps_accounted_ready sp)) \<le> dps_bytes sp" "dps_bytes sp \<le> B" "dps_max_bytes sp \<le> B"
    "dps_bytes sp \<le> dps_peak_bytes sp" "dps_peak_bytes sp \<le> B"
    "map_of (dps_accounted_ready sp) path = map_option reg_size (ready_view sp path)"
    "ready_view sp path = Some n \<Longrightarrow> \<exists>data. n = FReg data"
  using assms by (auto simp: spool_inv_def fun_eq_iff)

text \<open>A step that leaves the ready files and the accounting alone.\<close>

definition quiet :: "spool \<Rightarrow> spool \<Rightarrow> bool" where
  "quiet sp sp' \<longleftrightarrow> dps_root sp' = dps_root sp \<and> ready_view sp' = ready_view sp
     \<and> (distinct (map fst (dps_files sp)) \<longrightarrow> distinct (map fst (dps_files sp')))
     \<and> dps_accounted_ready sp' = dps_accounted_ready sp \<and> dps_bytes sp' = dps_bytes sp
     \<and> dps_entries sp' = dps_entries sp \<and> dps_peak_bytes sp' = dps_peak_bytes sp
     \<and> dps_max_bytes sp' = dps_max_bytes sp \<and> dps_mutation_generation sp' = dps_mutation_generation sp"

lemma quiet_refl [simp]: "quiet sp sp"
  by (simp add: quiet_def)

lemma quiet_trans [trans]: "quiet a b \<Longrightarrow> quiet b c \<Longrightarrow> quiet a c"
  by (auto simp: quiet_def)

lemma quiet_inv: "quiet sp sp' \<Longrightarrow> spool_inv B sp \<Longrightarrow> spool_inv B sp'"
  by (simp add: quiet_def spool_inv_def)

text \<open>A step of the spool keeps the invariant, and moves the generation unless it was quiet.\<close>

definition sound :: "int \<Rightarrow> spool \<Rightarrow> spool \<Rightarrow> bool" where
  "sound B sp sp' \<longleftrightarrow> (spool_inv B sp \<longrightarrow> spool_inv B sp' \<and> dps_root sp' = dps_root sp
     \<and> dps_mutation_generation sp \<le> dps_mutation_generation sp'
     \<and> (dps_mutation_generation sp' = dps_mutation_generation sp \<longrightarrow> quiet sp sp'))"

lemma quiet_sound: "quiet sp sp' \<Longrightarrow> sound B sp sp'"
  using quiet_inv by (auto simp: sound_def) (auto simp: quiet_def)

lemma sound_refl [simp]: "sound B sp sp"
  by (simp add: quiet_sound)

lemma sound_trans [trans]: "sound B a b \<Longrightarrow> sound B b c \<Longrightarrow> sound B a c"
  unfolding sound_def using quiet_trans [of a b c] by auto

lemma sound_bind:
  assumes "sound B sp (fst m)" "\<And>s x. m = (s, Inr x) \<Longrightarrow> sound B s (fst (f s x))"
  shows "sound B sp (fst (st_bind m f))"
proof (cases m)
  case (Pair s r)
  with assms show ?thesis by (cases r) (auto intro: sound_trans)
qed

lemma quiet_bind:
  assumes "quiet sp (fst m)" "\<And>s x. m = (s, Inr x) \<Longrightarrow> quiet s (fst (f s x))"
  shows "quiet sp (fst (st_bind m f))"
proof (cases m)
  case (Pair s r)
  with assms show ?thesis by (cases r) (auto intro: quiet_trans)
qed

lemma node_put [simp]: "node (put_node path n sp) q = (if q = path then Some n else node sp q)"
  by (simp add: node_def put_node_def map_of_dict_set)

lemma put_node_sel [simp]: "dps_root (put_node path n sp) = dps_root sp" "dps_max_bytes (put_node path n sp) = dps_max_bytes sp"
  "dps_bytes (put_node path n sp) = dps_bytes sp" "dps_entries (put_node path n sp) = dps_entries sp"
  "dps_peak_bytes (put_node path n sp) = dps_peak_bytes sp"
  "dps_accounted_ready (put_node path n sp) = dps_accounted_ready sp"
  "dps_mutation_generation (put_node path n sp) = dps_mutation_generation sp"
  "dps_sync_faults (put_node path n sp) = dps_sync_faults sp"
  by (simp_all add: put_node_def)

lemma put_node_distinct: "distinct (map fst (dps_files sp)) \<Longrightarrow> distinct (map fst (dps_files (put_node path n sp)))"
  by (simp add: put_node_def dict_set_distinct)

lemma quiet_put: "\<not> rglob_match (dps_root sp) READY_SUFFIX path \<Longrightarrow> quiet sp (put_node path n sp)"
  using put_node_distinct [of sp path n] by (auto simp: quiet_def ready_view_def)

lemma map_of_filter_key: "map_of (filter (\<lambda>f. fst f \<noteq> k) m) q = (if q = k then None else map_of m q)"
  by (induction m) auto

lemma distinct_filter_fst: "distinct (map fst m) \<Longrightarrow> distinct (map fst (filter P m))"
  by (induction m) auto

lemma node_unlink [simp]: "node (unlink path sp) q = (if q = path then None else node sp q)"
  by (simp add: node_def unlink_def map_of_filter_key)

lemma unlink_sel [simp]: "dps_root (unlink path sp) = dps_root sp" "dps_max_bytes (unlink path sp) = dps_max_bytes sp"
  "dps_bytes (unlink path sp) = dps_bytes sp" "dps_entries (unlink path sp) = dps_entries sp"
  "dps_peak_bytes (unlink path sp) = dps_peak_bytes sp"
  "dps_accounted_ready (unlink path sp) = dps_accounted_ready sp"
  "dps_mutation_generation (unlink path sp) = dps_mutation_generation sp"
  "dps_sync_faults (unlink path sp) = dps_sync_faults sp"
  by (simp_all add: unlink_def)

lemma unlink_distinct: "distinct (map fst (dps_files sp)) \<Longrightarrow> distinct (map fst (dps_files (unlink path sp)))"
  by (simp add: unlink_def distinct_filter_fst)

lemma quiet_unlink: "\<not> rglob_match (dps_root sp) READY_SUFFIX path \<Longrightarrow> quiet sp (unlink path sp)"
  using unlink_distinct [of sp path] by (auto simp: quiet_def ready_view_def)

lemma quiet_fsync_directory: "quiet sp (fst (fsync_directory sp))"
  by (auto simp: fsync_directory_def quiet_def ready_view_def node_def split: list.splits)

lemma quiet_fsync_chain: "quiet sp (fst (fsync_chain n sp))"
proof (induction n arbitrary: sp)
  case (Suc n)
  show ?case unfolding fsync_chain.simps by (rule quiet_bind [OF quiet_fsync_directory Suc])
qed (simp add: quiet_fsync_directory)

lemma quiet_fsync_path: "quiet sp (fst (fsync_path_to_root leaf sp))"
  by (simp add: fsync_path_to_root_def quiet_fsync_chain)

lemma quiet_fsync_each: "quiet sp (fst (fsync_each n sp))"
proof (induction n arbitrary: sp)
  case (Suc n)
  show ?case unfolding fsync_each.simps by (rule quiet_bind [OF quiet_fsync_directory Suc])
qed simp

lemma quiet_unlink_stale:
  "\<forall>path \<in> set paths. rglob_match (dps_root sp) OPEN_SUFFIX path \<Longrightarrow> quiet sp (fst (unlink_stale paths sp))"
proof (induction paths arbitrary: sp)
  case (Cons path paths)
  have "\<not> rglob_match (dps_root sp) READY_SUFFIX path"
    using Cons.prems open_not_ready by (auto simp: rglob_match_def)
  then have "quiet sp (unlink path sp)" by (rule quiet_unlink)
  also have "quiet (unlink path sp) (fst (unlink_stale paths (unlink path sp)))"
    using Cons.prems by (intro Cons.IH) simp
  finally show ?case by simp
qed simp

lemma quiet_begin_recovery: "quiet sp (fst (begin_recovery sp))"
proof -
  have "\<forall>path \<in> set (rglob OPEN_SUFFIX sp). rglob_match (dps_root sp) OPEN_SUFFIX path" by (simp add: rglob_def)
  then have "quiet sp (fst (unlink_stale (rglob OPEN_SUFFIX sp) sp))" by (rule quiet_unlink_stale)
  moreover have "quiet s (fst (st_bind (fsync_each n s) (\<lambda>s2 _. (s2, Inr (g s2)))))" for n s and g :: "spool \<Rightarrow> pystr list list"
    by (rule quiet_bind [OF quiet_fsync_each]) simp
  ultimately show ?thesis
    unfolding begin_recovery_def Let_def by (rule quiet_bind)
qed

lemma rglob_ready: "set (rglob READY_SUFFIX sp) = dom (ready_view sp)"
proof -
  have "path \<in> fst ` set (dps_files sp) \<longleftrightarrow> node sp path \<noteq> None" for path
    by (simp add: node_def map_of_eq_None_iff)
  then show ?thesis by (auto simp: rglob_def ready_view_def dom_def)
qed

lemma begin_recovery_paths:
  assumes "begin_recovery sp = (sp', Inr paths)" "spool_inv B sp"
  shows "set paths = dom (ready_view sp') \<and> distinct paths \<and> sorted paths"
proof -
  have q: "quiet sp sp'" using quiet_begin_recovery [of sp] assms(1) by simp
  have "paths = sort (rglob READY_SUFFIX sp')"
    using assms(1) by (auto simp: begin_recovery_def Let_def st_bind_eq_Inr)
  moreover have "distinct (rglob READY_SUFFIX sp')"
    using q spool_invD(1) [OF assms(2)] by (simp add: quiet_def rglob_def)
  ultimately show ?thesis by (simp add: rglob_ready)
qed

section \<open>Every call keeps the invariant\<close>

lemma filter_key_sums:
  assumes "distinct (map fst m)" "map_of m k = Some (n::int)"
  shows "sum_list (map snd (filter (\<lambda>a. fst a \<noteq> k) m)) = sum_list (map snd m) - n"
    "int (length (filter (\<lambda>a. fst a \<noteq> k) m)) = int (length m) - 1"
proof -
  have "sum_list (map snd (filter (\<lambda>a. fst a \<noteq> k) m)) = sum_list (map snd m) - n
    \<and> int (length (filter (\<lambda>a. fst a \<noteq> k) m)) = int (length m) - 1" using assms
  proof (induction m)
    case (Cons a m)
    show ?case
    proof (cases "fst a = k")
      case True
      then have "filter (\<lambda>a. fst a \<noteq> k) m = m" using Cons.prems(1) by (auto simp: filter_id_conv image_iff)
      with True Cons.prems show ?thesis by auto
    qed (use Cons in auto)
  qed simp
  then show "sum_list (map snd (filter (\<lambda>a. fst a \<noteq> k) m)) = sum_list (map snd m) - n"
    "int (length (filter (\<lambda>a. fst a \<noteq> k) m)) = int (length m) - 1" by blast+
qed

lemma reg_size_nonneg [simp]: "0 \<le> reg_size n"
  by (simp add: reg_size_def split: fnode.splits)

lemma not_accounted: "spool_inv B sp \<Longrightarrow> ready_view sp path = None \<Longrightarrow> path \<notin> fst ` set (dps_accounted_ready sp)"
  using spool_invD(9) [of B sp path] by (simp add: map_of_eq_None_iff)

lemma accounted: "spool_inv B sp \<Longrightarrow> ready_view sp path = Some n \<Longrightarrow> path \<in> fst ` set (dps_accounted_ready sp)"
  using spool_invD(9) [of B sp path] map_of_eq_None_iff [of "dps_accounted_ready sp" path] by simp

text \<open>A new ready file, counted as soon as it is linked.\<close>

lemma link_inv:
  assumes inv: "spool_inv B sp" and new: "node sp path = None" and ready: "rglob_match (dps_root sp) READY_SUFFIX path"
    and room: "dps_bytes sp + int (length data) \<le> dps_max_bytes sp"
  shows "spool_inv B (account_ready path (int (length data)) (put_node path (FReg data) sp))"
proof -
  note I = spool_invD [OF inv]
  have n: "path \<notin> fst ` set (dps_accounted_ready sp)" using new by (intro not_accounted [OF inv]) (simp add: ready_view_def)
  have view: "ready_view (put_node path (FReg data) sp) = (ready_view sp)(path \<mapsto> FReg data)"
    using ready by (auto simp: ready_view_def)
  have view': "ready_view (account_ready path k s) = ready_view s" for k s
    by (simp add: account_ready_def ready_view_def node_def fun_eq_iff)
  have d: "dict_set path k (dps_accounted_ready sp) = dps_accounted_ready sp @ [(path, k)]" for k
    using n by (intro dict_set_fresh) simp
  show ?thesis unfolding spool_inv_def view' view
  proof (intro conjI allI impI)
    show "distinct (map fst (dps_files (account_ready path (int (length data)) (put_node path (FReg data) sp))))"
      using put_node_distinct [OF I(1)] by (simp add: account_ready_def)
    show "map_of (dps_accounted_ready (account_ready path (int (length data)) (put_node path (FReg data) sp)))
      = (\<lambda>q. map_option reg_size (((ready_view sp)(path \<mapsto> FReg data)) q))"
      using n I(9) by (simp add: account_ready_def map_of_dict_set fun_eq_iff reg_size_def)
    show "\<exists>data. m = FReg data" if "((ready_view sp)(path \<mapsto> FReg data)) q = Some m" for q m
      using that I(10) by (auto split: if_splits)
  qed (use n I room in \<open>auto simp: account_ready_def d\<close>)
qed

lemma link_sound:
  assumes new: "node sp path = None" and ready: "rglob_match (dps_root sp) READY_SUFFIX path"
    and room: "dps_bytes sp + int (length data) \<le> dps_max_bytes sp"
  shows "sound B sp (account_ready path (int (length data)) (put_node path (FReg data) sp))"
proof -
  have "path \<notin> fst ` set (dps_accounted_ready sp)" if "spool_inv B sp"
    using new by (intro not_accounted [OF that]) (simp add: ready_view_def)
  with link_inv [OF _ assms] show ?thesis by (auto simp: sound_def account_ready_def)
qed

lemma mono_account: "spool_inv B sp \<Longrightarrow> ready_view sp path = Some n \<Longrightarrow> account_ready path k sp = sp"
  using accounted [of B sp path n] by (simp add: account_ready_def)

text \<open>A ready file that leaves its name, and is taken off the account.\<close>

definition dropped :: "pystr list \<Rightarrow> spool \<Rightarrow> spool \<Rightarrow> bool" where
  "dropped path sp sp' \<longleftrightarrow> dps_root sp' = dps_root sp \<and> ready_view sp' = (ready_view sp)(path := None)
     \<and> (distinct (map fst (dps_files sp)) \<longrightarrow> distinct (map fst (dps_files sp')))
     \<and> dps_accounted_ready sp' = dps_accounted_ready sp \<and> dps_bytes sp' = dps_bytes sp
     \<and> dps_entries sp' = dps_entries sp \<and> dps_peak_bytes sp' = dps_peak_bytes sp
     \<and> dps_max_bytes sp' = dps_max_bytes sp \<and> dps_mutation_generation sp' = dps_mutation_generation sp"

lemma dropped_quiet: "dropped path sp sp' \<Longrightarrow> ready_view sp path = None \<Longrightarrow> quiet sp sp'"
  by (simp add: dropped_def quiet_def fun_upd_idem)

lemma ready_view_unaccount [simp]: "ready_view (unaccount_ready path sp) = ready_view sp"
  "dps_root (unaccount_ready path sp) = dps_root sp" "dps_files (unaccount_ready path sp) = dps_files sp"
  by (auto simp: unaccount_ready_def ready_view_def node_def fun_eq_iff split: option.splits)

lemma drop_inv:
  assumes inv: "spool_inv B sp" and drop: "dropped path sp sp'" and there: "ready_view sp path = Some n"
  shows "spool_inv B (unaccount_ready path sp')"
    "dps_mutation_generation (unaccount_ready path sp') = dps_mutation_generation sp + 1"
proof -
  note I = spool_invD [OF inv]
  have acc: "map_of (dps_accounted_ready sp) path = Some (reg_size n)" using I(9) there by simp
  note s = filter_key_sums [OF I(2) acc]
  have m: "map_of (filter (\<lambda>a. fst a \<noteq> path) (dps_accounted_ready sp))
      = (\<lambda>q. map_option reg_size (((ready_view sp)(path := None)) q))"
    using I(9) by (auto simp: fun_eq_iff map_of_filter_key)
  have v: "\<exists>data. m = FReg data" if "((ready_view sp)(path := None)) q = Some m" for q m
    using that I(10) by (auto split: if_splits)
  have b: "dps_bytes sp - reg_size n \<le> B" "dps_bytes sp - reg_size n \<le> dps_peak_bytes sp"
    using I(5,7) reg_size_nonneg [of n] by linarith+
  show "dps_mutation_generation (unaccount_ready path sp') = dps_mutation_generation sp + 1"
    using drop acc by (simp add: unaccount_ready_def dropped_def)
  have view: "ready_view (unaccount_ready path sp') = (ready_view sp)(path := None)"
    using drop by (simp add: dropped_def)
  show "spool_inv B (unaccount_ready path sp')"
    unfolding spool_inv_def view
  proof (intro conjI allI impI)
    show "map_of (dps_accounted_ready (unaccount_ready path sp')) = (\<lambda>q. map_option reg_size (((ready_view sp)(path := None)) q))"
      using drop acc m by (simp add: unaccount_ready_def dropped_def)
  qed (use drop acc I s v b in \<open>auto simp: unaccount_ready_def dropped_def distinct_filter_fst\<close>)
qed

lemma unaccount_unknown: "spool_inv B sp \<Longrightarrow> ready_view sp path = None \<Longrightarrow> unaccount_ready path sp = sp"
  using spool_invD(9) [of B sp path] by (simp add: unaccount_ready_def)

lemma drop_sound:
  assumes drop: "dropped path sp sp'"
  shows "sound B sp (unaccount_ready path sp')"
proof (cases "ready_view sp path")
  case None
  have "unaccount_ready path sp' = sp'" if "spool_inv B sp"
  proof -
    have "spool_inv B sp'" using quiet_inv dropped_quiet [OF drop None] that by blast
    then show ?thesis using drop by (intro unaccount_unknown) (auto simp: dropped_def)
  qed
  with quiet_sound [OF dropped_quiet [OF drop None], of B] show ?thesis by (simp add: sound_def)
next
  case (Some n)
  with drop_inv [OF _ drop] drop show ?thesis by (auto simp: sound_def dropped_def)
qed

lemma unlink_dropped: "dropped path sp (unlink path sp)"
  using unlink_distinct [of sp path] by (auto simp: dropped_def ready_view_def)

lemma remove_staged_sound: "sound B sp (fst (remove_staged staged sp))"
proof -
  have f: "sound B sp (fst (fsync_directory (unaccount_ready path (unlink path sp))))" for path
    using drop_sound [OF unlink_dropped] quiet_sound [OF quiet_fsync_directory] by (rule sound_trans)
  have u: "sound B sp (unaccount_ready path sp)" if "node sp path = None" for path
  proof -
    have "dropped path sp sp" using that by (simp add: dropped_def ready_view_def fun_upd_idem)
    then show ?thesis by (rule drop_sound)
  qed
  show ?thesis
    using f u by (auto simp: remove_staged_def Let_def split: sum.splits)
qed

text \<open>Keys whose directories cannot be taken for ready files.\<close>

definition plain_key :: "pystr \<Rightarrow> bool" where
  "plain_key key \<longleftrightarrow> list_all (\<lambda>c. \<not> endswith READY_SUFFIX c) (posix_parts key)"

lemma validate_object_key_parts: "validate_object_key key = Inr parts \<Longrightarrow> parts = posix_parts key"
  by (auto simp: validate_object_key_def split: if_splits)

lemma rglob_match_ready [simp]: "rglob_match base READY_SUFFIX (base @ dirs @ [ready_name p])"
  by (simp add: rglob_match_def)

lemma quiet_mkdirs: "\<forall>d \<in> set dirs. \<not> rglob_match (dps_root sp) READY_SUFFIX d \<Longrightarrow> quiet sp (fold (\<lambda>d. put_node d FDir) dirs sp)"
proof (induction dirs arbitrary: sp)
  case (Cons d dirs)
  have "quiet sp (put_node d FDir sp)" using Cons.prems by (intro quiet_put) simp
  also have "quiet (put_node d FDir sp) (fold (\<lambda>d. put_node d FDir) dirs (put_node d FDir sp))"
    using Cons.prems by (intro Cons.IH) simp
  finally show ?case by simp
qed simp

lemma fold_put_other: "path \<notin> set dirs \<Longrightarrow> node (fold (\<lambda>d. put_node d FDir) dirs sp) path = node sp path"
  by (induction dirs arbitrary: sp) auto

lemma mkdir_spool_other: "node (fst (mkdir_spool path sp)) path = node sp path"
proof -
  have "path \<notin> (\<lambda>n. take n path) ` {m..<length path}" for m
  proof
    assume "path \<in> (\<lambda>n. take n path) ` {m..<length path}"
    then obtain n where "n < length path" "path = take n path" by auto
    then have "length path = length (take n path)" "n < length path" by simp_all
    then show False by simp
  qed
  then show ?thesis by (simp add: mkdir_spool_def Let_def fold_put_other)
qed

lemma quiet_mkdir:
  assumes "\<And>n. length (dps_root sp) < n \<Longrightarrow> n < length path \<Longrightarrow> \<not> rglob_match (dps_root sp) READY_SUFFIX (take n path)"
  shows "quiet sp (fst (mkdir_spool path sp))"
proof -
  have "quiet sp (fold (\<lambda>d. put_node d FDir) (map (\<lambda>n. take n path) [Suc (length (dps_root sp))..<length path]) sp)"
    using assms by (intro quiet_mkdirs) auto
  then show ?thesis by (simp add: mkdir_spool_def Let_def)
qed

lemma quiet_mkdir_spool:
  assumes "list_all (\<lambda>c. \<not> endswith READY_SUFFIX c) dirs"
  shows "quiet sp (fst (mkdir_spool (dps_root sp @ dirs @ [name]) sp))"
proof (rule quiet_mkdir)
  let ?base = "dps_root sp" and ?path = "dps_root sp @ dirs @ [name]"
  fix n assume n: "length ?base < n" "n < length ?path"
  then obtain k where k: "n = Suc (length ?base + k)" "k < length dirs" by (auto dest: less_imp_Suc_add)
  have "take n ?path = ?base @ take (Suc k) dirs" using k by simp
  then have "last (take n ?path) = dirs ! k" using k by (simp add: take_Suc_conv_app_nth)
  then show "\<not> rglob_match ?base READY_SUFFIX (take n ?path)"
    using assms k by (simp add: rglob_match_def list_all_length)
qed

lemma adopt_existing_sound:
  assumes "rglob_match (dps_root sp) READY_SUFFIX ready"
  shows "sound B sp (fst (adopt_existing p key ready sp))"
proof (cases "existing p key ready sp")
  case (Inr staged)
  then obtain e where "entry sp ready = Inr e" by (auto simp: existing_def rbind_eq_Inr)
  then obtain data where "node sp ready = Some (FReg data)" by (rule entry_Inr)
  then have a: "account_ready ready n sp = sp" if "spool_inv B sp" for n
    using mono_account [OF that] assms by (simp add: ready_view_def)
  let ?sp = "account_ready ready (stg_object_bytes staged) sp"
  have q: "quiet ?sp (fst (adopt_existing p key ready sp))"
    unfolding adopt_existing_def Inr sum.case by (rule quiet_bind [OF quiet_fsync_path]) simp
  show ?thesis
  proof (cases "spool_inv B sp")
    case True
    with a q quiet_sound show ?thesis by simp
  qed (simp add: sound_def)
qed (simp add: adopt_existing_def)

lemma copy_pack_source_length: "copy_pack_source p = Inr data \<Longrightarrow> int (length data) = src_object_bytes p"
  using validate_pack_source_size [of p] drain_loop_length [of "src_object_bytes p" "[]" _ data]
  by (auto simp: copy_pack_source_def drain_pack_source_def rbind_eq_Inr split: option.splits if_splits)

lemma link_ready_sound:
  assumes "rglob_match (dps_root sp) READY_SUFFIX ready" "node sp ready = None"
    "dps_bytes sp + src_object_bytes p \<le> dps_max_bytes sp"
  shows "sound B sp (fst (link_ready None p key ready sp))"
proof (cases "copy_pack_source p")
  case (Inr data)
  let ?sp = "account_ready ready (src_object_bytes p) (put_node ready (FReg data) sp)"
  have "quiet ?sp (fst (st_bind (fsync_path_to_root (butlast ready) ?sp) (\<lambda>sp' _. (sp', entry sp' ready))))"
    by (rule quiet_bind [OF quiet_fsync_path]) simp
  moreover have "sound B sp ?sp"
    using link_sound [OF assms(2,1), of data B] copy_pack_source_length [OF Inr] assms(3) by simp
  ultimately have "sound B sp (fst (st_bind (fsync_path_to_root (butlast ready) ?sp) (\<lambda>sp' _. (sp', entry sp' ready))))"
    using quiet_sound sound_trans by blast
  then show ?thesis using Inr assms(2) by (simp add: link_ready_def Let_def)
qed (simp add: link_ready_def)

lemma stage_cases:
  assumes "stage other p key sp = (sp', r)"
  obtains (early) e where "sp' = sp" "r = Inl e"
  | (exists) ready parts where "validate_pack_source p = Inr ()" "validate_object_key key = Inr parts" "parts \<noteq> []"
      "last parts = src_pack_id p @ lit ''.dmi-pack''"
      "ready = dps_root sp @ butlast parts @ [ready_name p]" "node sp ready \<noteq> None"
      "(sp', r) = adopt_existing p key ready sp"
  | (new) ready parts where "validate_pack_source p = Inr ()" "validate_object_key key = Inr parts" "parts \<noteq> []"
      "last parts = src_pack_id p @ lit ''.dmi-pack''"
      "ready = dps_root sp @ butlast parts @ [ready_name p]" "node sp ready = None"
      "dps_bytes sp + src_object_bytes p \<le> dps_max_bytes sp"
      "(sp', r) = st_bind (mkdir_spool ready sp) (\<lambda>sp1 _. link_ready other p key ready sp1)"
proof (cases "rbind (validate_pack_source p) (\<lambda>_. validate_object_key key)")
  case (Inl e)
  show ?thesis by (rule early [of e]) (use assms Inl in \<open>simp_all add: stage_def\<close>)
next
  case (Inr parts)
  then have v: "validate_pack_source p = Inr ()" "validate_object_key key = Inr parts" by (auto simp: rbind_eq_Inr)
  define ready where "ready = dps_root sp @ butlast parts @ [ready_name p]"
  have rp: "ready_path (dps_root sp) parts p = Inr ready" by (simp add: ready_path_Inr ready_def)
  have eq: "stage other p key sp =
     (if parts = [] \<or> last parts \<noteq> src_pack_id p @ lit ''.dmi-pack''
      then (sp, Inl (Error ValueError ''spool object key must end with the pack ID''))
      else if node sp ready \<noteq> None then adopt_existing p key ready sp
      else if glob_intents (src_pack_id p) (butlast ready) sp \<noteq> []
      then (sp, Inl (Error PackConflictError ''spool already contains a different pack intent''))
      else if dps_max_bytes sp < dps_bytes sp + src_object_bytes p
      then (sp, Inl (Error SpoolFullError ''spool byte limit exceeded''))
      else st_bind (mkdir_spool ready sp) (\<lambda>sp1 _. link_ready other p key ready sp1))"
    by (simp add: stage_def v rp)
  note eq = eq [unfolded assms]
  show ?thesis
  proof (cases "parts = [] \<or> last parts \<noteq> src_pack_id p @ lit ''.dmi-pack''")
    case True
    with eq show ?thesis by (intro early) auto
  next
    case F: False
    show ?thesis
    proof (cases "node sp ready = None")
      case False
      with F eq show ?thesis by (intro exists [OF v _ _ ready_def]) auto
    next
      case N: True
      show ?thesis
      proof (cases "glob_intents (src_pack_id p) (butlast ready) sp \<noteq> [] \<or> dps_max_bytes sp < dps_bytes sp + src_object_bytes p")
        case True
        with F N eq show ?thesis by (cases r) (auto intro: early split: if_splits)
      next
        case False
        with F N eq show ?thesis by (intro new [OF v _ _ ready_def]) auto
      qed
    qed
  qed
qed

lemma stage_sound:
  assumes "plain_key key"
  shows "sound B sp (fst (stage None p key sp))"
proof -
  obtain sp' r where st: "stage None p key sp = (sp', r)" by (cases "stage None p key sp")
  then have "sound B sp sp'"
  proof (cases rule: stage_cases)
    case (exists ready parts)
    with adopt_existing_sound [of sp ready B p key] show ?thesis by (cases "adopt_existing p key ready sp") simp
  next
    case (new ready parts)
    have "list_all (\<lambda>c. \<not> endswith READY_SUFFIX c) (butlast parts)"
      using assms validate_object_key_parts [OF new(2)] by (auto simp: plain_key_def list_all_iff dest: in_set_butlastD)
    from quiet_mkdir_spool [OF this] have q: "quiet sp (fst (mkdir_spool ready sp))" using new(5) by simp
    have "sound B sp (fst (st_bind (mkdir_spool ready sp) (\<lambda>sp1 _. link_ready None p key ready sp1)))"
    proof (rule sound_bind [OF quiet_sound [OF q]])
      fix s :: spool and x :: unit
      assume s: "mkdir_spool ready sp = (s, Inr x)"
      then have "node s ready = None" using mkdir_spool_other [of ready sp] new(6) by simp
      then show "sound B s (fst (link_ready None p key ready s))"
        using q s new(5,7) by (intro link_ready_sound) (auto simp: quiet_def)
    qed
    then show ?thesis using new(8) by (metis fst_conv)
  qed simp
  with st show ?thesis by simp
qed

definition call_ok :: "spool_call \<Rightarrow> bool" where
  "call_ok c = (case c of CallStage other _ key \<Rightarrow> other = None \<and> plain_key key | CallRemove _ \<Rightarrow> True)"

lemma run_call_sound: "call_ok c \<Longrightarrow> sound B sp (run_call c sp)"
  using stage_sound remove_staged_sound by (cases c) (auto simp: call_ok_def)

lemma spool_calls_sound: "list_all call_ok calls \<Longrightarrow> sound B sp (spool_calls calls sp)"
proof (induction calls arbitrary: sp)
  case (Cons c calls)
  have "sound B sp (run_call c sp)" using Cons.prems by (intro run_call_sound) simp
  also have "sound B (run_call c sp) (spool_calls calls (run_call c sp))" using Cons by simp
  finally show ?case by (simp add: spool_calls_def)
qed (simp add: spool_calls_def)

section \<open>Recovery\<close>

lemma map_of_rename:
  assumes "src \<noteq> dst"
  shows "map_of (map (\<lambda>f. (if fst f = src then dst else fst f, snd f)) (filter (\<lambda>f. fst f \<noteq> dst) m)) q
    = (if q = dst then map_of m src else if q = src then None else map_of m q)"
  using assms by (induction m) auto

lemma distinct_rename:
  assumes "src \<noteq> dst" "distinct (map fst m)"
  shows "distinct (map fst (map (\<lambda>f. (if fst f = src then dst else fst f, snd f)) (filter (\<lambda>f. fst f \<noteq> dst) m)))"
  using assms by (induction m) (auto simp: image_iff)

lemma os_replace_file:
  assumes "node sp src = Some (FReg data)" "src \<noteq> dst" "os_replace src dst sp = (sp', Inr u)"
  shows "node sp' q = (if q = dst then Some (FReg data) else if q = src then None else node sp q)"
    "sp' = sp\<lparr>dps_files := map (\<lambda>f. (if fst f = src then dst else fst f, snd f)) (filter (\<lambda>f. fst f \<noteq> dst) (dps_files sp))\<rparr>"
proof -
  have m: "map (\<lambda>f. (if fst f = src \<or> FReg data = FDir \<and> P f then dst @ drop (length src) (fst f) else fst f, snd f))
        (filter (\<lambda>f. fst f \<noteq> dst) (dps_files sp))
      = map (\<lambda>f. (if fst f = src then dst else fst f, snd f)) (filter (\<lambda>f. fst f \<noteq> dst) (dps_files sp))" for P
    by (rule map_cong) auto
  then show sp': "sp' = sp\<lparr>dps_files := map (\<lambda>f. (if fst f = src then dst else fst f, snd f)) (filter (\<lambda>f. fst f \<noteq> dst) (dps_files sp))\<rparr>"
    using assms by (auto simp: os_replace_def split: if_splits)
  show "node sp' q = (if q = dst then Some (FReg data) else if q = src then None else node sp q)"
    using map_of_rename [OF assms(2), of "dps_files sp" q] assms(1) by (simp add: sp' node_def)
qed

lemma quarantined_path_not_ready: "\<not> rglob_match base READY_SUFFIX (quarantined_path path)"
  using quarantined_not_ready by (simp add: rglob_match_def quarantined_path_def)

lemma os_replace_dropped:
  assumes "ready_view sp path = Some (FReg data)" "os_replace path (quarantined_path path) sp = (sp', Inr u)"
  shows "dropped path sp sp'"
proof -
  have r: "rglob_match (dps_root sp) READY_SUFFIX path" "node sp path = Some (FReg data)"
    using assms(1) by (auto simp: ready_view_def split: if_splits)
  have n: "path \<noteq> quarantined_path path" using r(1) quarantined_path_not_ready by metis
  note f = os_replace_file [OF r(2) n assms(2)]
  have "ready_view sp' q = ((ready_view sp)(path := None)) q" for q
    using f(1) [of q] quarantined_path_not_ready n by (auto simp: ready_view_def f(2))
  then show ?thesis
    using f(2) distinct_rename [OF n, of "dps_files sp"] by (auto simp: dropped_def)
qed

lemma os_replace_Inl: "os_replace src dst sp = (sp', Inl e) \<Longrightarrow> sp' = sp \<and> (node sp src \<noteq> None \<longrightarrow> \<not> is_instance e FileNotFoundError)"
  by (auto simp: os_replace_def is_instance_def exc_ancestors_def split: option.splits if_splits)

lemma quarantine_step:
  assumes inv: "spool_inv B sp" and r: "rglob_match (dps_root sp) READY_SUFFIX path"
  shows "sound B sp (fst (quarantine path sp))"
    "quarantine path sp = (sp', Inr u) \<Longrightarrow> ready_view sp path = Some n \<Longrightarrow>
       dps_mutation_generation sp' = dps_mutation_generation sp + 1 \<and> ready_view sp' = (ready_view sp)(path := None)"
proof -
  obtain sp1 res where os: "os_replace path (quarantined_path path) sp = (sp1, res)"
    by (cases "os_replace path (quarantined_path path) sp")
  have drop: "dropped path sp sp1 \<and> path \<in> fst ` set (dps_accounted_ready sp1)" if "res = Inr x" for x
  proof -
    have "node sp path \<noteq> None" using os that by (auto simp: os_replace_def split: option.splits)
    then obtain m where v: "ready_view sp path = Some m" using r by (auto simp: ready_view_def)
    with spool_invD(10) [OF inv] obtain data where "ready_view sp path = Some (FReg data)" by blast
    then have "dropped path sp sp1" by (rule os_replace_dropped) (use os that in simp)
    then show ?thesis using accounted [OF inv v] by (simp add: dropped_def)
  qed
  have q: "quarantine path sp = fsync_directory (unaccount_ready path sp1)" if "res = Inr x" for x
    using os that drop [OF that] by (simp add: quarantine_def Let_def)
  show "sound B sp (fst (quarantine path sp))"
  proof (cases res)
    case (Inl e)
    then have "sp1 = sp" using os os_replace_Inl [of path "quarantined_path path" sp sp1 e] by simp
    then show ?thesis using os Inl by (simp add: quarantine_def)
  next
    case (Inr x)
    have "sound B sp (unaccount_ready path sp1)" using drop [OF Inr] drop_sound by blast
    also have "sound B (unaccount_ready path sp1) (fst (fsync_directory (unaccount_ready path sp1)))"
      by (rule quiet_sound [OF quiet_fsync_directory])
    finally show ?thesis using q [OF Inr] by simp
  qed
  assume h: "quarantine path sp = (sp', Inr u)" "ready_view sp path = Some n"
  have "node sp path \<noteq> None" using h(2) by (auto simp: ready_view_def split: if_splits)
  then obtain x where x: "res = Inr x"
    using h(1) os os_replace_Inl [of path "quarantined_path path" sp sp1] by (cases res) (auto simp: quarantine_def)
  have "quiet (unaccount_ready path sp1) sp'" 
    using quiet_fsync_directory [of "unaccount_ready path sp1"] q [OF x] h(1) by (metis fst_conv)
  then show "dps_mutation_generation sp' = dps_mutation_generation sp + 1 \<and> ready_view sp' = (ready_view sp)(path := None)"
    using drop_inv(2) [OF inv conjunct1 [OF drop [OF x]] h(2)] drop [OF x] by (simp add: quiet_def dropped_def)
qed

lemma validate_errors: "validate_pack_source p = Inl e \<Longrightarrow> err_class e = ValueError"
  by (auto simp: validate_pack_source_def split: option.splits if_splits)

lemma entry_error:
  assumes "node sp path = Some (FReg data)" "entry sp path = Inl e"
  shows "err_class e \<in> {PackIntegrityError, ValueError}"
proof (cases "\<not> is_relative_to (dps_root sp) path \<or> match_ready_name (last path) = None")
  case True
  with assms show ?thesis by (cases "is_relative_to (dps_root sp) path") (auto simp: entry_def)
next
  case False
  then obtain a b c d where "match_ready_name (last path) = Some (a, b, c, d)" "is_relative_to (dps_root sp) path" by auto
  then show ?thesis
    using assms validate_errors by (auto simp: entry_def rbind_eq_Inl int_of_digits_def Let_def split: if_splits)
qed

lemma ready_verdict_file:
  assumes "node sp path = Some (FReg data)"
  obtains e where "ready_verdict sp path = Inr (Valid e)" "stg_path e = path" "stg_object_bytes e = int (length data)"
    "hexdigest data = stg_checksum e"
  | "ready_verdict sp path = Inr Corrupt"
proof (cases "entry sp path")
  case (Inl e)
  have "err_class e \<in> {PackIntegrityError, ValueError}" using entry_error [OF assms Inl] .
  then have "\<not> is_instance e FileNotFoundError \<and> (is_instance e PackIntegrityError \<or> is_instance e ValueError)"
    by (auto simp: is_instance_def exc_ancestors_def)
  then have "ready_verdict sp path = Inr Corrupt" using Inl assms by (simp add: ready_verdict_def)
  then show ?thesis by (rule that(2))
next
  case (Inr e)
  then have e: "stg_path e = path \<and> stg_object_bytes e = int (length data)"
    using assms by (auto elim: entry_Inr)
  have "ready_verdict sp path = Inr (if hexdigest data \<noteq> stg_checksum e then Corrupt else Valid e)"
    using Inr assms by (simp add: ready_verdict_def checksum_of_def open_staged_def)
  then show ?thesis using e that by (cases "hexdigest data = stg_checksum e") simp_all
qed

lemma soundD:
  assumes "sound B sp sp'" "spool_inv B sp"
  shows "spool_inv B sp'" "dps_root sp' = dps_root sp" "dps_mutation_generation sp \<le> dps_mutation_generation sp'"
    "dps_mutation_generation sp' = dps_mutation_generation sp \<Longrightarrow> quiet sp sp'"
  using assms by (auto simp: sound_def)

lemma validate_ready_from:
  assumes ok: "\<forall>i. list_all call_ok (gaps i)" and inv: "spool_inv B (spool_calls (gaps (2 * i)) sp)"
    and m: "rglob_match (dps_root (spool_calls (gaps (2 * i)) sp)) READY_SUFFIX path"
    and rest: "\<And>s k. spool_inv B s \<Longrightarrow> dps_root s = dps_root (spool_calls (gaps (2 * i)) sp)
      \<Longrightarrow> sound B s (fst (validate_ready gaps k paths s))"
  shows "sound B (spool_calls (gaps (2 * i)) sp) (fst (validate_ready gaps i (path # paths) sp))"
proof -
  define sp1 where "sp1 = spool_calls (gaps (2 * i)) sp"
  define sp2 where "sp2 = spool_calls (gaps (Suc (2 * i))) sp1"
  note rest = rest [folded sp1_def]
  have s2: "sound B sp1 sp2" unfolding sp2_def using ok by (intro spool_calls_sound) simp
  have i1: "spool_inv B sp1" using inv by (simp add: sp1_def)
  note i2 = soundD [OF s2 i1]
  have q: "sound B sp2 (fst (quarantine path sp2))"
    using i2 m by (intro quarantine_step) (simp_all add: sp1_def)
  have "sound B s (fst (validate_ready gaps (Suc i) paths s))" if "quarantine path sp2 = (s, Inr x)" for s x
  proof -
    have "sound B sp2 s" using q that by simp
    from soundD [OF this i2(1)] i2(2) show ?thesis by (intro rest) simp_all
  qed
  then have bad: "sound B sp1 (fst (st_bind (quarantine path sp2) (\<lambda>s _. validate_ready gaps (Suc i) paths s)))"
    by (intro sound_trans [OF s2 sound_bind [OF q]])
  have good: "sound B sp1 (fst (st_bind (validate_ready gaps (Suc i) paths sp1) (\<lambda>s es. (s, Inr (e # es)))))" for e
    by (rule sound_bind [OF rest [OF i1 refl]]) simp
  show ?thesis
    using rest [OF i1 refl, of "Suc i"] bad good
    by (simp add: Let_def flip: sp1_def sp2_def split: sum.splits verdict.splits)
qed

lemma validate_ready_sound:
  assumes "\<forall>i. list_all call_ok (gaps i)" "spool_inv B sp"
    "\<forall>path \<in> set paths. rglob_match (dps_root sp) READY_SUFFIX path"
  shows "sound B sp (fst (validate_ready gaps i paths sp))"
  using assms(2,3)
proof (induction paths arbitrary: i sp)
  case (Cons path paths)
  have s1: "sound B sp (spool_calls (gaps (2 * i)) sp)" using assms(1) by (intro spool_calls_sound) simp
  note i1 = soundD [OF s1 Cons.prems(1)]
  have "sound B (spool_calls (gaps (2 * i)) sp) (fst (validate_ready gaps i (path # paths) sp))"
    using i1 Cons.prems by (intro validate_ready_from [OF assms(1)] Cons.IH) simp_all
  with s1 show ?case by (rule sound_trans)
qed simp

lemma dom_ready_match: "path \<in> dom (ready_view sp) \<Longrightarrow> rglob_match (dps_root sp) READY_SUFFIX path"
  by (auto simp: ready_view_def split: if_splits)

lemma quiet_verdict: "quiet sp sp' \<Longrightarrow> path \<in> dom (ready_view sp) \<Longrightarrow> ready_verdict sp' path = ready_verdict sp path"
  by (rule ready_verdict_cong) (auto simp: quiet_def ready_view_def fun_eq_iff split: if_splits)

text \<open>A quarantine moves the generation, whatever other threads do around it.\<close>

lemma corrupt_moves:
  assumes ok: "\<forall>i. list_all call_ok (gaps i)" "list_all call_ok calls" and inv: "spool_inv B sp"
    and sub: "set (path # paths) \<subseteq> dom (ready_view sp)"
    and run: "st_bind (quarantine path (spool_calls calls sp)) (\<lambda>s _. validate_ready gaps k paths s) = (sp', Inr es)"
  shows "dps_mutation_generation sp < dps_mutation_generation sp'"
proof -
  define sp2 where "sp2 = spool_calls calls sp"
  have s2: "sound B sp sp2" unfolding sp2_def using ok(2) by (rule spool_calls_sound)
  note i2 = soundD [OF s2 inv]
  obtain s x where q: "quarantine path sp2 = (s, Inr x)" "validate_ready gaps k paths s = (sp', Inr es)"
    using run by (auto simp: st_bind_eq_Inr sp2_def)
  have r2: "rglob_match (dps_root sp2) READY_SUFFIX path" using sub dom_ready_match [of path sp] i2(2) by simp
  have s3: "sound B sp2 s" using quarantine_step(1) [OF i2(1) r2] q(1) by simp
  note i3 = soundD [OF s3 i2(1)]
  have "\<forall>p \<in> set paths. rglob_match (dps_root s) READY_SUFFIX p" using sub dom_ready_match [of _ sp] i2(2) i3(2) by auto
  from validate_ready_sound [OF ok(1) i3(1) this, of k] have "sound B s sp'" using q(2) by simp
  note i4 = soundD [OF this i3(1)]
  show ?thesis
  proof (cases "dps_mutation_generation sp2 = dps_mutation_generation sp")
    case True
    then obtain n where "ready_view sp2 path = Some n" using i2(4) sub by (auto simp: quiet_def)
    from quarantine_step(2) [OF i2(1) r2 q(1) this] True i4(3) show ?thesis by simp
  qed (use i2(3) i3(3) i4(3) in simp)
qed

text \<open>A pass over which the generation did not move saw every ready file, and found it valid.\<close>

lemma validate_ready_step:
  assumes ok: "\<forall>i. list_all call_ok (gaps i)" and inv: "spool_inv B sp"
    and sub: "set (path # paths) \<subseteq> dom (ready_view sp)"
    and run: "validate_ready gaps i (path # paths) sp = (sp', Inr es)"
    and gen: "dps_mutation_generation sp' = dps_mutation_generation sp"
  obtains sp1 e es' where "es = e # es'" "stg_path e = path" "ready_verdict sp path = Inr (Valid e)" "quiet sp sp1"
    "validate_ready gaps (Suc i) paths sp1 = (sp', Inr es')"
proof -
  define sp1 where "sp1 = spool_calls (gaps (2 * i)) sp"
  have s1: "sound B sp sp1" unfolding sp1_def using ok by (intro spool_calls_sound) simp
  note i1 = soundD [OF s1 inv]
  have m: "\<forall>p \<in> set paths. rglob_match (dps_root sp1) READY_SUFFIX p" using sub dom_ready_match [of _ sp] i1(2) by auto
  obtain data where d: "ready_view sp path = Some (FReg data)" using sub spool_invD(10) [OF inv, of path] by auto
  have eq: "validate_ready gaps i (path # paths) sp = (case ready_verdict sp1 path of
        Inl e \<Rightarrow> (sp1, Inl e)
      | Inr Gone \<Rightarrow> validate_ready gaps (Suc i) paths sp1
      | Inr Corrupt \<Rightarrow> st_bind (quarantine path (spool_calls (gaps (2 * i + 1)) sp1)) (\<lambda>s _. validate_ready gaps (Suc i) paths s)
      | Inr (Valid e) \<Rightarrow> st_bind (validate_ready gaps (Suc i) paths sp1) (\<lambda>s entries. (s, Inr (e # entries))))"
    unfolding validate_ready.simps Let_def sp1_def ..
  have rest: "sound B t (fst (validate_ready gaps k paths t))" if "spool_inv B t" "dps_root t = dps_root sp1" for t k
    using validate_ready_sound [OF ok that(1)] m that(2) by simp
  have "sound B sp1 sp'"
    using validate_ready_from [OF ok, of B i sp path paths] i1 rest sub dom_ready_match [of path sp] run
    by (simp flip: sp1_def del: validate_ready.simps)
  from soundD(3) [OF this i1(1)] i1(3) gen have g: "dps_mutation_generation sp1 = dps_mutation_generation sp"
    "dps_mutation_generation sp1 = dps_mutation_generation sp'" by linarith+
  have q: "quiet sp sp1" using i1(4) g(1) by simp
  have n: "node sp1 path = Some (FReg data)"
    using q d by (auto simp: quiet_def ready_view_def fun_eq_iff split: if_splits)
  show ?thesis
  proof (rule ready_verdict_file [OF n])
    fix e assume e: "ready_verdict sp1 path = Inr (Valid e)" "stg_path e = path"
    then obtain es' where "es = e # es'" "validate_ready gaps (Suc i) paths sp1 = (sp', Inr es')"
      using run unfolding eq by (auto simp: st_bind_eq_Inr)
    moreover have "ready_verdict sp path = Inr (Valid e)" using quiet_verdict [OF q, of path] e(1) sub by auto
    ultimately show ?thesis using e(2) q by (intro that) simp_all
  next
    assume "ready_verdict sp1 path = Inr Corrupt"
    then have "dps_mutation_generation sp1 < dps_mutation_generation sp'"
      using run sub q ok i1(1) unfolding eq
      by (intro corrupt_moves [where gaps = gaps and calls = "gaps (2 * i + 1)" and path = path and paths = paths and es = es])
        (simp_all add: quiet_def)
    with g show ?thesis by simp
  qed
qed

lemma validate_ready_undisturbed:
  assumes "\<forall>i. list_all call_ok (gaps i)" "spool_inv B sp" "set paths \<subseteq> dom (ready_view sp)"
    "validate_ready gaps i paths sp = (sp', Inr es)" "dps_mutation_generation sp' = dps_mutation_generation sp"
  shows "map stg_path es = paths \<and> (\<forall>e \<in> set es. ready_verdict sp (stg_path e) = Inr (Valid e))"
  using assms(2-5)
proof (induction paths arbitrary: i sp es)
  case (Cons path paths)
  from assms(1) Cons.prems show ?case
  proof (rule validate_ready_step)
    fix sp1 e es'
    assume e: "es = e # es'" "stg_path e = path" "ready_verdict sp path = Inr (Valid e)" "quiet sp sp1"
      "validate_ready gaps (Suc i) paths sp1 = (sp', Inr es')"
    have "map stg_path es' = paths \<and> (\<forall>e \<in> set es'. ready_verdict sp1 (stg_path e) = Inr (Valid e))"
      using quiet_inv [OF e(4) Cons.prems(1)] e Cons.prems by (intro Cons.IH) (auto simp: quiet_def)
    moreover have "ready_verdict sp1 q = ready_verdict sp q" if "q \<in> set paths" for q
      using quiet_verdict [OF e(4)] that Cons.prems(2) by auto
    ultimately show ?thesis using e by auto
  qed
qed simp

lemma spool_calls_Nil [simp]: "spool_calls [] sp = sp"
  by (simp add: spool_calls_def)

lemma dom_file:
  assumes "spool_inv B sp" "q \<in> dom (ready_view sp)"
  obtains data where "ready_view sp q = Some (FReg data)" "node sp q = Some (FReg data)"
proof -
  obtain n where n: "ready_view sp q = Some n" using assms(2) by blast
  then obtain data where "n = FReg data" using spool_invD(10) [OF assms(1)] by blast
  with n that show ?thesis by (auto simp: ready_view_def split: if_splits)
qed

lemma view_verdict:
  assumes "ready_view s q = ready_view sp q" "dps_root s = dps_root sp" "q \<in> dom (ready_view sp)"
  shows "ready_verdict s q = ready_verdict sp q"
  using assms dom_ready_match [OF assms(3)] by (intro ready_verdict_cong) (simp_all add: ready_view_def)

text \<open>The pass under the lock: the corrupt files are gone, and the valid ones are the entries.\<close>

definition valid_entries :: "spool \<Rightarrow> pystr list list \<Rightarrow> staged_pack list" where
  "valid_entries sp paths =
     concat (map (\<lambda>path. case ready_verdict sp path of Inr (Valid e) \<Rightarrow> [e] | _ \<Rightarrow> []) paths)"

lemma validate_ready_locked:
  assumes "spool_inv B sp" "distinct paths" "set paths \<subseteq> dom (ready_view sp)"
    "validate_ready (\<lambda>_. []) i paths sp = (sp', Inr es)"
  shows "dps_root sp' = dps_root sp \<and> es = valid_entries sp paths
    \<and> ready_view sp' = (\<lambda>q. if q \<in> set paths \<and> ready_verdict sp q = Inr Corrupt then None else ready_view sp q)"
  using assms
proof (induction paths arbitrary: i sp es)
  case Nil
  then show ?case by (simp add: valid_entries_def)
next
  case (Cons path paths)
  have m: "rglob_match (dps_root sp) READY_SUFFIX path" using Cons.prems(3) dom_ready_match by simp
  obtain data where d: "ready_view sp path = Some (FReg data)" and n: "node sp path = Some (FReg data)"
    using dom_file [OF Cons.prems(1), of path] Cons.prems(3) by (metis insert_subset list.simps(15))
  from n show ?case
  proof (rule ready_verdict_file)
    fix e assume e: "ready_verdict sp path = Inr (Valid e)"
    then obtain es' where es': "es = e # es'" "validate_ready (\<lambda>_. []) (Suc i) paths sp = (sp', Inr es')"
      using Cons.prems(4) by (auto simp: st_bind_eq_Inr)
    have "dps_root sp' = dps_root sp \<and> es' = valid_entries sp paths
      \<and> ready_view sp' = (\<lambda>q. if q \<in> set paths \<and> ready_verdict sp q = Inr Corrupt then None else ready_view sp q)"
      using Cons.prems es'(2) by (intro Cons.IH) simp_all
    then show ?thesis using e es'(1) by (auto simp: valid_entries_def fun_eq_iff)
  next
    assume c: "ready_verdict sp path = Inr Corrupt"
    then obtain s x where s: "quarantine path sp = (s, Inr x)" "validate_ready (\<lambda>_. []) (Suc i) paths s = (sp', Inr es)"
      using Cons.prems(4) by (auto simp: st_bind_eq_Inr)
    have so: "sound B sp s" using quarantine_step(1) [OF Cons.prems(1) m] s(1) by simp
    note i = soundD [OF this Cons.prems(1)]
    have view: "ready_view s = (ready_view sp)(path := None)" using quarantine_step(2) [OF Cons.prems(1) m s(1) d] by simp
    have v: "ready_verdict s q = ready_verdict sp q" if "q \<in> set paths" for q
      using that Cons.prems(2,3) view i(2) by (intro view_verdict) auto
    have "dps_root sp' = dps_root s \<and> es = valid_entries s paths
      \<and> ready_view sp' = (\<lambda>q. if q \<in> set paths \<and> ready_verdict s q = Inr Corrupt then None else ready_view s q)"
      using Cons.prems view i(1) s(2) by (intro Cons.IH) auto
    moreover have "valid_entries s paths = valid_entries sp paths"
      unfolding valid_entries_def by (rule arg_cong [where f = concat], rule map_cong [OF refl]) (simp add: v)
    ultimately show ?thesis using c view v i(2) by (auto simp: valid_entries_def fun_eq_iff)
  qed
qed

text \<open>What a recovery leaves behind: the entries are the ready files on disk, each valid.\<close>

definition listed :: "staged_pack list \<Rightarrow> spool \<Rightarrow> bool" where
  "listed es sp \<longleftrightarrow> set (map stg_path es) = dom (ready_view sp) \<and> distinct (map stg_path es) \<and> sorted (map stg_path es)
     \<and> (\<forall>e \<in> set es. ready_verdict sp (stg_path e) = Inr (Valid e))"

lemma Valid_path: "ready_verdict sp path = Inr (Valid e) \<Longrightarrow> stg_path e = path"
  using ready_verdict_Valid [of sp path e] by (auto elim: entry_Inr)

lemma valid_entries_paths:
  "map stg_path (valid_entries sp paths) = filter (\<lambda>p. \<exists>e. ready_verdict sp p = Inr (Valid e)) paths"
  by (induction paths) (auto simp: valid_entries_def Valid_path split: sum.splits verdict.splits)

lemma valid_entries_valid: "e \<in> set (valid_entries sp paths) \<Longrightarrow> ready_verdict sp (stg_path e) = Inr (Valid e)"
  by (induction paths) (auto simp: valid_entries_def Valid_path split: sum.splits verdict.splits)

lemma locked_listed:
  assumes "begin_recovery sp = (sp1, Inr paths)" "validate_ready (\<lambda>_. []) 0 paths sp1 = (sp2, Inr es)" "spool_inv B sp"
  shows "listed es sp2"
proof -
  have inv: "spool_inv B sp1" using quiet_inv [OF quiet_begin_recovery assms(3)] assms(1) by simp
  have p: "set paths = dom (ready_view sp1)" "distinct paths" "sorted paths"
    using begin_recovery_paths [OF assms(1,3)] by simp_all
  have l: "dps_root sp2 = dps_root sp1" "es = valid_entries sp1 paths"
    "ready_view sp2 = (\<lambda>q. if q \<in> set paths \<and> ready_verdict sp1 q = Inr Corrupt then None else ready_view sp1 q)"
    using validate_ready_locked [OF inv p(2) _ assms(2)] p(1) by simp_all
  have two: "ready_verdict sp1 q = Inr Corrupt \<or> (\<exists>e. ready_verdict sp1 q = Inr (Valid e))" if "q \<in> set paths" for q
    using that p(1) by (auto elim!: dom_file [OF inv] elim: ready_verdict_file)
  have v: "ready_verdict sp2 (stg_path e) = Inr (Valid e)" if "e \<in> set es" for e
  proof -
    have "stg_path e \<in> set (map stg_path (valid_entries sp1 paths))" using that l(2) by simp
    then have e: "ready_verdict sp1 (stg_path e) = Inr (Valid e)" "stg_path e \<in> set paths"
      using valid_entries_valid [of e sp1 paths] that l(2) unfolding valid_entries_paths by auto
    then have "ready_view sp2 (stg_path e) = ready_view sp1 (stg_path e)" by (simp add: l(3))
    then show ?thesis using e p(1) l(1) view_verdict [of sp2 "stg_path e" sp1] by simp
  qed
  have "dom (ready_view sp2) = set (filter (\<lambda>p. \<exists>e. ready_verdict sp1 p = Inr (Valid e)) paths)"
    using p(1) two by (fastforce simp: l(3) split: if_splits)
  then show ?thesis
    using v p(2,3) valid_entries_paths [of sp1 paths] l(2)
    by (simp add: listed_def sorted_filter [where f = id, simplified])
qed

lemma sum_map_of:
  assumes "distinct (map fst xs)" "distinct (map fst ys)" "map_of xs = map_of (ys :: ('a \<times> int) list)"
  shows "sum_list (map snd xs) = sum_list (map snd ys)"
proof -
  have "set xs = set ys" using assms by (metis (no_types) map_of_eqI set_map_of_compr)
  moreover have "distinct xs" "distinct ys" using assms(1,2) by (simp_all add: distinct_map)
  ultimately show ?thesis by (simp add: sum_list_distinct_conv_sum_set)
qed

lemma commit_inv:
  assumes inv: "spool_inv B sp" and l: "listed es sp"
  shows "spool_inv B (commit_recovery es sp)"
proof -
  note I = spool_invD [OF inv]
  have view: "ready_view (commit_recovery es sp) = ready_view sp"
    by (simp add: commit_recovery_def Let_def ready_view_def node_def fun_eq_iff)
  have e: "stg_object_bytes e = reg_size n" if "e \<in> set es" "ready_view sp (stg_path e) = Some n" for e n
  proof -
    have "ready_verdict sp (stg_path e) = Inr (Valid e)" using l that(1) by (simp add: listed_def)
    then obtain data where "node sp (stg_path e) = Some (FReg data)" "stg_object_bytes e = int (length data)"
      using ready_verdict_Valid by (metis entry_Inr)
    with that(2) show ?thesis by (auto simp: ready_view_def reg_size_def split: if_splits)
  qed
  have d: "distinct (map fst (map (\<lambda>e. (stg_path e, stg_object_bytes e)) es))" using l by (simp add: listed_def comp_def)
  have m: "map_of (map (\<lambda>e. (stg_path e, stg_object_bytes e)) es) = (\<lambda>q. map_option reg_size (ready_view sp q))"
  proof
    fix q
    show "map_of (map (\<lambda>e. (stg_path e, stg_object_bytes e)) es) q = map_option reg_size (ready_view sp q)"
    proof (cases "ready_view sp q")
      case None
      then have "q \<notin> stg_path ` set es" using l by (auto simp: listed_def)
      then show ?thesis using None by (simp add: map_of_eq_None_iff image_image)
    next
      case (Some n)
      then have "q \<in> stg_path ` set es" using l by (auto simp: listed_def)
      then obtain x where x: "x \<in> set es" "q = stg_path x" by blast
      then show ?thesis using Some e d by (auto intro!: map_of_is_SomeI simp: comp_def)
    qed
  qed
  have s: "sum_list (map stg_object_bytes es) = sum_list (map snd (dps_accounted_ready sp))"
    using sum_map_of [OF d I(2)] m I(9) by (simp add: comp_def fun_eq_iff)
  show ?thesis
    unfolding spool_inv_def view using I m d s
    by (auto simp: commit_recovery_def Let_def comp_def)
qed

lemma commit_view [simp]: "ready_view (commit_recovery es sp) = ready_view sp" "node (commit_recovery es sp) q = node sp q"
  "dps_root (commit_recovery es sp) = dps_root sp" "dps_sync_faults (commit_recovery es sp) = dps_sync_faults sp"
  "ready_verdict (commit_recovery es sp) q = ready_verdict sp q"
proof -
  show n: "node (commit_recovery es sp) q = node sp q" for q by (simp add: commit_recovery_def Let_def node_def)
  show r: "dps_root (commit_recovery es sp) = dps_root sp" "dps_sync_faults (commit_recovery es sp) = dps_sync_faults sp"
    by (simp_all add: commit_recovery_def Let_def)
  show "ready_view (commit_recovery es sp) = ready_view sp" by (simp add: ready_view_def n r fun_eq_iff)
  show "ready_verdict (commit_recovery es sp) q = ready_verdict sp q" by (rule ready_verdict_cong) (simp_all add: n r)
qed

lemma listed_commit [simp]: "listed es (commit_recovery es' sp) = listed es sp"
  by (simp add: listed_def)

lemma undisturbed_listed:
  assumes ok: "\<forall>i. list_all call_ok (gaps i)" "list_all call_ok calls" and inv: "spool_inv B sp"
    and run: "begin_recovery sp = (sp1, Inr paths)" "validate_ready gaps 0 paths sp1 = (sp2, Inr es)"
    and gen: "dps_mutation_generation (spool_calls calls sp2) = dps_mutation_generation sp"
  shows "listed es (spool_calls calls sp2)"
proof -
  define sp3 where "sp3 = spool_calls calls sp2"
  have q: "quiet sp sp1" using quiet_begin_recovery [of sp] run(1) by simp
  have p: "set paths = dom (ready_view sp1)" "distinct paths" "sorted paths"
    using begin_recovery_paths [OF run(1) inv] by simp_all
  have s12: "sound B sp1 sp2"
    using validate_ready_sound [OF ok(1) quiet_inv [OF q inv], of paths 0] p(1) dom_ready_match [of _ sp1] run(2) by auto
  note i2 = soundD [OF s12 quiet_inv [OF q inv]]
  have s23: "sound B sp2 sp3" unfolding sp3_def using ok(2) by (rule spool_calls_sound)
  note i3 = soundD [OF s23 i2(1)]
  have g: "dps_mutation_generation sp2 = dps_mutation_generation sp1" "dps_mutation_generation sp3 = dps_mutation_generation sp2"
    using gen q i2(3) i3(3) by (simp_all add: quiet_def flip: sp3_def)
  have q13: "quiet sp1 sp3" using i2(4) i3(4) g quiet_trans by blast
  have e: "map stg_path es = paths" "\<And>e. e \<in> set es \<Longrightarrow> ready_verdict sp1 (stg_path e) = Inr (Valid e)"
    using validate_ready_undisturbed [OF ok(1) quiet_inv [OF q inv] _ run(2) g(1)] p(1) by auto
  have "ready_verdict sp3 (stg_path x) = Inr (Valid x)" if "x \<in> set es" for x
  proof -
    have "stg_path x \<in> dom (ready_view sp1)" using e(1) p(1) that by (metis image_eqI list.set_map)
    then show ?thesis using quiet_verdict [OF q13] e(2) [OF that] by simp
  qed
  then show ?thesis using p e(1) q13 by (simp add: listed_def quiet_def flip: sp3_def)
qed

lemma recover_pass:
  assumes ok: "\<forall>k i. list_all call_ok (gaps k i)" and inv: "spool_inv B sp"
    and run: "recover_passes gaps n k sp = (sp', r)"
  shows "spool_inv B sp' \<and> (\<forall>es. r = Inr es \<longrightarrow> listed es sp')"
  using inv run
proof (induction n arbitrary: k sp)
  case 0
  obtain sp1 r1 where b: "begin_recovery sp = (sp1, r1)" by (cases "begin_recovery sp")
  have i1: "spool_inv B sp1" using quiet_inv [OF quiet_begin_recovery "0.prems"(1)] b by simp
  show ?case
  proof (cases r1)
    case (Inr paths)
    obtain sp2 r2 where v: "validate_ready (\<lambda>_. []) 0 paths sp1 = (sp2, r2)" by (cases "validate_ready (\<lambda>_. []) 0 paths sp1")
    have "sound B sp1 sp2"
      using validate_ready_sound [of "\<lambda>_. []" B sp1 paths 0] i1 begin_recovery_paths [of sp sp1 paths B] "0.prems"(1) b Inr v
        dom_ready_match [of _ sp1] by auto
    then have i2: "spool_inv B sp2" using i1 soundD(1) by blast
    show ?thesis
    proof (cases r2)
      case r2: (Inr es)
      have "listed es sp2" using locked_listed [of sp sp1 paths sp2 es B] "0.prems"(1) b v Inr r2 by simp
      with commit_inv [OF i2 this] "0.prems"(2) b v Inr r2 show ?thesis by auto
    qed (use "0.prems"(2) b v Inr i2 in auto)
  qed (use "0.prems"(2) b i1 in auto)
next
  case (Suc n)
  obtain sp1 r1 where b: "begin_recovery sp = (sp1, r1)" by (cases "begin_recovery sp")
  have i1: "spool_inv B sp1" using quiet_inv [OF quiet_begin_recovery Suc.prems(1)] b by simp
  show ?case
  proof (cases r1)
    case (Inr paths)
    obtain sp2 r2 where v: "validate_ready (gaps k) 0 paths sp1 = (sp2, r2)" by (cases "validate_ready (gaps k) 0 paths sp1")
    define sp3 where "sp3 = spool_calls (gaps k (2 * length paths)) sp2"
    have "sound B sp1 sp2"
      using validate_ready_sound [of "gaps k" B sp1 paths 0] ok i1 begin_recovery_paths [of sp sp1 paths B] Suc.prems(1) b Inr v
        dom_ready_match [of _ sp1] by auto
    then have i2: "spool_inv B sp2" using i1 soundD(1) by blast
    have i3: "spool_inv B sp3" unfolding sp3_def using soundD(1) [OF spool_calls_sound i2] ok by blast
    show ?thesis
    proof (cases r2)
      case r2: (Inr es)
      have eq: "recover_passes gaps (Suc n) k sp = (if dps_mutation_generation sp3 \<noteq> dps_mutation_generation sp
          then recover_passes gaps n (Suc k) sp3 else (commit_recovery es sp3, Inr es))"
        using b v Inr r2 by (simp add: Let_def sp3_def)
      note eq = eq [unfolded Suc.prems(2)]
      show ?thesis
      proof (cases "dps_mutation_generation sp3 = dps_mutation_generation sp")
        case True
        then have "listed es sp3"
          using undisturbed_listed [of "gaps k" "gaps k (2 * length paths)" B sp sp1 paths sp2 es] ok Suc.prems(1) b v Inr r2
          by (simp add: sp3_def)
        with commit_inv [OF i3 this] eq True show ?thesis by simp
      next
        case False
        with eq Suc.IH [OF i3, of "Suc k"] show ?thesis by simp
      qed
    qed (use Suc.prems(2) b v Inr i2 in auto)
  qed (use Suc.prems(2) b i1 in auto)
qed

section \<open>Sequences of operations\<close>

datatype spool_op = OpCall spool_call | OpRecover "nat \<Rightarrow> nat \<Rightarrow> spool_call list"

fun run_op :: "spool_op \<Rightarrow> spool \<Rightarrow> spool" where
  "run_op (OpCall c) sp = run_call c sp"
| "run_op (OpRecover gaps) sp = fst (recover gaps sp)"

definition op_ok :: "spool_op \<Rightarrow> bool" where
  "op_ok op = (case op of OpCall c \<Rightarrow> call_ok c | OpRecover gaps \<Rightarrow> \<forall>k i. list_all call_ok (gaps k i))"

lemma run_op_inv:
  assumes "op_ok op" "spool_inv B sp"
  shows "spool_inv B (run_op op sp)"
proof (cases op)
  case (OpCall c)
  then show ?thesis using soundD(1) [OF run_call_sound assms(2)] assms(1) by (simp add: op_ok_def)
next
  case (OpRecover gaps)
  obtain sp' r where "recover gaps sp = (sp', r)" by (cases "recover gaps sp")
  with recover_pass [of gaps B sp] assms OpRecover show ?thesis by (auto simp: op_ok_def recover_def)
qed

lemma run_ops_inv: "list_all op_ok ops \<Longrightarrow> spool_inv B sp \<Longrightarrow> spool_inv B (fold run_op ops sp)"
  by (induction ops arbitrary: sp) (auto intro: run_op_inv)

text \<open>A tree on which the names of ready files are taken by regular files only.\<close>

definition plain_tree :: "pystr list \<Rightarrow> (pystr list \<times> fnode) list \<Rightarrow> bool" where
  "plain_tree base files \<longleftrightarrow> distinct (map fst files)
     \<and> list_all (\<lambda>f. rglob_match base READY_SUFFIX (fst f) \<longrightarrow> (case snd f of FReg _ \<Rightarrow> True | _ \<Rightarrow> False)) files"

lemma map_of_filter_map:
  assumes "distinct (map fst m)"
  shows "map_of (map (\<lambda>f. (fst f, g f)) (filter (\<lambda>f. P (fst f)) m)) q
    = (if P q then map_option (\<lambda>v. g (q, v)) (map_of m q) else None)"
  using assms
proof (induction m)
  case (Cons a m)
  have "map_of m (fst a) = None" using Cons.prems by (simp add: map_of_eq_None_iff)
  with Cons show ?case by (cases a) auto
qed simp

lemma new_spool_inv:
  assumes new: "DurablePackSpool base files other_size faults max_bytes = Inr sp" and plain: "plain_tree base files"
    and size: "\<forall>path. 0 \<le> other_size path"
  shows "spool_inv (max max_bytes (dps_bytes sp)) sp" "dps_root sp = base" "dps_files sp = files" "dps_sync_faults sp = faults"
proof -
  let ?ready = "filter (\<lambda>f. rglob_match base READY_SUFFIX (fst f)) files"
  have d: "distinct (map fst files)" using plain by (simp add: plain_tree_def)
  have sp: "dps_root sp = base" "dps_files sp = files" "dps_sync_faults sp = faults" "dps_max_bytes sp = max_bytes"
    "dps_entries sp = int (length ?ready)" "dps_peak_bytes sp = dps_bytes sp"
    "dps_accounted_ready sp = map (\<lambda>f. (fst f, lstat_size other_size f)) ?ready"
    "dps_bytes sp = sum_list (map (lstat_size other_size) ?ready)
       + sum_list (map (lstat_size other_size) (filter (\<lambda>f. rglob_match base OPEN_SUFFIX (fst f)) files))"
    using new by (auto simp: DurablePackSpool_def Let_def comp_def split: if_splits)
  then show "dps_root sp = base" "dps_files sp = files" "dps_sync_faults sp = faults" by simp_all
  have nn: "0 \<le> lstat_size other_size f" for f using size by (simp add: lstat_size_def split: fnode.splits)
  have v: "\<exists>data. n = FReg data" if "ready_view sp path = Some n" for path n
  proof -
    have "(path, n) \<in> set files" "rglob_match base READY_SUFFIX path"
      using that sp(1,2) by (auto simp: ready_view_def node_def split: if_splits dest: map_of_SomeD)
    then show ?thesis using plain by (cases n) (auto simp: plain_tree_def list_all_iff)
  qed
  have m: "map_of (dps_accounted_ready sp) q = map_option reg_size (ready_view sp q)" for q
  proof (cases "ready_view sp q")
    case None
    then show ?thesis using map_of_filter_map [OF d, of "lstat_size other_size" "rglob_match base READY_SUFFIX" q]
      by (auto simp: sp ready_view_def node_def split: if_splits)
  next
    case (Some n)
    then obtain data where "n = FReg data" using v by blast
    then show ?thesis using Some map_of_filter_map [OF d, of "lstat_size other_size" "rglob_match base READY_SUFFIX" q]
      by (auto simp: sp ready_view_def node_def lstat_size_def reg_size_def split: if_splits)
  qed
  show "spool_inv (max max_bytes (dps_bytes sp)) sp"
    unfolding spool_inv_def using d v m sp nn distinct_filter_fst [OF d]
    by (auto simp: comp_def fun_eq_iff intro!: sum_list_nonneg)
qed

lemma disk_bytes:
  assumes "spool_inv B sp"
  shows "sum_list (map (\<lambda>p. reg_size (the (node sp p))) (rglob READY_SUFFIX sp)) = sum_list (map snd (dps_accounted_ready sp))"
    "length (rglob READY_SUFFIX sp) = length (dps_accounted_ready sp)"
proof -
  note I = spool_invD [OF assms]
  let ?m = "map (\<lambda>p. (p, reg_size (the (node sp p)))) (rglob READY_SUFFIX sp)"
  have d: "distinct (rglob READY_SUFFIX sp)" using I(1) by (simp add: rglob_def)
  then have dm: "distinct (map fst ?m)" by (simp add: comp_def)
  have "map_of ?m q = map_of (dps_accounted_ready sp) q" for q
  proof (cases "ready_view sp q")
    case None
    then have "q \<notin> set (rglob READY_SUFFIX sp)" by (auto simp: rglob_ready)
    then have "map_of ?m q = None" by (simp add: map_of_eq_None_iff image_image)
    then show ?thesis using None I(9) [of q] by simp
  next
    case (Some n)
    then have "q \<in> set (rglob READY_SUFFIX sp)" "node sp q = Some n" by (auto simp: rglob_ready ready_view_def split: if_splits)
    then show ?thesis using Some I(9) [of q] d by (auto intro!: map_of_is_SomeI simp: comp_def)
  qed
  then have eq: "map_of ?m = map_of (dps_accounted_ready sp)" by blast
  from sum_map_of [OF dm I(2) eq]
  show "sum_list (map (\<lambda>p. reg_size (the (node sp p))) (rglob READY_SUFFIX sp)) = sum_list (map snd (dps_accounted_ready sp))"
    by (simp add: comp_def)
  have "set ?m = set (dps_accounted_ready sp)" using dm I(2) eq by (metis (no_types) set_map_of_compr)
  moreover have "distinct ?m" "distinct (dps_accounted_ready sp)" using dm I(2) unfolding distinct_map by blast+
  ultimately show "length (rglob READY_SUFFIX sp) = length (dps_accounted_ready sp)" by (metis distinct_card length_map)
qed

end
