(* ===== verification/SpoolRecovery.thy ===== *)
theory SpoolRecovery
  imports SpoolAccounting
begin

text \<open>
  What survives: a stage that returns leaves a valid ready file, no stage touches a file that is there, a
  recovery moves only corrupt files, and when nothing fails it returns.
\<close>

section \<open>What a stage leaves on disk\<close>

lemma fsync_directory_files [simp]: "dps_files (fst (fsync_directory sp)) = dps_files sp" "dps_root (fst (fsync_directory sp)) = dps_root sp"
  by (auto simp: fsync_directory_def split: list.splits)

lemma fsync_chain_files [simp]: "dps_files (fst (fsync_chain n sp)) = dps_files sp \<and> dps_root (fst (fsync_chain n sp)) = dps_root sp"
proof (induction n arbitrary: sp)
  case (Suc n)
  obtain s r where "fsync_directory sp = (s, r)" by (cases "fsync_directory sp")
  with fsync_directory_files [of sp] Suc show ?case by (cases r) auto
qed simp

lemma fsync_path_files [simp]: "dps_files (fst (fsync_path_to_root leaf sp)) = dps_files sp"
  "dps_root (fst (fsync_path_to_root leaf sp)) = dps_root sp"
  by (simp_all add: fsync_path_to_root_def)

lemma account_files [simp]: "dps_files (account_ready path n sp) = dps_files sp" "dps_root (account_ready path n sp) = dps_root sp"
  "dps_sync_faults (account_ready path n sp) = dps_sync_faults sp"
  by (simp_all add: account_ready_def)

lemma node_cong: "dps_files sp = dps_files sp' \<Longrightarrow> node sp = node sp'"
  by (simp add: node_def fun_eq_iff)

lemma adopt_existing_files: "dps_files (fst (adopt_existing p key ready sp)) = dps_files sp \<and> dps_root (fst (adopt_existing p key ready sp)) = dps_root sp"
proof (cases "existing p key ready sp")
  case (Inr staged)
  let ?s = "account_ready ready (stg_object_bytes staged) sp"
  obtain s r where "fsync_path_to_root (butlast ready) ?s = (s, r)" by (cases "fsync_path_to_root (butlast ready) ?s")
  with fsync_path_files [of "butlast ready" ?s] Inr show ?thesis by (cases r) (auto simp: adopt_existing_def)
qed (simp add: adopt_existing_def)

lemma mkdir_spool_keeps:
  assumes "node sp q = Some n"
  shows "node (fst (mkdir_spool path sp)) q = Some n"
proof -
  have "node (fold (\<lambda>d. put_node d FDir) dirs s) q = (if q \<in> set dirs then Some FDir else node s q)" for dirs s
    by (induction dirs arbitrary: s) auto
  then show ?thesis using assms by (auto simp: mkdir_spool_def Let_def list_all_iff)
qed

lemma mkdir_spool_root [simp]: "dps_root (fst (mkdir_spool path sp)) = dps_root sp"
proof -
  have "dps_root (fold (\<lambda>d. put_node d FDir) dirs s) = dps_root s" for dirs s by (induction dirs arbitrary: s) auto
  then show ?thesis by (simp add: mkdir_spool_def Let_def)
qed

lemma link_ready_keeps:
  assumes "node sp q = Some n" "node sp ready = None"
  shows "node (fst (link_ready other p key ready sp)) q = Some n \<and> dps_root (fst (link_ready other p key ready sp)) = dps_root sp"
proof -
  define sp1 where "sp1 = (case other of None \<Rightarrow> sp | Some m \<Rightarrow> put_node ready m sp)"
  have n1: "node sp1 q = Some n" "dps_root sp1 = dps_root sp" using assms by (auto simp: sp1_def split: option.splits)
  show ?thesis
  proof (cases "copy_pack_source p")
    case (Inr data)
    let ?s = "account_ready ready (src_object_bytes p) (put_node ready (FReg data) sp1)"
    obtain s r where f: "fsync_path_to_root (butlast ready) ?s = (s, r)" by (cases "fsync_path_to_root (butlast ready) ?s")
    with fsync_path_files [of "butlast ready" ?s] have "dps_files s = dps_files (put_node ready (FReg data) sp1)" "dps_root s = dps_root sp"
      using n1 by simp_all
    then have "node s q = Some n" "dps_root s = dps_root sp" using n1 assms node_cong [of s "put_node ready (FReg data) sp1"] by auto
    moreover have "node (fst (adopt_existing p key ready sp1)) q = Some n" "dps_root (fst (adopt_existing p key ready sp1)) = dps_root sp"
      using n1 adopt_existing_files [of p key ready sp1] node_cong by metis+
    ultimately show ?thesis using Inr f by (cases r) (auto simp: link_ready_def Let_def simp flip: sp1_def)
  qed (use n1 in \<open>simp add: link_ready_def Let_def flip: sp1_def\<close>)
qed

text \<open>No stage touches a file that is there.\<close>

lemma stage_keeps:
  assumes "node sp q = Some n"
  shows "node (fst (stage other p key sp)) q = Some n" "dps_root (fst (stage other p key sp)) = dps_root sp"
proof -
  obtain sp' r where st: "stage other p key sp = (sp', r)" by (cases "stage other p key sp")
  from st have "node sp' q = Some n \<and> dps_root sp' = dps_root sp"
  proof (cases rule: stage_cases)
    case (exists ready parts)
    with adopt_existing_files [of p key ready sp] assms node_cong show ?thesis by (metis fst_conv)
  next
    case (new ready parts)
    obtain s x where m: "mkdir_spool ready sp = (s, x)" by (cases "mkdir_spool ready sp")
    have "node s q = Some n" "dps_root s = dps_root sp" "node s ready = None"
      using mkdir_spool_keeps [OF assms, of ready] mkdir_spool_root [of ready sp] mkdir_spool_other [of ready sp] new(6) m by simp_all
    with link_ready_keeps [of s q n ready other p key] new(8) m show ?thesis
      by (cases x) (auto dest: arg_cong [where f = fst])
  qed (use assms in simp)
  with st show "node (fst (stage other p key sp)) q = Some n" "dps_root (fst (stage other p key sp)) = dps_root sp" by simp_all
qed

lemma adopt_existing_Inr:
  assumes "adopt_existing p key ready sp = (sp', Inr staged)"
  obtains data where "existing p key ready sp = Inr staged" "node sp' ready = Some (FReg data)" "entry sp ready = Inr staged"
    "int (length data) = src_object_bytes p" "hexdigest data = src_checksum p" "dps_root sp' = dps_root sp"
    "stg_object_key staged = key"
proof -
  have e: "existing p key ready sp = Inr staged"
    using assms by (auto simp: adopt_existing_def st_bind_eq_Inr split: sum.splits)
  then have en: "entry sp ready = Inr staged" "stg_object_bytes staged = src_object_bytes p"
    "checksum_of sp ready = Inr (src_checksum p)" "stg_object_key staged = key"
    by (auto simp: existing_def rbind_eq_Inr split: if_splits)
  from en(1) show ?thesis
  proof (rule entry_Inr)
    fix data assume d: "node sp ready = Some (FReg data)" "stg_object_bytes staged = int (length data)"
    have "node sp' ready = Some (FReg data)" "dps_root sp' = dps_root sp"
      using adopt_existing_files [of p key ready sp] assms d(1) node_cong [of sp' sp] by simp_all
    with d en e show ?thesis by (intro that) (simp_all add: checksum_of_def open_staged_def)
  qed
qed

lemma link_ready_Inr:
  assumes "link_ready other p key (dps_root sp @ butlast parts @ [ready_name p]) sp = (sp', Inr staged)"
    "validate_pack_source p = Inr ()" "source_honest p"
  obtains data where "staged = staged_of (dps_root sp) p parts" "node sp' (dps_root sp @ butlast parts @ [ready_name p]) = Some (FReg data)"
    "int (length data) = src_object_bytes p" "hexdigest data = src_checksum p" "dps_root sp' = dps_root sp"
proof -
  define ready where "ready = dps_root sp @ butlast parts @ [ready_name p]"
  define sp1 where "sp1 = (case other of None \<Rightarrow> sp | Some m \<Rightarrow> put_node ready m sp)"
  have r1: "dps_root sp1 = dps_root sp" by (simp add: sp1_def split: option.splits)
  obtain data where c: "copy_pack_source p = Inr data"
    using assms(1) by (cases "copy_pack_source p") (simp_all add: link_ready_def Let_def)
  show ?thesis
  proof (cases "node sp1 ready = None")
    case True
    let ?s = "account_ready ready (src_object_bytes p) (put_node ready (FReg data) sp1)"
    obtain s u where s: "fsync_path_to_root (butlast ready) ?s = (s, Inr u)" "sp' = s" "entry s ready = Inr staged"
      using assms(1) c True by (auto simp: link_ready_def st_bind_eq_Inr simp flip: ready_def sp1_def)
    have "dps_files s = dps_files (put_node ready (FReg data) sp1)" "dps_root s = dps_root sp"
      using fsync_path_files [of "butlast ready" ?s] s(1) r1 by simp_all
    then have n: "node s ready = Some (FReg data)" "dps_root s = dps_root sp"
      using node_cong [of s "put_node ready (FReg data) sp1"] by simp_all
    have "entry s ready = Inr (staged_of (dps_root sp) p parts)"
      unfolding ready_def using n copy_pack_source_length [OF c] assms(2) by (intro entry_staged) (simp_all flip: ready_def)
    then have "staged = staged_of (dps_root sp) p parts" using s(3) by simp
    then show ?thesis
      using n s(2) copy_pack_source_ok [OF c assms(3)] by (intro that [of data]) (simp_all add: ready_def)
  next
    case False
    then have "adopt_existing p key ready sp1 = (sp', Inr staged)"
      using assms(1) c by (simp add: link_ready_def flip: ready_def sp1_def)
    then show ?thesis
    proof (rule adopt_existing_Inr)
      fix d assume d: "node sp' ready = Some (FReg d)" "entry sp1 ready = Inr staged" "int (length d) = src_object_bytes p"
        "hexdigest d = src_checksum p" "dps_root sp' = dps_root sp1" "existing p key ready sp1 = Inr staged"
      have "node sp' ready = node sp1 ready"
        using adopt_existing_files [of p key ready sp1] \<open>adopt_existing p key ready sp1 = (sp', Inr staged)\<close> node_cong [of sp' sp1] by simp
      then have "entry sp1 ready = Inr (staged_of (dps_root sp) p parts)"
        unfolding ready_def using d r1 assms(2) by (intro entry_staged [where data = d]) (simp_all flip: ready_def)
      with d r1 show ?thesis by (intro that) (simp_all add: ready_def)
    qed
  qed
qed

lemma stage_Inr:
  assumes "stage other p key sp = (sp', Inr staged)" "source_honest p"
  obtains parts where "validate_pack_source p = Inr ()" "validate_object_key key = Inr parts" "parts \<noteq> []"
    "last parts = src_pack_id p @ lit ''.dmi-pack''" "staged = staged_of (dps_root sp) p parts"
    "ready_verdict sp' (stg_path staged) = Inr (Valid staged)" "dps_root sp' = dps_root sp"
proof -
  have v: "ready_verdict sp' (stg_path (staged_of base p parts)) = Inr (Valid (staged_of base p parts))"
    if "validate_pack_source p = Inr ()" "node sp' (base @ butlast parts @ [ready_name p]) = Some (FReg data)"
      "int (length data) = src_object_bytes p" "hexdigest data = src_checksum p" "dps_root sp' = base" for base parts data
    using entry_staged [OF that(1,2,3,5)] that
    by (simp add: ready_verdict_def staged_of_def checksum_of_def open_staged_def)
  from assms(1) show ?thesis
  proof (cases rule: stage_cases)
    case (exists ready parts)
    from exists(7) [symmetric] show ?thesis
    proof (rule adopt_existing_Inr)
      fix data
      assume d: "node sp' ready = Some (FReg data)" "entry sp ready = Inr staged" "int (length data) = src_object_bytes p"
        "hexdigest data = src_checksum p" "dps_root sp' = dps_root sp"
      have "node sp' ready = node sp ready"
        using adopt_existing_files [of p key ready sp] exists(7) node_cong [of sp' sp] by (metis fst_conv)
      then have "staged = staged_of (dps_root sp) p parts"
        using d entry_staged [OF exists(1), of sp "dps_root sp" parts data] by (simp add: exists(5))
      with v [OF exists(1), of "dps_root sp" parts data] d exists that show ?thesis by simp
    qed
  next
    case (new ready parts)
    from new(8) [symmetric]
    obtain s u where m: "mkdir_spool ready sp = (s, Inr u)" "link_ready other p key ready s = (sp', Inr staged)"
      unfolding st_bind_eq_Inr by blast
    have r: "dps_root s = dps_root sp" using mkdir_spool_root [of ready sp] m(1) by simp
    from m(2) have "link_ready other p key (dps_root s @ butlast parts @ [ready_name p]) s = (sp', Inr staged)"
      by (simp add: new(5) r)
    then show ?thesis
    proof (rule link_ready_Inr [OF _ new(1) assms(2)])
      fix data
      assume "staged = staged_of (dps_root s) p parts" "node sp' (dps_root s @ butlast parts @ [ready_name p]) = Some (FReg data)"
        "int (length data) = src_object_bytes p" "hexdigest data = src_checksum p" "dps_root sp' = dps_root s"
      with v [OF new(1), of "dps_root sp" parts data] r new that show ?thesis by simp
    qed
  qed simp
qed

text \<open>The valid ready files that a step leaves alone.\<close>

definition keeps_valid :: "spool \<Rightarrow> spool \<Rightarrow> bool" where
  "keeps_valid sp sp' \<longleftrightarrow> dps_root sp' = dps_root sp
     \<and> (\<forall>q e. ready_verdict sp q = Inr (Valid e) \<longrightarrow> ready_verdict sp' q = Inr (Valid e))"

lemma keeps_valid_refl [simp]: "keeps_valid sp sp"
  by (simp add: keeps_valid_def)

lemma keeps_valid_trans [trans]: "keeps_valid a b \<Longrightarrow> keeps_valid b c \<Longrightarrow> keeps_valid a c"
  by (simp add: keeps_valid_def)

lemma Valid_node:
  assumes "ready_verdict sp q = Inr (Valid e)"
  obtains data where "node sp q = Some (FReg data)" "endswith READY_SUFFIX (last q)" "stg_path e = q"
    "stg_object_bytes e = int (length data)" "hexdigest data = stg_checksum e"
proof -
  have e: "entry sp q = Inr e" "checksum_of sp q = Inr (stg_checksum e)" using ready_verdict_Valid [OF assms] by simp_all
  from e(1) show ?thesis
    by (rule entry_Inr) (use that e(2) in \<open>auto simp: checksum_of_def open_staged_def\<close>)
qed

lemma keeps_validI:
  assumes "dps_root sp' = dps_root sp"
    and "\<And>q n e. node sp q = Some n \<Longrightarrow> endswith READY_SUFFIX (last q) \<Longrightarrow> ready_verdict sp q = Inr (Valid e) \<Longrightarrow> node sp' q = Some n"
  shows "keeps_valid sp sp'"
proof -
  have "ready_verdict sp' q = Inr (Valid e)" if v: "ready_verdict sp q = Inr (Valid e)" for q e
  proof (rule Valid_node [OF v])
    fix data assume d: "node sp q = Some (FReg data)" "endswith READY_SUFFIX (last q)"
    with assms(2) [OF d v] have "node sp' q = node sp q" by simp
    then show ?thesis using ready_verdict_cong [of sp' q sp] assms(1) v by simp
  qed
  with assms(1) show ?thesis by (simp add: keeps_valid_def)
qed

lemma stage_root: "dps_root (fst (stage other p key sp)) = dps_root sp"
proof -
  obtain sp' r where st: "stage other p key sp = (sp', r)" by (cases "stage other p key sp")
  then have "dps_root sp' = dps_root sp"
  proof (cases rule: stage_cases)
    case (exists ready parts)
    with adopt_existing_files [of p key ready sp] show ?thesis by (metis fst_conv)
  next
    case (new ready parts)
    obtain t x where m: "mkdir_spool ready sp = (t, x)" by (cases "mkdir_spool ready sp")
    have t: "dps_root t = dps_root sp" using mkdir_spool_root [of ready sp] m by simp
    have "dps_root (fst (link_ready other p key ready t)) = dps_root t"
    proof (cases "copy_pack_source p")
      case (Inr data)
      define t1 where "t1 = (case other of None \<Rightarrow> t | Some n \<Rightarrow> put_node ready n t)"
      have t1: "dps_root t1 = dps_root t" by (simp add: t1_def split: option.splits)
      let ?a = "account_ready ready (src_object_bytes p) (put_node ready (FReg data) t1)"
      obtain u y where f: "fsync_path_to_root (butlast ready) ?a = (u, y)" by (cases "fsync_path_to_root (butlast ready) ?a")
      have "dps_root u = dps_root t" using fsync_path_files(2) [of "butlast ready" ?a] f t1 by simp
      then show ?thesis
        using Inr f adopt_existing_files [of p key ready t1] t1
        by (cases y) (auto simp: link_ready_def Let_def simp flip: t1_def)
    qed (simp add: link_ready_def Let_def split: option.splits)
    then show ?thesis using new(8) m t by (cases x) (auto dest: arg_cong [where f = fst])
  qed simp
  with st show ?thesis by simp
qed

lemma stage_keeps_valid: "keeps_valid sp (fst (stage other p key sp))"
  by (rule keeps_validI) (simp_all add: stage_root stage_keeps)

definition stage_call :: "spool_call \<Rightarrow> bool" where
  "stage_call c = (case c of CallStage _ _ _ \<Rightarrow> True | CallRemove _ \<Rightarrow> False)"

lemma stage_calls_keep: "list_all stage_call calls \<Longrightarrow> node sp q = Some n \<Longrightarrow> node (spool_calls calls sp) q = Some n"
proof (induction calls arbitrary: sp)
  case (Cons c calls)
  then have "node (run_call c sp) q = Some n" by (cases c) (simp_all add: stage_call_def stage_keeps)
  with Cons show ?case by (simp add: spool_calls_def)
qed (simp add: spool_calls_def)

lemma stage_calls_root: "list_all stage_call calls \<Longrightarrow> dps_root (spool_calls calls sp) = dps_root sp"
proof (induction calls arbitrary: sp)
  case (Cons c calls)
  then have "dps_root (run_call c sp) = dps_root sp" by (cases c) (simp_all add: stage_call_def stage_root)
  with Cons show ?case by (simp add: spool_calls_def)
qed (simp add: spool_calls_def)

lemma stage_calls_keep_valid: "list_all stage_call calls \<Longrightarrow> keeps_valid sp (spool_calls calls sp)"
  by (rule keeps_validI) (simp_all add: stage_calls_keep stage_calls_root)

lemma quarantine_node:
  assumes inv: "spool_inv B sp" and r: "rglob_match (dps_root sp) READY_SUFFIX path"
    and q: "q \<noteq> path" "endswith READY_SUFFIX (last q)"
  shows "node (fst (quarantine path sp)) q = node sp q"
proof (cases "node sp path")
  case None
  then show ?thesis by (simp add: quarantine_def os_replace_def is_instance_def exc_ancestors_def)
next
  case (Some n)
  then obtain data where n: "node sp path = Some (FReg data)" using r spool_invD(10) [OF inv, of path] by (auto simp: ready_view_def)
  have d: "path \<noteq> quarantined_path path" "q \<noteq> quarantined_path path"
    using r q(2) quarantined_path_not_ready quarantined_not_ready by (metis, auto simp: quarantined_path_def)
  obtain sp1 res where os: "os_replace path (quarantined_path path) sp = (sp1, res)"
    by (cases "os_replace path (quarantined_path path) sp")
  show ?thesis
  proof (cases res)
    case (Inl e)
    then show ?thesis using os os_replace_Inl [of path "quarantined_path path" sp sp1 e] by (simp add: quarantine_def)
  next
    case (Inr x)
    then have "node sp1 q = node sp q" using os_replace_file(1) [OF n d(1), of sp1 x q] os q(1) d(2) by simp
    moreover have "node (fst (quarantine path sp)) = node sp1"
      using os Inr by (intro node_cong) (simp add: quarantine_def Let_def)
    ultimately show ?thesis by simp
  qed
qed

text \<open>A recovery among which other threads only stage leaves every valid ready file where it is.\<close>

lemma validate_ready_keeps:
  assumes ok: "\<forall>i. list_all (\<lambda>c. call_ok c \<and> stage_call c) (gaps i)"
  shows "spool_inv B sp \<Longrightarrow> \<forall>path \<in> set paths. rglob_match (dps_root sp) READY_SUFFIX path
    \<Longrightarrow> keeps_valid sp (fst (validate_ready gaps i paths sp))"
proof (induction paths arbitrary: i sp)
  case (Cons path paths)
  have ok': "list_all call_ok (gaps i)" "list_all stage_call (gaps i)" for i using ok by (auto simp: list_all_iff)
  define sp1 where "sp1 = spool_calls (gaps (2 * i)) sp"
  define sp2 where "sp2 = spool_calls (gaps (Suc (2 * i))) sp1"
  have k1: "keeps_valid sp sp1" unfolding sp1_def using ok'(2) by (rule stage_calls_keep_valid)
  have k2: "keeps_valid sp1 sp2" unfolding sp2_def using ok'(2) by (rule stage_calls_keep_valid)
  have i1: "spool_inv B sp1" "dps_root sp1 = dps_root sp"
    unfolding sp1_def using soundD(1,2) [OF spool_calls_sound Cons.prems(1)] ok'(1) by simp_all
  have i2: "spool_inv B sp2" "dps_root sp2 = dps_root sp"
    unfolding sp2_def using soundD(1,2) [OF spool_calls_sound i1(1)] ok'(1) i1(2) by simp_all
  have rest: "keeps_valid s (fst (validate_ready gaps k paths s))" if "spool_inv B s" "dps_root s = dps_root sp" for s k
    using Cons.IH [OF that(1)] Cons.prems(2) that(2) by simp
  have m: "rglob_match (dps_root sp2) READY_SUFFIX path" using Cons.prems(2) i2(2) by simp
  have corrupt: "keeps_valid sp1 (fst (quarantine path sp2))" if c: "ready_verdict sp1 path = Inr Corrupt"
  proof (rule keeps_validI)
    show "dps_root (fst (quarantine path sp2)) = dps_root sp1"
      using soundD(2) [OF quarantine_step(1) [OF i2(1) m] i2(1)] i1(2) i2(2) by simp
    show "node (fst (quarantine path sp2)) q = Some n"
      if "node sp1 q = Some n" "endswith READY_SUFFIX (last q)" "ready_verdict sp1 q = Inr (Valid e)" for q n e
    proof -
      have "q \<noteq> path" using that(3) c by auto
      then show ?thesis
        using quarantine_node [OF i2(1) m _ that(2)] stage_calls_keep [OF ok'(2) that(1)] by (simp add: sp2_def)
    qed
  qed
  have bad: "keeps_valid sp1 (fst (st_bind (quarantine path sp2) (\<lambda>s _. validate_ready gaps (Suc i) paths s)))"
    if "ready_verdict sp1 path = Inr Corrupt"
  proof -
    obtain s x where s: "quarantine path sp2 = (s, x)" by (cases "quarantine path sp2")
    have "spool_inv B s" "dps_root s = dps_root sp"
      using soundD(1,2) [OF quarantine_step(1) [OF i2(1) m] i2(1)] i2(2) s by simp_all
    then show ?thesis using corrupt [OF that] rest s keeps_valid_trans by (cases x) auto
  qed
  have good: "keeps_valid sp1 (fst (st_bind (validate_ready gaps (Suc i) paths sp1) (\<lambda>s es. (s, Inr (e # es)))))" for e
    using rest [OF i1, of "Suc i"] by (cases "validate_ready gaps (Suc i) paths sp1"; cases "snd (validate_ready gaps (Suc i) paths sp1)") auto
  have "keeps_valid sp1 (fst (validate_ready gaps i (path # paths) sp))"
    using rest [OF i1, of "Suc i"] bad good by (simp add: Let_def flip: sp1_def sp2_def split: sum.splits verdict.splits)
  with k1 show ?case by (rule keeps_valid_trans)
qed simp

lemma begin_recovery_keeps: "keeps_valid sp (fst (begin_recovery sp))"
proof (rule keeps_validI)
  show "dps_root (fst (begin_recovery sp)) = dps_root sp" using quiet_begin_recovery [of sp] by (simp add: quiet_def)
  fix q n assume q: "node sp q = Some n" "endswith READY_SUFFIX (last q)"
  let ?stale = "rglob OPEN_SUFFIX sp"
  have un: "node (fst (unlink_stale paths s)) q = node s q" if "\<forall>path \<in> set paths. endswith OPEN_SUFFIX (last path)" for paths s
    using that q(2) open_not_ready by (induction paths arbitrary: s) auto
  have fs: "dps_files (fst (fsync_each k s)) = dps_files s" for k s
  proof (induction k arbitrary: s)
    case (Suc k)
    obtain t r where "fsync_directory s = (t, r)" by (cases "fsync_directory s")
    with fsync_directory_files [of s] Suc show ?case by (cases r) auto
  qed simp
  have st: "\<forall>path \<in> set ?stale. endswith OPEN_SUFFIX (last path)" by (simp add: rglob_def rglob_match_def)
  obtain s r where u: "unlink_stale ?stale sp = (s, r)" by (cases "unlink_stale ?stale sp")
  obtain t r' where f: "fsync_each (length (remdups (map butlast ?stale))) s = (t, r')"
    by (cases "fsync_each (length (remdups (map butlast ?stale))) s")
  have "fst (begin_recovery sp) \<in> {s, t}"
    using u f by (cases r; cases r') (simp_all add: begin_recovery_def Let_def)
  moreover have "node t = node s" using fs [of "length (remdups (map butlast ?stale))" s] f by (intro node_cong) simp
  moreover have "node s q = Some n" using un [OF st, of sp] u q(1) by simp
  ultimately show "node (fst (begin_recovery sp)) q = Some n" by auto
qed

lemma recover_keeps:
  assumes ok: "\<forall>k i. list_all (\<lambda>c. call_ok c \<and> stage_call c) (gaps k i)"
  shows "spool_inv B sp \<Longrightarrow> keeps_valid sp (fst (recover_passes gaps n k sp))"
proof (induction n arbitrary: k sp)
  case 0
  obtain sp1 r where b: "begin_recovery sp = (sp1, r)" by (cases "begin_recovery sp")
  have k1: "keeps_valid sp sp1" using begin_recovery_keeps [of sp] b by simp
  have i1: "spool_inv B sp1" using quiet_inv [OF quiet_begin_recovery "0.prems"] b by simp
  show ?case
  proof (cases r)
    case (Inr paths)
    have "\<forall>path \<in> set paths. rglob_match (dps_root sp1) READY_SUFFIX path"
      using begin_recovery_paths [of sp sp1 paths B] "0.prems" b Inr dom_ready_match [of _ sp1] by simp
    from validate_ready_keeps [OF _ i1 this, of "\<lambda>_. []" 0]
    have "keeps_valid sp1 (fst (validate_ready (\<lambda>_. []) 0 paths sp1))" by simp
    then have k2: "keeps_valid sp (fst (validate_ready (\<lambda>_. []) 0 paths sp1))" by (rule keeps_valid_trans [OF k1])
    have "keeps_valid s (commit_recovery es s)" for s es by (simp add: keeps_valid_def)
    then have "keeps_valid sp (commit_recovery es (fst (validate_ready (\<lambda>_. []) 0 paths sp1)))" for es
      by (rule keeps_valid_trans [OF k2])
    then show ?thesis using b Inr k2
      by (cases "validate_ready (\<lambda>_. []) 0 paths sp1"; cases "snd (validate_ready (\<lambda>_. []) 0 paths sp1)") simp_all
  qed (use b k1 in simp)
next
  case (Suc n)
  have ok': "list_all call_ok (gaps k i)" "list_all stage_call (gaps k i)" for k i using ok by (auto simp: list_all_iff)
  obtain sp1 r where b: "begin_recovery sp = (sp1, r)" by (cases "begin_recovery sp")
  have k1: "keeps_valid sp sp1" using begin_recovery_keeps [of sp] b by simp
  have i1: "spool_inv B sp1" using quiet_inv [OF quiet_begin_recovery Suc.prems] b by simp
  show ?case
  proof (cases r)
    case (Inr paths)
    have m: "\<forall>path \<in> set paths. rglob_match (dps_root sp1) READY_SUFFIX path"
      using begin_recovery_paths [of sp sp1 paths B] Suc.prems b Inr dom_ready_match [of _ sp1] by simp
    obtain sp2 r2 where v: "validate_ready (gaps k) 0 paths sp1 = (sp2, r2)" by (cases "validate_ready (gaps k) 0 paths sp1")
    have k2: "keeps_valid sp1 sp2" using validate_ready_keeps [OF _ i1 m, of "gaps k" 0] ok v by simp
    have i2: "spool_inv B sp2"
      using soundD(1) [OF validate_ready_sound [of "gaps k", OF _ i1 m] i1, of 0] ok'(1) v by simp
    define sp3 where "sp3 = spool_calls (gaps k (2 * length paths)) sp2"
    have k3: "keeps_valid sp2 sp3" unfolding sp3_def using ok'(2) by (rule stage_calls_keep_valid)
    have i3: "spool_inv B sp3" unfolding sp3_def using soundD(1) [OF spool_calls_sound i2] ok'(1) by blast
    have k13: "keeps_valid sp sp3" using k1 k2 k3 keeps_valid_trans by blast
    have "keeps_valid sp3 (commit_recovery es sp3)" for es by (simp add: keeps_valid_def)
    then have "keeps_valid sp (commit_recovery es sp3)" for es by (rule keeps_valid_trans [OF k13])
    moreover have "keeps_valid sp (fst (recover_passes gaps n (Suc k) sp3))"
      by (rule keeps_valid_trans [OF k13 Suc.IH [OF i3]])
    moreover have "keeps_valid sp sp2" using k1 k2 by (rule keeps_valid_trans)
    ultimately show ?thesis using b Inr v by (cases r2) (simp_all add: Let_def flip: sp3_def)
  qed (use b k1 in simp)
qed

text \<open>When a recovery returns: no fsync fails, and no directory has the name of a temporary or quarantined file.\<close>

definition calm :: "spool \<Rightarrow> bool" where
  "calm sp \<longleftrightarrow> dps_sync_faults sp = []
     \<and> (\<forall>q. node sp q = Some FDir \<longrightarrow> \<not> endswith OPEN_SUFFIX (last q) \<and> \<not> endswith (lit ''.quarantined'') (last q))"

lemma fsync_directory_calm [simp]: "calm sp \<Longrightarrow> fsync_directory sp = (sp, Inr ())"
  by (simp add: calm_def fsync_directory_def)

lemma fsync_each_calm [simp]: "calm sp \<Longrightarrow> fsync_each n sp = (sp, Inr ())"
  by (induction n) simp_all

lemma calm_unlink [simp]: "calm sp \<Longrightarrow> calm (unlink path sp)"
  by (auto simp: calm_def)

lemma unlink_stale_calm:
  "calm sp \<Longrightarrow> \<forall>path \<in> set paths. endswith OPEN_SUFFIX (last path) \<Longrightarrow> \<exists>s. unlink_stale paths sp = (s, Inr ()) \<and> calm s"
proof (induction paths arbitrary: sp)
  case (Cons path paths)
  have "node sp path \<noteq> Some FDir" using Cons.prems by (auto simp: calm_def)
  with Cons show ?case by simp
qed simp

lemma begin_recovery_calm: "calm sp \<Longrightarrow> \<exists>s paths. begin_recovery sp = (s, Inr paths) \<and> calm s"
proof -
  assume c: "calm sp"
  obtain s where "unlink_stale (rglob OPEN_SUFFIX sp) sp = (s, Inr ())" "calm s"
    using unlink_stale_calm [OF c, of "rglob OPEN_SUFFIX sp"] by (auto simp: rglob_def rglob_match_def)
  then show ?thesis by (simp add: begin_recovery_def Let_def)
qed

lemma calm_unaccount [simp]: "calm (unaccount_ready path sp) = calm sp"
  by (auto simp: calm_def node_def unaccount_ready_def split: option.splits)

lemma quarantine_calm:
  assumes c: "calm sp" and n: "node sp path = Some (FReg data)" and e: "endswith READY_SUFFIX (last path)"
  shows "\<exists>s. quarantine path sp = (s, Inr ()) \<and> calm s"
proof -
  have nd: "node sp (quarantined_path path) \<noteq> Some FDir"
    using c endswith_append [of "lit ''.quarantined''"] by (auto simp: calm_def quarantined_path_def)
  have d: "path \<noteq> quarantined_path path"
    using e quarantined_not_ready by (metis last_snoc quarantined_path_def)
  obtain sp1 where os: "os_replace path (quarantined_path path) sp = (sp1, Inr ())"
    using n nd that by (cases "node sp (quarantined_path path)") (simp_all add: os_replace_def)
  note f = os_replace_file [OF n d os]
  have "calm sp1" using c by (auto simp: calm_def f(1)) (simp add: f(2))
  moreover have "calm (s\<lparr>dps_mutation_generation := g\<rparr>) = calm s" for s g by (simp add: calm_def node_def)
  ultimately show ?thesis using os by (simp add: quarantine_def Let_def)
qed

lemma validate_ready_calm:
  "calm sp \<Longrightarrow> spool_inv B sp \<Longrightarrow> distinct paths \<Longrightarrow> set paths \<subseteq> dom (ready_view sp)
   \<Longrightarrow> \<exists>s es. validate_ready (\<lambda>_. []) i paths sp = (s, Inr es) \<and> calm s"
proof (induction paths arbitrary: i sp)
  case (Cons path paths)
  then have p: "path \<in> dom (ready_view sp)" by simp
  from dom_file [OF Cons.prems(2) p] obtain data where d: "ready_view sp path = Some (FReg data)" "node sp path = Some (FReg data)" .
  have m: "rglob_match (dps_root sp) READY_SUFFIX path" using dom_ready_match [OF p] .
  from d(2) show ?case
  proof (rule ready_verdict_file)
    fix e assume "ready_verdict sp path = Inr (Valid e)"
    with Cons.IH [of sp "Suc i"] Cons.prems show ?thesis by auto
  next
    assume c: "ready_verdict sp path = Inr Corrupt"
    obtain s where s: "quarantine path sp = (s, Inr ())" "calm s"
      using quarantine_calm [OF Cons.prems(1) d(2)] m by (auto simp: rglob_match_def)
    have "ready_view s = (ready_view sp)(path := None)" using quarantine_step(2) [OF Cons.prems(2) m s(1) d(1)] by simp
    then have "set paths \<subseteq> dom (ready_view s)" using Cons.prems(3,4) by auto
    moreover have "spool_inv B s" using soundD(1) [OF quarantine_step(1) [OF Cons.prems(2) m] Cons.prems(2)] s(1) by simp
    ultimately obtain t es where "validate_ready (\<lambda>_. []) (Suc i) paths s = (t, Inr es)" "calm t"
      using Cons.IH [OF s(2)] Cons.prems(3) by fastforce
    then show ?thesis using s(1) c by simp
  qed
qed simp

lemma recover_calm: "calm sp \<Longrightarrow> spool_inv B sp \<Longrightarrow> \<exists>s es. recover_passes (\<lambda>_ _. []) n k sp = (s, Inr es)"
proof (induction n arbitrary: k sp)
  case 0
  obtain s paths where b: "begin_recovery sp = (s, Inr paths)" "calm s" using begin_recovery_calm [OF "0.prems"(1)] by blast
  have "spool_inv B s" using quiet_inv [OF quiet_begin_recovery "0.prems"(2)] b by simp
  then obtain t es where "validate_ready (\<lambda>_. []) 0 paths s = (t, Inr es)"
    using validate_ready_calm [OF b(2)] begin_recovery_paths [OF b(1) "0.prems"(2)] by blast
  with b show ?case by simp
next
  case (Suc n)
  obtain s paths where b: "begin_recovery sp = (s, Inr paths)" "calm s" using begin_recovery_calm [OF Suc.prems(1)] by blast
  have i: "spool_inv B s" using quiet_inv [OF quiet_begin_recovery Suc.prems(2)] b by simp
  have p: "set paths = dom (ready_view s)" "distinct paths" using begin_recovery_paths [OF b(1) Suc.prems(2)] by simp_all
  obtain t es where t: "validate_ready (\<lambda>_. []) 0 paths s = (t, Inr es)" "calm t"
    using validate_ready_calm [OF b(2) i p(2), of 0] p(1) by auto
  have "sound B s t"
    using validate_ready_sound [of "\<lambda>_. []" B s paths 0] i p(1) dom_ready_match [of _ s] t(1) by auto
  then have "spool_inv B t" using i soundD(1) by blast
  with Suc.IH [OF t(2)] b t(1) show ?case by (simp add: Let_def)
qed

end
