(* ===== verification/SpoolRuns.thy ===== *)
theory SpoolRuns
  imports SpoolRecovery
begin

text \<open>
  Properties of the durable spool: the byte limit, recovery after a restart, the sink the pipeline uses,
  and a session identifier that blocks recovery.
\<close>

section \<open>The durable sink\<close>

definition durable_sink_persist :: "(spool \<Rightarrow> ready_pack \<Rightarrow> fnode option) \<Rightarrow> spool sink" where
  "durable_sink_persist race sp ready =
     (case durable_persist (race sp ready) sp ready of (sp', res) \<Rightarrow> (sp', rbind res (\<lambda>_. Inr ())))"

text \<open>A pack with a valid ready file: its identity, size and SHA-256.\<close>

definition spooled :: "spool \<Rightarrow> sealed_pack \<Rightarrow> bool" where
  "spooled sp pack \<longleftrightarrow> (\<exists>e. ready_verdict sp (stg_path e) = Inr (Valid e) \<and> stg_pack_id e = sp_pack_id pack
     \<and> stg_record_count e = sp_record_count pack \<and> stg_object_bytes e = object_bytes pack
     \<and> stg_checksum e = sp_checksum pack)"

lemma durable_persist_Inr:
  assumes "durable_persist other sp ready = (sp', Inr staged)" "sp_checksum (rp_pack ready) = hexdigest (sp_data (rp_pack ready))"
  shows "ready_verdict sp' (stg_path staged) = Inr (Valid staged)" "stg_pack_id staged = sp_pack_id (rp_pack ready)"
    "stg_record_count staged = sp_record_count (rp_pack ready)" "stg_object_bytes staged = object_bytes (rp_pack ready)"
    "stg_checksum staged = sp_checksum (rp_pack ready)" "dps_root sp' = dps_root sp"
proof -
  obtain key where st: "stage other (sealed_source (rp_pack ready)) key sp = (sp', Inr staged)"
    using assms(1) by (auto simp: durable_persist_def split: sum.splits)
  have "ready_verdict sp' (stg_path staged) = Inr (Valid staged) \<and> stg_pack_id staged = sp_pack_id (rp_pack ready)
    \<and> stg_record_count staged = sp_record_count (rp_pack ready) \<and> stg_object_bytes staged = object_bytes (rp_pack ready)
    \<and> stg_checksum staged = sp_checksum (rp_pack ready) \<and> dps_root sp' = dps_root sp"
    using st sealed_source_honest [OF assms(2)] by (rule stage_Inr) (simp add: staged_of_def sealed_source_def)
  then show "ready_verdict sp' (stg_path staged) = Inr (Valid staged)" "stg_pack_id staged = sp_pack_id (rp_pack ready)"
    "stg_record_count staged = sp_record_count (rp_pack ready)" "stg_object_bytes staged = object_bytes (rp_pack ready)"
    "stg_checksum staged = sp_checksum (rp_pack ready)" "dps_root sp' = dps_root sp" by blast+
qed

lemma durable_persist_keeps: "keeps_valid sp (fst (durable_persist other sp ready))"
  by (simp add: durable_persist_def stage_keeps_valid split: sum.splits)

interpretation durable: pack_sink "durable_sink_persist race" spooled for race
proof unfold_locales
  show "durable_sink_persist race s ready = (s', Inr u) \<Longrightarrow> reads_back rs ready \<Longrightarrow> spooled s' (rp_pack ready)"
    for s ready s' u rs
    using durable_persist_Inr [of "race s ready" s ready s']
    by (auto simp: durable_sink_persist_def rbind_eq_Inr spooled_def reads_back_def pack_of_def split: prod.splits)
  show "spooled s sp \<Longrightarrow> spooled (fst (durable_sink_persist race s ready)) sp" for s sp ready
    using durable_persist_keeps [of s "race s ready" ready]
    by (cases "durable_persist (race s ready) s ready") (auto simp: durable_sink_persist_def spooled_def keeps_valid_def)
qed

section \<open>A concrete spool\<close>

lemma fsync_path_none: "dps_sync_faults sp = [] \<Longrightarrow> is_relative_to (dps_root sp) leaf \<Longrightarrow> fsync_path_to_root leaf sp = (sp, Inr ())"
proof -
  assume "dps_sync_faults sp = []" "is_relative_to (dps_root sp) leaf"
  moreover have "dps_sync_faults sp = [] \<Longrightarrow> fsync_chain n sp = (sp, Inr ())" for n
    by (induction n) (simp_all add: fsync_directory_def)
  ultimately show ?thesis by (simp add: fsync_path_to_root_def)
qed

lemma stage_fresh:
  assumes "validate_pack_source p = Inr ()" "validate_object_key key = Inr parts" "parts \<noteq> []"
    "last parts = src_pack_id p @ lit ''.dmi-pack''" "copy_pack_source p = Inr data"
    "dps_files sp = []" "dps_sync_faults sp = []" "dps_bytes sp + src_object_bytes p \<le> dps_max_bytes sp"
  shows "\<exists>sp'. stage None p key sp = (sp', Inr (staged_of (dps_root sp) p parts)) \<and> dps_root sp' = dps_root sp
    \<and> dps_sync_faults sp' = []
    \<and> (\<forall>d. node sp' d = (if d = stg_path (staged_of (dps_root sp) p parts) then Some (FReg data)
         else if d \<in> (\<lambda>n. take n (stg_path (staged_of (dps_root sp) p parts))) ` {length (dps_root sp)<..<length (dps_root sp) + length parts}
         then Some FDir else None))"
proof -
  define ready where "ready = dps_root sp @ butlast parts @ [ready_name p]"
  let ?dirs = "map (\<lambda>n. take n ready) [Suc (length (dps_root sp))..<length ready]"
  define sp1 where "sp1 = fold (\<lambda>d. put_node d FDir) ?dirs sp"
  have fold: "node (fold (\<lambda>d. put_node d FDir) dirs s) q = (if q \<in> set dirs then Some FDir else node s q)
    \<and> dps_root (fold (\<lambda>d. put_node d FDir) dirs s) = dps_root s
    \<and> dps_sync_faults (fold (\<lambda>d. put_node d FDir) dirs s) = dps_sync_faults s" for dirs s q
    by (induction dirs arbitrary: s) auto
  have n0: "node sp q = None" for q using assms(6) by (simp add: node_def)
  have m: "mkdir_spool ready sp = (sp1, Inr ())" by (simp add: mkdir_spool_def Let_def sp1_def n0 list_all_iff)
  have r: "node sp1 ready = None" using mkdir_spool_other [of ready sp] m n0 by simp
  let ?s = "account_ready ready (src_object_bytes p) (put_node ready (FReg data) sp1)"
  have f: "fsync_path_to_root (butlast ready) ?s = (?s, Inr ())"
    using fold [of ?dirs sp] assms(7) by (intro fsync_path_none) (simp_all add: sp1_def ready_def butlast_append)
  have ns: "node ?s q = node (put_node ready (FReg data) sp1) q" for q
    using node_cong [of ?s "put_node ready (FReg data) sp1"] by simp
  have root: "dps_root ?s = dps_root sp" "dps_sync_faults ?s = []" using fold [of ?dirs sp] assms(7) by (simp_all add: sp1_def)
  have e: "entry ?s ready = Inr (staged_of (dps_root sp) p parts)"
    unfolding ready_def using ns [of ready] copy_pack_source_length [OF assms(5)] root
    by (intro entry_staged [OF assms(1)]) (simp_all add: ready_def)
  have "stage None p key sp = (?s, Inr (staged_of (dps_root sp) p parts))"
    using assms r f e m n0 ready_path_Inr [of "dps_root sp" parts p ready]
    by (simp add: stage_def link_ready_def glob_intents_def ready_def)
  moreover have "length ready = length (dps_root sp) + length parts" using assms(3) by (simp add: ready_def)
  moreover have "node ?s d = (if d = ready then Some (FReg data)
      else if d \<in> (\<lambda>n. take n ready) ` {length (dps_root sp)<..<length ready} then Some FDir else None)" for d
    unfolding ns using fold [of ?dirs sp d, folded sp1_def] by (simp add: n0 atLeastSucLessThan_greaterThanLessThan)
  ultimately show ?thesis using root by (simp add: staged_of_def flip: ready_def)
qed

definition demo_spool :: spool where
  "demo_spool = \<lparr>dps_root = [lit ''spool''], dps_files = [], dps_max_bytes = 5000, dps_bytes = 0, dps_entries = 0,
     dps_peak_bytes = 0, dps_accounted_ready = [], dps_mutation_generation = 0, dps_sync_faults = []\<rparr>"

lemma demo_spool: "DurablePackSpool [lit ''spool''] [] (\<lambda>_. 0) [] 5000 = Inr demo_spool"
  by (simp add: DurablePackSpool_def demo_spool_def)

definition demo_ready_of :: "capture_metadata \<Rightarrow> ready_pack" where
  "demo_ready_of m = demo_ready\<lparr>rp_first_metadata := m\<rparr>"

lemma demo_ready_of: "rp_pack (demo_ready_of m) = rp_pack demo_ready" "rp_first_metadata (demo_ready_of m) = m"
  by (simp_all add: demo_ready_of_def)

text \<open>Staging the concrete pack under the key of any metadata, in an empty spool.\<close>

lemma demo_durable_persist:
  assumes "metadata_ok m"
  obtains sp' key tenant session date rank parts where "durable_persist None demo_spool (demo_ready_of m) =
      (sp', Inr (staged_of [lit ''spool''] (sealed_source (rp_pack demo_ready)) parts))"
    "key_component (md_session_id m) = Inr session" "object_key_for (demo_ready_of m) = Inr key"
    "parts = [lit ''v1'', lit ''tenant='' @ tenant, lit ''date='' @ date, lit ''session='' @ session, lit ''rank='' @ rank,
       sp_pack_id (rp_pack demo_ready) @ lit ''.dmi-pack'']"
    "validate_object_key key = Inr parts"
    "dps_root sp' = [lit ''spool'']" "dps_sync_faults sp' = []"
    "\<forall>d. node sp' d = (if d = stg_path (staged_of [lit ''spool''] (sealed_source (rp_pack demo_ready)) parts)
         then Some (FReg (sp_data (rp_pack demo_ready)))
         else if d \<in> (\<lambda>n. take n (stg_path (staged_of [lit ''spool''] (sealed_source (rp_pack demo_ready)) parts))) ` {1<..<7}
         then Some FDir else None)"
proof -
  have "metadata_ok (rp_first_metadata (demo_ready_of m))" using assms by (simp add: demo_ready_of)
  moreover have "sp_pack_id (rp_pack (demo_ready_of m)) = uuid_str 5" using demo_ready(3) by (simp add: demo_ready_of)
  ultimately show ?thesis
  proof (rule object_key_for_parts)
    fix key tenant session parts date rank
    assume k: "object_key_for (demo_ready_of m) = Inr key" "validate_object_key key = Inr parts"
      "key_component (md_session_id (rp_first_metadata (demo_ready_of m))) = Inr session"
      "parts = [lit ''v1'', lit ''tenant='' @ tenant, lit ''date='' @ date, lit ''session='' @ session, lit ''rank='' @ rank,
       uuid_str 5 @ lit ''.dmi-pack'']"
    let ?p = "sealed_source (rp_pack demo_ready)"
    have b: "object_bytes (rp_pack demo_ready) \<le> 4096" using demo_ready(2) by (auto simp: pack_of_def)
    have r0: "length (dps_root demo_spool) + length parts = 7" "length (dps_root demo_spool) = 1" "dps_root demo_spool = [lit ''spool'']"
      by (simp_all add: demo_spool_def k(4))
    have "last parts = src_pack_id ?p @ lit ''.dmi-pack''" "parts \<noteq> []" "dps_files demo_spool = []" "dps_sync_faults demo_spool = []"
      "dps_bytes demo_spool + src_object_bytes ?p \<le> dps_max_bytes demo_spool"
      using demo_ready(3) b by (simp_all add: k(4) demo_spool_def sealed_source_def)
    note s = stage_fresh [OF demo_sealed_source(1) k(2) this(2,1) demo_sealed_source(2) this(3-5), unfolded r0(1), unfolded r0(2), unfolded r0(3)]
    from s obtain sp' where s: "stage None ?p key demo_spool = (sp', Inr (staged_of [lit ''spool''] ?p parts))"
      "dps_root sp' = [lit ''spool'']" "dps_sync_faults sp' = []"
      "\<forall>d. node sp' d = (if d = stg_path (staged_of [lit ''spool''] ?p parts) then Some (FReg (sp_data (rp_pack demo_ready)))
         else if d \<in> (\<lambda>n. take n (stg_path (staged_of [lit ''spool''] ?p parts))) ` {1<..<7} then Some FDir else None)"
      by (elim exE conjE)
    then show ?thesis
      using k demo_ready(3)
      by (intro that [where sp' = sp' and key = key and parts = parts and session = session])
        (simp_all add: durable_persist_def demo_ready_of)
  qed
qed

section \<open>The byte limit\<close>


definition demo_key :: pystr where
  "demo_key = lit ''a/'' @ uuid_str 5 @ lit ''.dmi-pack''"

lemma demo_key: "validate_object_key demo_key = Inr [lit ''a'', uuid_str 5 @ lit ''.dmi-pack'']"
  "posix_parts demo_key = [lit ''a'', uuid_str 5 @ lit ''.dmi-pack'']"
proof -
  have k: "list_all key_char (uuid_str 5 @ lit ''.dmi-pack'')" "is_alnum (hd (uuid_str 5))"
    using uuid_key [of 5] by (simp_all add: lit_def key_char_def is_alnum_def)
  have u: "uuid_str 5 \<noteq> []" using length_uuid_str [of 5] by fastforce
  have n: "47 \<notin> set (uuid_str 5 @ lit ''.dmi-pack'')" "47 \<notin> set (lit ''a'')" "92 \<notin> set (uuid_str 5 @ lit ''.dmi-pack'')"
    using k key_char_not_sep by (auto simp: list_all_iff lit_def)
  have e: "lit ''a/'' = lit ''a'' @ [47]" by (simp add: lit_def)
  then have "split 47 demo_key = [lit ''a'', uuid_str 5 @ lit ''.dmi-pack'']"
    using split_sep [of 47 "lit ''a''" "uuid_str 5 @ lit ''.dmi-pack''"] split_none n by (simp add: demo_key_def)
  moreover have pk: "key_pattern (uuid_str 5 @ lit ''.dmi-pack'')" using k u by (cases "uuid_str 5") (auto simp: key_pattern_iff)
  ultimately show p: "posix_parts demo_key = [lit ''a'', uuid_str 5 @ lit ''.dmi-pack'']"
    using u by (auto simp: posix_parts_def lit_def)
  have "92 \<notin> set demo_key" "demo_key \<noteq> []" "hd demo_key \<noteq> 47" using n by (auto simp: demo_key_def e lit_def)
  moreover have "key_pattern (lit ''a'')" by (simp add: key_pattern_def is_alnum_def lit_def)
  ultimately show "validate_object_key demo_key = Inr [lit ''a'', uuid_str 5 @ lit ''.dmi-pack'']"
    using pk u by (auto simp: validate_object_key_def p lit_def)
qed

definition demo_ops :: "spool_op list" where
  "demo_ops = [OpCall (CallStage None demo_source demo_key),
     OpRecover (\<lambda>k i. if k = 0 then [CallStage None demo_source demo_key] else [])]"

lemma demo_plain_key: "plain_key demo_key"
  using pack_name_not_ready by (simp add: plain_key_def demo_key) (simp add: endswith_def READY_SUFFIX_def lit_def)

lemma demo_ops_ok: "list_all op_ok demo_ops"
  by (simp add: demo_ops_def op_ok_def call_ok_def demo_plain_key)


section \<open>Recovery after a restart\<close>

lemma recover_commits: "recover_passes gaps n k sp = (sp', Inr es) \<Longrightarrow> \<exists>s. sp' = commit_recovery es s"
proof (induction n arbitrary: k sp)
  case (Suc n)
  then show ?case by (auto simp: st_bind_eq_Inr Let_def split: if_splits)
qed (auto simp: st_bind_eq_Inr)


lemma inv_plain_tree:
  assumes "spool_inv B sp"
  shows "plain_tree (dps_root sp) (dps_files sp)"
proof -
  have "\<exists>data. snd f = FReg data" if "f \<in> set (dps_files sp)" "rglob_match (dps_root sp) READY_SUFFIX (fst f)" for f
  proof -
    have "node sp (fst f) = Some (snd f)" using that(1) spool_invD(1) [OF assms] by (simp add: node_def)
    then have "ready_view sp (fst f) = Some (snd f)" using that(2) by (simp add: ready_view_def)
    then show ?thesis by (rule spool_invD(10) [OF assms])
  qed
  then show ?thesis using spool_invD(1) [OF assms] by (fastforce simp: plain_tree_def list_all_iff)
qed

lemma demo_stage:
  obtains sp' new where "stage None demo_source demo_key demo_spool = (sp', Inr (staged_of [lit ''spool''] demo_source [lit ''a'', uuid_str 5 @ lit ''.dmi-pack'']))"
    "DurablePackSpool (dps_root sp') (dps_files sp') (\<lambda>_. 0) [] 5000 = Inr new"
    "plain_tree (dps_root sp') (dps_files sp')" "calm new" "dps_root sp' = [lit ''spool'']" "spool_inv 5000 sp'"
proof -
  let ?parts = "[lit ''a'', uuid_str 5 @ lit ''.dmi-pack'']"
  let ?st = "staged_of [lit ''spool''] demo_source ?parts"
  have inv: "spool_inv 5000 demo_spool"
    using new_spool_inv(1) [OF demo_spool] by (simp add: plain_tree_def) (simp add: demo_spool_def)
  have r: "dps_root demo_spool = [lit ''spool'']" by (simp add: demo_spool_def)
  obtain sp' where s: "stage None demo_source demo_key demo_spool = (sp', Inr ?st)" "dps_root sp' = [lit ''spool'']"
    "\<forall>d. node sp' d = (if d = stg_path ?st then Some (FReg [1, 2])
       else if d \<in> (\<lambda>n. take n (stg_path ?st)) ` {length [lit ''spool'']<..<length [lit ''spool''] + length ?parts} then Some FDir else None)"
    using stage_fresh [OF demo_source_ok(1) demo_key(1) _ _ demo_source_ok(2), of demo_spool, unfolded r]
    by (auto simp: demo_source_def demo_spool_def)
  have inv': "spool_inv 5000 sp'" using soundD(1) [OF stage_sound [OF demo_plain_key] inv, of demo_source] s(1) by simp
  obtain new where n: "DurablePackSpool (dps_root sp') (dps_files sp') (\<lambda>_. 0) [] 5000 = Inr new"
    by (simp add: DurablePackSpool_def Let_def)
  note nsi = new_spool_inv(3,4) [OF n inv_plain_tree [OF inv']]
  have nn: "node new = node sp'" "dps_sync_faults new = []" using node_cong [of new sp'] nsi by simp_all
  have "{length [lit ''spool'']<..<length [lit ''spool''] + length ?parts} = {2}" by auto
  then have "calm new" using s(3) nn by (auto simp: calm_def staged_of_def endswith_def OPEN_SUFFIX_def lit_def split: if_splits)
  with s n inv' inv_plain_tree [OF inv'] that show ?thesis by blast
qed


section \<open>A session identifier that blocks recovery\<close>

lemma unlink_stale_dir:
  "dir \<in> set paths \<Longrightarrow> node sp dir = Some FDir \<Longrightarrow> snd (unlink_stale paths sp) = Inl (Error OSError ''is a directory'')"
proof (induction paths arbitrary: sp)
  case (Cons path paths)
  then show ?case by (cases "dir = path"; cases "node sp path = Some FDir") auto
qed simp

lemma open_directory_fails:
  assumes "node sp dir = Some FDir" "rglob_match (dps_root sp) OPEN_SUFFIX dir"
  shows "snd (recover gaps sp) = Inl (Error OSError ''is a directory'')"
proof -
  have "dir \<in> set (rglob OPEN_SUFFIX sp)"
    using assms map_of_eq_None_iff [of "dps_files sp" dir] by (simp add: rglob_def node_def)
  then have "snd (unlink_stale (rglob OPEN_SUFFIX sp) sp) = Inl (Error OSError ''is a directory'')"
    using assms(1) by (rule unlink_stale_dir)
  then have "begin_recovery sp = (fst (unlink_stale (rglob OPEN_SUFFIX sp) sp), Inl (Error OSError ''is a directory''))"
    unfolding begin_recovery_def Let_def by (intro st_bind_Inl) simp_all
  then show ?thesis by (simp add: recover_def RECOVER_ATTEMPTS_def eval_nat_numeral)
qed

lemma mkdir_makes:
  assumes "mkdir_spool path sp = (s, Inr u)" "length (dps_root sp) < n" "n < length path"
  shows "node s (take n path) = Some FDir"
proof -
  have "node (fold (\<lambda>d. put_node d FDir) dirs t) q = (if q \<in> set dirs then Some FDir else node t q)" for dirs t q
    by (induction dirs arbitrary: t) auto
  moreover have "take n path \<in> set (map (\<lambda>n. take n path) [Suc (length (dps_root sp))..<length path])" using assms(2,3) by simp
  ultimately show ?thesis using assms(1) by (auto simp: mkdir_spool_def Let_def split: if_splits)
qed

lemma stage_makes_dirs:
  assumes "stage other p key sp = (sp', Inr staged)" "source_honest p" "node sp (stg_path staged) = None"
    "length (dps_root sp) < n" "n < length (stg_path staged)"
  shows "node sp' (take n (stg_path staged)) = Some FDir"
proof -
  from assms(1,2) obtain parts where v: "validate_object_key key = Inr parts" "staged = staged_of (dps_root sp) p parts"
    by (rule stage_Inr)
  from assms(1) show ?thesis
  proof (cases rule: stage_cases)
    case (exists ready parts')
    with v assms(3) show ?thesis by (simp add: staged_of_def)
  next
    case (new ready parts')
    then have ready: "ready = stg_path staged" using v by (simp add: staged_of_def)
    from new(8) [symmetric]
    obtain s u where m: "mkdir_spool ready sp = (s, Inr u)" "link_ready other p key ready s = (sp', Inr staged)"
      unfolding st_bind_eq_Inr by blast
    have "node s ready = None" using mkdir_spool_other [of ready sp] m(1) new(6) by simp
    with link_ready_keeps [OF mkdir_makes [OF m(1) assms(4)]] m(2) assms(5) ready show ?thesis by (metis fst_conv)
  qed simp
qed

text \<open>C40: a session identifier can stop the uploads of the whole spool. The key of a pack has a directory
  \<^verbatim>\<open>session=...\<close>; when the identifier ends in \<^verbatim>\<open>.open\<close>, the cleanup of temporary files that starts every
  recovery finds that directory, and unlinking it raises. So once such a pack has been staged every
  \<^verbatim>\<open>recover\<close> fails, whatever other threads do, and with it every \<^verbatim>\<open>upload_pending\<close>.\<close>

theorem open_session_blocks_recovery:
  assumes "durable_persist other sp ready = (sp', Inr staged)" "node sp (stg_path staged) = None"
    "metadata_ok (rp_first_metadata ready)" "sp_pack_id (rp_pack ready) = uuid_str u"
    "sp_checksum (rp_pack ready) = hexdigest (sp_data (rp_pack ready))"
    "key_component (md_session_id (rp_first_metadata ready)) = Inr (s @ lit ''.open'')"
  shows "snd (recover gaps sp') = Inl (Error OSError ''is a directory'')"
  using assms(3,4)
proof (rule object_key_for_parts)
  fix key tenant session parts date rank
  assume k: "object_key_for ready = Inr key" "key_component (md_session_id (rp_first_metadata ready)) = Inr session"
    "validate_object_key key = Inr parts"
    "parts = [lit ''v1'', lit ''tenant='' @ tenant, lit ''date='' @ date, lit ''session='' @ session, lit ''rank='' @ rank,
       uuid_str u @ lit ''.dmi-pack'']"
  let ?p = "sealed_source (rp_pack ready)"
  have st: "stage other ?p key sp = (sp', Inr staged)" using assms(1) k(1) by (simp add: durable_persist_def)
  note hon = sealed_source_honest [OF assms(5)]
  from st hon obtain parts' where v: "validate_object_key key = Inr parts'" "staged = staged_of (dps_root sp) ?p parts'"
    "dps_root sp' = dps_root sp" by (rule stage_Inr)
  let ?dir = "dps_root sp @ [lit ''v1'', lit ''tenant='' @ tenant, lit ''date='' @ date, lit ''session='' @ session]"
  have path: "stg_path staged = ?dir @ [lit ''rank='' @ rank, ready_name ?p]" 
  proof -
    have "parts' = parts" using v(1) k(3) by simp
    then show ?thesis by (simp add: v(2) k(4) staged_of_def)
  qed
  have "node sp' (take (length (dps_root sp) + 4) (stg_path staged)) = Some FDir"
    using st hon assms(2) by (rule stage_makes_dirs) (simp_all add: path)
  moreover have "take (length (dps_root sp) + 4) (stg_path staged) = ?dir" by (simp add: path)
  moreover have "session = s @ lit ''.open''" using k(2) assms(6) by simp
  then have "endswith OPEN_SUFFIX (lit ''session='' @ session)"
    using endswith_append [of OPEN_SUFFIX "lit ''session='' @ s"] by (simp add: OPEN_SUFFIX_def)
  then have "rglob_match (dps_root sp') OPEN_SUFFIX ?dir" by (simp add: rglob_match_def v(3))
  ultimately show ?thesis by (metis open_directory_fails)
qed

theorem open_session_blocks_recovery_witness:
  "\<exists>sp' staged. durable_persist None demo_spool (demo_ready_of (demo_metadata\<lparr>md_session_id := lit ''x.open''\<rparr>)) = (sp', Inr staged)
     \<and> snd (recover (\<lambda>_ _. []) sp') = Inl (Error OSError ''is a directory'')"
proof -
  let ?m = "demo_metadata\<lparr>md_session_id := lit ''x.open''\<rparr>"
  have t: "text_ok TEXT_LIMIT (lit ''x.open'')"
    by (simp add: text_ok_def lit_def utf8_encode_def scalar_value_def is_surrogate_def utf8_char_def TEXT_LIMIT_def)
  have ok: "metadata_ok ?m" using demo_metadata_ok t by (simp add: metadata_ok_def)
  have c: "key_component (lit ''x.open'') = Inr (lit ''x'' @ lit ''.open'')"
    by (simp add: key_component_def quote_def lit_def utf8_encode_def scalar_value_def is_surrogate_def utf8_char_def
        quote_byte_def quote_safe_def DIGEST_PREFIX_def startswith_def)
  from ok show ?thesis
  proof (rule demo_durable_persist)
    fix sp' parts
    assume p: "durable_persist None demo_spool (demo_ready_of ?m) =
      (sp', Inr (staged_of [lit ''spool''] (sealed_source (rp_pack demo_ready)) parts))"
    have n: "node demo_spool q = None" for q by (simp add: node_def demo_spool_def)
    have h: "sp_checksum (rp_pack demo_ready) = hexdigest (sp_data (rp_pack demo_ready))" using demo_ready(2) by (auto simp: pack_of_def)
    from open_session_blocks_recovery [OF p n, of 5 "lit ''x''" "\<lambda>_ _. []"] ok demo_ready(3) h c p show ?thesis
      by (simp add: demo_ready_of)
  qed
qed

end
