(* ===== verification/Upload.thy ===== *)
theory Upload
  imports SpoolRuns "HOL-Library.Multiset"
begin

text \<open>
  The uploaders of \<^verbatim>\<open>storage/capture/spool.py\<close>, over the filesystem store: \<^verbatim>\<open>SpoolUploader\<close>, which uploads the
  recovered packs one after the other, and \<^verbatim>\<open>ParallelSpoolUploader\<close>, which keeps a bounded number of uploads
  and of bytes in flight and retries each upload a bounded number of times. The world of an upload is the
  spool and the store. What other threads do to the spool between the put and the removal, what another
  writer publishes in the store, the clock, the random numbers and the order in which uploads complete come
  from the environment. The uploads that run at the same time take effect in the order in which they complete.
\<close>

section \<open>Uploading one pack\<close>

type_synonym world = "spool \<times> fs_store"

definition upload :: "fnode option \<Rightarrow> spool_call list \<Rightarrow> staged_pack \<Rightarrow> world \<Rightarrow> world \<times> pack_ref result" where
  "upload other calls staged w =
     (case fs_put other (staged_source (fst w) staged) (stg_object_key staged) (snd w) of
        (st, Inl e) \<Rightarrow> ((fst w, st), Inl e)
      | (st, Inr ref) \<Rightarrow>
          (case remove_staged staged (spool_calls calls (fst w)) of
             (sp, Inl e) \<Rightarrow> ((sp, st), Inl e)
           | (sp, Inr _) \<Rightarrow> ((sp, st), Inr ref)))"

section \<open>The sequential uploader\<close>

fun upload_each :: "(nat \<Rightarrow> fnode option \<times> spool_call list) \<Rightarrow> nat \<Rightarrow> staged_pack list \<Rightarrow> world \<Rightarrow> world \<times> pack_ref list result" where
  "upload_each race i [] w = (w, Inr [])"
| "upload_each race i (staged # pending) w =
     st_bind (upload (fst (race i)) (snd (race i)) staged w) (\<lambda>w1 ref.
     st_bind (upload_each race (Suc i) pending w1) (\<lambda>w2 refs. (w2, Inr (ref # refs))))"

definition limited :: "int option \<Rightarrow> 'a list \<Rightarrow> 'a list" where
  "limited limit xs = (case limit of None \<Rightarrow> xs | Some n \<Rightarrow> take (nat n) xs)"

definition upload_pending ::
    "(nat \<Rightarrow> nat \<Rightarrow> spool_call list) \<Rightarrow> (nat \<Rightarrow> fnode option \<times> spool_call list) \<Rightarrow> int option \<Rightarrow> world \<Rightarrow> world \<times> pack_ref list result" where
  "upload_pending gaps race limit w =
     (if limit \<noteq> None \<and> the limit \<le> 0 then (w, Inl (Error ValueError ''limit must be positive''))
      else case recover gaps (fst w) of
        (sp, Inl e) \<Rightarrow> ((sp, snd w), Inl e)
      | (sp, Inr pending) \<Rightarrow> upload_each race 0 (limited limit pending) (sp, snd w))"

section \<open>Numbers\<close>

text \<open>The arithmetic of the backoff on Python's \<^verbatim>\<open>int\<close> and \<^verbatim>\<open>float\<close>: a product with a \<^verbatim>\<open>float\<close> converts an \<^verbatim>\<open>int\<close>,
  which raises when it is out of range, and rounds.\<close>

definition float_of_int :: "int \<Rightarrow> rat result" where
  "float_of_int i =
     (case round64 (of_int i) of
        FNum q \<Rightarrow> Inr q
      | _ \<Rightarrow> Inl (Error OverflowError ''int too large to convert to float''))"

datatype pynum = NInt int | NFloat pyfloat

definition num_lt :: "pynum \<Rightarrow> pynum \<Rightarrow> bool" where
  "num_lt a b =
     (let value = (\<lambda>n. case n of NInt i \<Rightarrow> FNum (of_int i) | NFloat f \<Rightarrow> f) in
      case (value a, value b) of
        (FNum p, FNum q) \<Rightarrow> p < q
      | (FNum _, FInf) \<Rightarrow> True
      | (FNegInf, FNum _) \<Rightarrow> True
      | (FNegInf, FInf) \<Rightarrow> True
      | _ \<Rightarrow> False)"

definition num_min :: "pynum \<Rightarrow> pynum \<Rightarrow> pynum" where
  "num_min a b = (if num_lt b a then b else a)"

text \<open>The operands are finite: the configuration refuses other values, and \<^verbatim>\<open>min\<close> bounds every product.\<close>

definition finite_value :: "pynum \<Rightarrow> rat result" where
  "finite_value n =
     (case n of
        NInt i \<Rightarrow> float_of_int i
      | NFloat (FNum q) \<Rightarrow> Inr q
      | NFloat _ \<Rightarrow> Inl (Error ValueError ''not finite''))"

definition num_mul :: "pynum \<Rightarrow> pynum \<Rightarrow> pynum result" where
  "num_mul a b =
     (case (a, b) of
        (NInt i, NInt j) \<Rightarrow> Inr (NInt (i * j))
      | _ \<Rightarrow> rbind (finite_value a) (\<lambda>p. rbind (finite_value b) (\<lambda>q. Inr (NFloat (round64 (p * q))))))"

definition num_add :: "pynum \<Rightarrow> pynum \<Rightarrow> pynum result" where
  "num_add a b =
     (case (a, b) of
        (NInt i, NInt j) \<Rightarrow> Inr (NInt (i + j))
      | _ \<Rightarrow> rbind (finite_value a) (\<lambda>p. rbind (finite_value b) (\<lambda>q. Inr (NFloat (round64 (p + q))))))"

section \<open>Configuration\<close>

record upload_config =
  uc_max_workers :: int
  uc_max_in_flight_bytes :: int
  uc_max_attempts :: int
  uc_base_backoff_seconds :: pynum
  uc_max_backoff_seconds :: pynum
  uc_jitter_ratio :: pynum

definition positive_int :: "pyval \<Rightarrow> int result" where
  "positive_int v =
     (case v of
        PInt i \<Rightarrow> if i \<le> 0 then Inl (Error ValueError ''must be positive'') else Inr i
      | _ \<Rightarrow> Inl (Error ValueError ''must be positive''))"

text \<open>\<^verbatim>\<open>math.isfinite\<close> converts an \<^verbatim>\<open>int\<close>, so a huge one raises.\<close>

definition finite_number :: "pyval \<Rightarrow> pynum result" where
  "finite_number v =
     (case v of
        PInt i \<Rightarrow> rbind (float_of_int i) (\<lambda>_.
          if i < 0 then Inl (Error ValueError ''must be finite and non-negative'') else Inr (NInt i))
      | PFloat (FNum q) \<Rightarrow>
          if q < 0 then Inl (Error ValueError ''must be finite and non-negative'') else Inr (NFloat (FNum q))
      | _ \<Rightarrow> Inl (Error ValueError ''must be finite and non-negative''))"

definition ParallelUploadConfig ::
    "pyval \<Rightarrow> pyval \<Rightarrow> pyval \<Rightarrow> pyval \<Rightarrow> pyval \<Rightarrow> pyval \<Rightarrow> upload_config result" where
  "ParallelUploadConfig max_workers max_in_flight_bytes max_attempts base_backoff max_backoff jitter_ratio =
     rbind (positive_int max_workers) (\<lambda>workers.
     rbind (positive_int max_in_flight_bytes) (\<lambda>bytes.
     rbind (positive_int max_attempts) (\<lambda>attempts.
     rbind (finite_number base_backoff) (\<lambda>base.
     rbind (finite_number max_backoff) (\<lambda>top_backoff.
     rbind (finite_number jitter_ratio) (\<lambda>jitter.
       if num_lt top_backoff base then Inl (Error ValueError ''max_backoff_seconds must cover base_backoff_seconds'')
       else if num_lt (NInt 1) jitter then Inl (Error ValueError ''jitter_ratio must not exceed one'')
       else Inr \<lparr>uc_max_workers = workers, uc_max_in_flight_bytes = bytes, uc_max_attempts = attempts,
              uc_base_backoff_seconds = base, uc_max_backoff_seconds = top_backoff, uc_jitter_ratio = jitter\<rparr>))))))"

definition backoff :: "upload_config \<Rightarrow> nat \<Rightarrow> rat \<Rightarrow> pynum result" where
  "backoff cfg attempt random_value =
     rbind (num_mul (uc_base_backoff_seconds cfg) (NInt (2 ^ (attempt - 1)))) (\<lambda>scaled.
     let base = num_min (uc_max_backoff_seconds cfg) scaled in
     rbind (num_mul base (uc_jitter_ratio cfg)) (\<lambda>width.
     rbind (num_mul width (NFloat (FNum random_value))) (\<lambda>jitter.
     rbind (num_add base jitter) (\<lambda>delay.
       Inr (num_min (uc_max_backoff_seconds cfg) delay)))))"

section \<open>Retryable errors\<close>

text \<open>What an exception carries besides its class: the \<^verbatim>\<open>errno\<close> of an \<^verbatim>\<open>OSError\<close>, whether it is a botocore
  connection error, and its \<^verbatim>\<open>response\<close> attribute.\<close>

record exc_info =
  xi_errno :: "int option"
  xi_transport :: bool
  xi_response :: "pyval option"

text \<open>\<^verbatim>\<open>EPERM\<close>, \<^verbatim>\<open>ENOENT\<close>, \<^verbatim>\<open>EACCES\<close>, \<^verbatim>\<open>ENOTDIR\<close>, \<^verbatim>\<open>EISDIR\<close>, \<^verbatim>\<open>EROFS\<close>.\<close>

definition PERMANENT_ERRNOS :: "int list" where "PERMANENT_ERRNOS = [1, 2, 13, 20, 21, 30]"

definition RETRYABLE_CODES :: "pystr list" where
  "RETRYABLE_CODES =
     [lit ''InternalError'', lit ''RequestTimeout'', lit ''ServiceUnavailable'', lit ''SlowDown'', lit ''Throttling'']"

definition unhashable :: "pyval \<Rightarrow> bool" where
  "unhashable v = (case v of PList _ \<Rightarrow> True | PDict _ \<Rightarrow> True | _ \<Rightarrow> False)"

definition mapping_get :: "pyval \<Rightarrow> pystr \<Rightarrow> pyval \<Rightarrow> pyval" where
  "mapping_get m key fallback =
     (case m of PDict d \<Rightarrow> (case map_of d key of Some v \<Rightarrow> v | None \<Rightarrow> fallback) | _ \<Rightarrow> PNone)"

definition is_mapping :: "pyval \<Rightarrow> bool" where
  "is_mapping v = (case v of PDict _ \<Rightarrow> True | _ \<Rightarrow> False)"

definition retryable_response :: "pyval \<Rightarrow> bool result" where
  "retryable_response response =
     (if \<not> is_mapping response then Inr False
      else
        let metadata = mapping_get response (lit ''ResponseMetadata'') (PDict []);
            err = mapping_get response (lit ''Error'') (PDict []);
            status = (if is_mapping metadata then mapping_get metadata (lit ''HTTPStatusCode'') PNone else PNone);
            code = (if is_mapping err then mapping_get err (lit ''Code'') PNone else PNone)
        in if unhashable status then Inl (Error TypeError ''unhashable type'')
           else if py_eq_int status 408 \<or> py_eq_int status 429 \<or> (case status of PInt i \<Rightarrow> 500 \<le> i | _ \<Rightarrow> False)
           then Inr True
           else if unhashable code then Inl (Error TypeError ''unhashable type'')
           else Inr (case code of PStr s \<Rightarrow> s \<in> set RETRYABLE_CODES | _ \<Rightarrow> False))"

definition retryable :: "error \<Rightarrow> exc_info \<Rightarrow> bool result" where
  "retryable e info =
     (if is_instance e OSError then Inr (case xi_errno info of None \<Rightarrow> True | Some n \<Rightarrow> n \<notin> set PERMANENT_ERRNOS)
      else if xi_transport info then Inr True
      else case xi_response info of None \<Rightarrow> Inr False | Some response \<Rightarrow> retryable_response response)"


section \<open>One upload with retries\<close>

record upload_failure =
  uf_pack_id :: pystr
  uf_object_key :: pystr
  uf_attempts :: nat
  uf_error_type :: exc_class

datatype event_field = FieldInt int | FieldText pystr | FieldClass exc_class

datatype upload_event = UploadEvent string "(string \<times> event_field) list"

record upload_outcome =
  oc_ref :: "pack_ref option"
  oc_failure :: "upload_failure option"
  oc_attempts :: nat
  oc_duration_ns :: int

text \<open>The environment of a batch: for the \<open>i\<close>-th pack and each attempt, what others do and the random number; for
  each pack, the clock when its upload starts and ends; what exceptions carry; which uploads are complete when
  the scheduler wakes for the \<open>r\<close>-th time.\<close>

record upload_env =
  ue_other :: "nat \<Rightarrow> nat \<Rightarrow> fnode option"
  ue_calls :: "nat \<Rightarrow> nat \<Rightarrow> spool_call list"
  ue_random :: "nat \<Rightarrow> nat \<Rightarrow> rat"
  ue_started :: "nat \<Rightarrow> int"
  ue_ended :: "nat \<Rightarrow> int"
  ue_info :: "error \<Rightarrow> exc_info"
  ue_complete :: "nat \<Rightarrow> nat list"

text \<open>The uploader; the callback tells whether it raises for an event. The sleeps are recorded, the last first.\<close>

record parallel_uploader =
  pu_world :: world
  pu_config :: upload_config
  pu_event_callback :: "(upload_event \<Rightarrow> bool) option"
  pu_event_callback_failures :: int
  pu_sleeps :: "pynum list"

definition ParallelSpoolUploader :: "world \<Rightarrow> upload_config \<Rightarrow> (upload_event \<Rightarrow> bool) option \<Rightarrow> parallel_uploader" where
  "ParallelSpoolUploader w cfg callback =
     \<lparr>pu_world = w, pu_config = cfg, pu_event_callback = callback, pu_event_callback_failures = 0, pu_sleeps = []\<rparr>"

definition emit_upload :: "string \<Rightarrow> (string \<times> event_field) list \<Rightarrow> parallel_uploader \<Rightarrow> parallel_uploader" where
  "emit_upload event info u =
     (case pu_event_callback u of
        None \<Rightarrow> u
      | Some raises \<Rightarrow>
          if raises (UploadEvent event info)
          then u\<lparr>pu_event_callback_failures := pu_event_callback_failures u + 1\<rparr> else u)"

definition upload_failed :: "upload_env \<Rightarrow> nat \<Rightarrow> staged_pack \<Rightarrow> nat \<Rightarrow> error \<Rightarrow> upload_outcome" where
  "upload_failed env i staged attempt e =
     \<lparr>oc_ref = None,
      oc_failure = Some \<lparr>uf_pack_id = stg_pack_id staged, uf_object_key = stg_object_key staged, uf_attempts = attempt,
        uf_error_type = err_class e\<rparr>,
      oc_attempts = attempt, oc_duration_ns = max 0 (ue_ended env i - ue_started env i)\<rparr>"

definition upload_committed :: "upload_env \<Rightarrow> nat \<Rightarrow> pack_ref \<Rightarrow> nat \<Rightarrow> upload_outcome" where
  "upload_committed env i ref attempt =
     \<lparr>oc_ref = Some ref, oc_failure = None, oc_attempts = attempt,
      oc_duration_ns = max 0 (ue_ended env i - ue_started env i)\<rparr>"

text \<open>\<^verbatim>\<open>for attempt in range(1, max_attempts + 1)\<close>: the first number counts the attempts left.\<close>

fun upload_attempts ::
    "upload_env \<Rightarrow> nat \<Rightarrow> staged_pack \<Rightarrow> nat \<Rightarrow> nat \<Rightarrow> parallel_uploader \<Rightarrow> parallel_uploader \<times> upload_outcome result" where
  "upload_attempts env i staged 0 attempt u = (u, Inl (Error AssertionError ''unreachable upload attempt state''))"
| "upload_attempts env i staged (Suc left) attempt u =
     (case upload (ue_other env i attempt) (ue_calls env i attempt) staged (pu_world u) of
        (w, Inr ref) \<Rightarrow>
          (emit_upload ''pack_upload_committed''
             [(''pack_id'', FieldText (stg_pack_id staged)), (''attempt'', FieldInt (int attempt)),
              (''object_bytes'', FieldInt (stg_object_bytes staged))] (u\<lparr>pu_world := w\<rparr>),
           Inr (upload_committed env i ref attempt))
      | (w, Inl e) \<Rightarrow>
          let info = [(''pack_id'', FieldText (stg_pack_id staged)), (''attempt'', FieldInt (int attempt)),
                        (''error_type'', FieldClass (err_class e))];
              u1 = u\<lparr>pu_world := w\<rparr>
          in (case (if int attempt = uc_max_attempts (pu_config u) then Inr False else retryable e (ue_info env e)) of
               Inl raised \<Rightarrow> (u1, Inl raised)
             | Inr False \<Rightarrow> (emit_upload ''pack_upload_failed'' info u1, Inr (upload_failed env i staged attempt e))
             | Inr True \<Rightarrow>
                 let u2 = emit_upload ''pack_upload_retry'' info u1 in
                 (case backoff (pu_config u) attempt (ue_random env i attempt) of
                   Inl raised \<Rightarrow> (u2, Inl raised)
                 | Inr delay \<Rightarrow>
                     upload_attempts env i staged left (Suc attempt) (u2\<lparr>pu_sleeps := delay # pu_sleeps u2\<rparr>))))"

definition upload_with_retries ::
    "upload_env \<Rightarrow> nat \<Rightarrow> staged_pack \<Rightarrow> parallel_uploader \<Rightarrow> parallel_uploader \<times> upload_outcome result" where
  "upload_with_retries env i staged u = upload_attempts env i staged (nat (uc_max_attempts (pu_config u))) 1 u"

section \<open>The scheduler\<close>

record schedule =
  sc_remaining :: "(nat \<times> staged_pack) list"
  sc_futures :: "(nat \<times> staged_pack) list"
  sc_active_bytes :: int
  sc_peak_active :: nat
  sc_peak_bytes :: int
  sc_ordered :: "upload_outcome option list"

text \<open>The first entry that satisfies a predicate, and the list without it.\<close>

fun pop_first :: "('a \<Rightarrow> bool) \<Rightarrow> 'a list \<Rightarrow> ('a \<times> 'a list) option" where
  "pop_first P [] = None"
| "pop_first P (x # xs) =
     (if P x then Some (x, xs) else map_option (\<lambda>(y, ys). (y, x # ys)) (pop_first P xs))"

lemma pop_first_length: "pop_first P xs = Some (y, ys) \<Longrightarrow> length xs = Suc (length ys)"
  by (induction xs arbitrary: ys) (auto split: if_splits)

text \<open>The inner loop: submit while a worker is free and some remaining pack fits the bytes in flight.\<close>

function submit_all :: "upload_config \<Rightarrow> schedule \<Rightarrow> schedule" where
  "submit_all cfg sc =
     (if int (length (sc_futures sc)) < uc_max_workers cfg then
        case pop_first (\<lambda>e. sc_active_bytes sc + stg_object_bytes (snd e) \<le> uc_max_in_flight_bytes cfg) (sc_remaining sc) of
          None \<Rightarrow> sc
        | Some (e, rest) \<Rightarrow>
            let futures = sc_futures sc @ [e]; active = sc_active_bytes sc + stg_object_bytes (snd e)
            in submit_all cfg (sc\<lparr>sc_remaining := rest, sc_futures := futures, sc_active_bytes := active,
                 sc_peak_active := max (sc_peak_active sc) (length futures),
                 sc_peak_bytes := max (sc_peak_bytes sc) active\<rparr>)
      else sc)"
  by pat_completeness auto
termination
  by (relation "measure (\<lambda>(_, sc). length (sc_remaining sc))") (auto dest: pop_first_length)

declare submit_all.simps [simp del]

text \<open>\<^verbatim>\<open>wait(futures, return_when=FIRST_COMPLETED)\<close>: at least one of the futures.\<close>

definition wait_first :: "nat list \<Rightarrow> (nat \<times> staged_pack) list \<Rightarrow> (nat \<times> staged_pack) list" where
  "wait_first indices futures =
     (let done = filter (\<lambda>f. fst f \<in> set indices) futures in if done = [] then take 1 futures else done)"

definition without :: "nat \<times> staged_pack \<Rightarrow> (nat \<times> staged_pack) list \<Rightarrow> (nat \<times> staged_pack) list" where
  "without f futures = filter (\<lambda>g. fst g \<noteq> fst f) futures"

text \<open>When a future raises, leaving the executor waits for the uploads still running.\<close>

fun collect ::
    "upload_env \<Rightarrow> (nat \<times> staged_pack) list \<Rightarrow> schedule \<Rightarrow> parallel_uploader \<Rightarrow> (schedule \<times> parallel_uploader) \<times> unit result" where
  "collect env [] sc u = ((sc, u), Inr ())"
| "collect env (f # completed) sc u =
     (let sc1 = sc\<lparr>sc_futures := without f (sc_futures sc), sc_active_bytes := sc_active_bytes sc - stg_object_bytes (snd f)\<rparr> in
      case upload_with_retries env (fst f) (snd f) u of
        (u1, Inl e) \<Rightarrow>
          ((sc1, fold (\<lambda>g v. fst (upload_with_retries env (fst g) (snd g) v)) (sc_futures sc1) u1), Inl e)
      | (u1, Inr outcome) \<Rightarrow> collect env completed (sc1\<lparr>sc_ordered := (sc_ordered sc1)[fst f := Some outcome]\<rparr>) u1)"

text \<open>The outer loop; \<open>None\<close> is a loop that does not end.\<close>

partial_function (option) schedule_loop ::
    "upload_env \<Rightarrow> nat \<Rightarrow> schedule \<Rightarrow> parallel_uploader \<Rightarrow> ((schedule \<times> parallel_uploader) \<times> unit result) option" where
  "schedule_loop env r sc u =
     (if sc_remaining sc = [] \<and> sc_futures sc = [] then Some ((sc, u), Inr ())
      else
        let sc1 = submit_all (pu_config u) sc;
            step = collect env (wait_first (ue_complete env r) (sc_futures sc1)) sc1 u
        in case snd step of
             Inl e \<Rightarrow> Some (fst step, Inl e)
           | Inr _ \<Rightarrow> schedule_loop env (Suc r) (fst (fst step)) (snd (fst step)))"

declare schedule_loop.simps [code]

section \<open>A batch\<close>

record upload_snapshot =
  us_attempted_packs :: nat
  us_uploaded_packs :: nat
  us_uploaded_bytes :: int
  us_failed_packs :: nat
  us_retries :: nat
  us_peak_active_uploads :: nat
  us_peak_in_flight_bytes :: int
  us_event_callback_failures :: int
  us_duration_count :: nat
  us_duration_total_ns :: int
  us_duration_max_ns :: int

record upload_batch_result =
  ub_refs :: "pack_ref list"
  ub_failures :: "upload_failure list"
  ub_snapshot :: upload_snapshot

definition some_values :: "'a option list \<Rightarrow> 'a list" where
  "some_values xs = concat (map (\<lambda>x. case x of None \<Rightarrow> [] | Some y \<Rightarrow> [y]) xs)"

definition batch_result :: "schedule \<Rightarrow> parallel_uploader \<Rightarrow> upload_batch_result result" where
  "batch_result sc u =
     (if list_ex (\<lambda>out. out = None) (sc_ordered sc) then Inl (Error AssertionError ''missing upload outcome'')
      else
        let outcomes = some_values (sc_ordered sc);
            refs = some_values (map oc_ref outcomes); failures = some_values (map oc_failure outcomes);
            durations = map oc_duration_ns outcomes
        in Inr \<lparr>ub_refs = refs, ub_failures = failures,
             ub_snapshot =
               \<lparr>us_attempted_packs = length (sc_ordered sc), us_uploaded_packs = length refs,
                us_uploaded_bytes = sum_list (map ref_object_bytes refs), us_failed_packs = length failures,
                us_retries = sum_list (map (\<lambda>out. oc_attempts out - 1) outcomes),
                us_peak_active_uploads = sc_peak_active sc, us_peak_in_flight_bytes = sc_peak_bytes sc,
                us_event_callback_failures = pu_event_callback_failures u, us_duration_count = length durations,
                us_duration_total_ns = sum_list durations, us_duration_max_ns = fold max durations 0\<rparr>\<rparr>)"

definition new_schedule :: "staged_pack list \<Rightarrow> schedule" where
  "new_schedule pending =
     \<lparr>sc_remaining = zip [0..<length pending] pending, sc_futures = [], sc_active_bytes = 0, sc_peak_active = 0,
      sc_peak_bytes = 0, sc_ordered = replicate (length pending) None\<rparr>"

definition parallel_upload_pending ::
    "upload_env \<Rightarrow> (nat \<Rightarrow> nat \<Rightarrow> spool_call list) \<Rightarrow> pyval \<Rightarrow> parallel_uploader
     \<Rightarrow> (parallel_uploader \<times> upload_batch_result result) option" where
  "parallel_upload_pending env gaps limit u =
     (if limit \<noteq> PNone \<and> (case limit of PInt n \<Rightarrow> n \<le> 0 | _ \<Rightarrow> True)
      then Some (u, Inl (Error ValueError ''limit must be positive''))
      else case recover gaps (fst (pu_world u)) of
        (sp, Inl e) \<Rightarrow> Some (u\<lparr>pu_world := (sp, snd (pu_world u))\<rparr>, Inl e)
      | (sp, Inr recovered) \<Rightarrow>
          let u1 = u\<lparr>pu_world := (sp, snd (pu_world u))\<rparr>;
              pending = limited (case limit of PInt n \<Rightarrow> Some n | _ \<Rightarrow> None) recovered
          in if list_ex (\<lambda>s. uc_max_in_flight_bytes (pu_config u) < stg_object_bytes s) pending
             then Some (u1, Inl (Error ValueError ''pack exceeds the in-flight byte limit''))
             else map_option (\<lambda>((sc, u2), ended). (u2, rbind ended (\<lambda>_. batch_result sc u2)))
                    (schedule_loop env 0 (new_schedule pending) u1))"

section \<open>No pack is lost\<close>

text \<open>A staged pack is safe while its valid ready file is in the spool, or its object is in the store under its key,
  with its size and its SHA-256.\<close>

definition stored :: "fs_store \<Rightarrow> staged_pack \<Rightarrow> bool" where
  "stored st e \<longleftrightarrow> (\<exists>path data. fs_path (stg_object_key e) = Inr path \<and> fs_tree st path = Some (FReg data)
     \<and> int (length data) = stg_object_bytes e \<and> hexdigest data = stg_checksum e)"

definition safe :: "world \<Rightarrow> staged_pack \<Rightarrow> bool" where
  "safe w e \<longleftrightarrow> ready_verdict (fst w) (stg_path e) = Inr (Valid e) \<or> stored (snd w) e"

lemma put_stored: "fs_put other (staged_source sp e) (stg_object_key e) st = (st', Inr ref) \<Longrightarrow> stored st' e"
  by (erule fs_put_Inr) (auto simp: stored_def source_honest_def staged_source_def)

lemma stored_put: "stored st e \<Longrightarrow> fs_put other p key st = (st', r) \<Longrightarrow> stored st' e"
  using fs_put_keeps_files by (fastforce simp: stored_def)

lemma remove_staged_root: "dps_root (fst (remove_staged staged sp)) = dps_root sp"
  by (auto simp: remove_staged_def Let_def split: sum.splits)

lemma remove_staged_node:
  assumes "node sp q \<noteq> None" "q = stg_path staged \<Longrightarrow> entry sp q \<noteq> Inr staged"
  shows "node (fst (remove_staged staged sp)) q = node sp q"
proof -
  have u: "node (unaccount_ready path s) = node s" for path s by (rule node_cong) simp
  have f: "node (fst (fsync_directory s)) = node s" for s by (rule node_cong) simp
  show ?thesis using assms by (auto simp: remove_staged_def Let_def u f split: sum.splits)
qed

lemma upload_root: "list_all stage_call calls \<Longrightarrow> dps_root (fst (fst (upload other calls staged w))) = dps_root (fst w)"
  using remove_staged_root [of staged "spool_calls calls (fst w)"] stage_calls_root [of calls "fst w"]
  by (auto simp: upload_def split: prod.splits sum.splits)

lemma upload_safe:
  assumes calls: "list_all stage_call calls" and safe: "safe w e"
  shows "safe (fst (upload other calls staged w)) e"
proof -
  obtain sp st where w: "w = (sp, st)" by (cases w)
  obtain st' r where put: "fs_put other (staged_source sp staged) (stg_object_key staged) st = (st', r)"
    by (cases "fs_put other (staged_source sp staged) (stg_object_key staged) st")
  define sp1 where "sp1 = spool_calls calls sp"
  have up: "snd (fst (upload other calls staged w)) = st'"
    "fst (fst (upload other calls staged w)) = (if isl r then sp else fst (remove_staged staged sp1))"
    using put w by (auto simp: upload_def sp1_def split: prod.splits sum.splits)
  show ?thesis
  proof (cases "stored st e")
    case True
    then show ?thesis using stored_put [OF _ put] up(1) by (simp add: safe_def)
  next
    case False
    then have v: "ready_verdict sp (stg_path e) = Inr (Valid e)" using safe w by (simp add: safe_def)
    have v1: "ready_verdict sp1 (stg_path e) = Inr (Valid e)"
      using stage_calls_keep_valid [OF calls, of sp] v by (simp add: keeps_valid_def sp1_def)
    show ?thesis
    proof (cases "isl r \<or> stored st' e")
      case True
      then show ?thesis using up v by (auto simp: safe_def)
    next
      case nr: False
      then obtain ref where "r = Inr ref" by (cases r) auto
      then have "stored st' staged" using put put_stored by blast
      then have ne: "staged \<noteq> e" using nr by blast
      obtain data where d: "node sp1 (stg_path e) = Some (FReg data)" using v1 by (rule Valid_node)
      have "node (fst (remove_staged staged sp1)) (stg_path e) = node sp1 (stg_path e)"
        using ne d ready_verdict_Valid [OF v1] by (intro remove_staged_node) auto
      then have "ready_verdict (fst (remove_staged staged sp1)) (stg_path e) = Inr (Valid e)"
        using ready_verdict_cong [of _ "stg_path e" sp1] remove_staged_root v1 by simp
      then show ?thesis using up nr by (simp add: safe_def)
    qed
  qed
qed

lemma upload_each_safe:
  "\<forall>i. list_all stage_call (snd (race i)) \<Longrightarrow> safe w e \<Longrightarrow> safe (fst (upload_each race i pending w)) e"
proof (induction pending arbitrary: i w)
  case (Cons staged pending)
  obtain w1 r where u: "upload (fst (race i)) (snd (race i)) staged w = (w1, r)"
    by (cases "upload (fst (race i)) (snd (race i)) staged w")
  have s1: "safe w1 e" using upload_safe [of "snd (race i)" w e "fst (race i)" staged] Cons.prems u by simp
  have "fst (upload_each race i (staged # pending) w) \<in> {w1, fst (upload_each race (Suc i) pending w1)}"
    using u by (cases r; cases "upload_each race (Suc i) pending w1"; cases "snd (upload_each race (Suc i) pending w1)") auto
  then show ?case using s1 Cons.IH [OF Cons.prems(1) s1, of "Suc i"] by auto
qed simp

lemma recover_safe:
  assumes "\<forall>k i. list_all (\<lambda>c. call_ok c \<and> stage_call c) (gaps k i)" "spool_inv B (fst w)" "safe w e"
  shows "safe (fst (recover gaps (fst w)), snd w) e"
  using recover_keeps [OF assms(1,2)] assms(3) by (auto simp: safe_def recover_def keeps_valid_def)

lemma upload_pending_safe:
  assumes "\<forall>k i. list_all (\<lambda>c. call_ok c \<and> stage_call c) (gaps k i)" "\<forall>i. list_all stage_call (snd (race i))"
    "spool_inv B (fst w)" "safe w e"
  shows "safe (fst (upload_pending gaps race limit w)) e"
proof -
  obtain sp r where re: "recover gaps (fst w) = (sp, r)" by (cases "recover gaps (fst w)")
  have s: "safe (sp, snd w) e" using recover_safe [OF assms(1,3,4)] re by simp
  with upload_each_safe [OF assms(2) s] re assms(4) show ?thesis by (cases r) (auto simp: upload_pending_def)
qed

lemma emit_upload_world [simp]: "pu_world (emit_upload event info u) = pu_world u" "pu_config (emit_upload event info u) = pu_config u"
  "pu_sleeps (emit_upload event info u) = pu_sleeps u"
  by (auto simp: emit_upload_def split: option.splits)

definition env_ok :: "upload_env \<Rightarrow> bool" where
  "env_ok env \<longleftrightarrow> (\<forall>i k. list_all stage_call (ue_calls env i k))"

lemma upload_attempts_safe:
  "env_ok env \<Longrightarrow> safe (pu_world u) e \<Longrightarrow> safe (pu_world (fst (upload_attempts env i staged n k u))) e"
proof (induction n arbitrary: k u)
  case (Suc n)
  obtain w r where up: "upload (ue_other env i k) (ue_calls env i k) staged (pu_world u) = (w, r)"
    by (cases "upload (ue_other env i k) (ue_calls env i k) staged (pu_world u)")
  have s: "safe w e" using upload_safe [of "ue_calls env i k" "pu_world u" e] Suc.prems up by (metis env_ok_def fst_conv)
  show ?case
  proof (cases r)
    case (Inr ref)
    then show ?thesis using up s by simp
  next
    case (Inl x)
    show ?thesis using Suc.IH [OF Suc.prems(1)] up Inl s
      by (simp add: Let_def split: sum.split bool.split)
  qed
qed simp

lemma upload_with_retries_safe:
  "env_ok env \<Longrightarrow> safe (pu_world u) e \<Longrightarrow> safe (pu_world (fst (upload_with_retries env i staged u))) e"
  by (simp add: upload_with_retries_def upload_attempts_safe)

lemma collect_safe:
  assumes env: "env_ok env"
  shows "safe (pu_world u) e \<Longrightarrow> safe (pu_world (snd (fst (collect env completed sc u)))) e"
proof (induction completed arbitrary: sc u)
  case (Cons f completed)
  have fold: "safe (pu_world v) e \<Longrightarrow> safe (pu_world (fold (\<lambda>g v. fst (upload_with_retries env (fst g) (snd g) v)) fs v)) e" for fs v
    by (induction fs arbitrary: v) (simp_all add: upload_with_retries_safe [OF env])
  obtain u1 r where up: "upload_with_retries env (fst f) (snd f) u = (u1, r)" by (cases "upload_with_retries env (fst f) (snd f) u")
  have "safe (pu_world u1) e" using upload_with_retries_safe [OF env Cons.prems, of "fst f" "snd f"] up by simp
  then show ?case using up Cons.IH fold by (cases r) (simp_all add: Let_def)
qed simp

lemma schedule_loop_safe:
  assumes "schedule_loop env r sc u = Some res" "env_ok env" "safe (pu_world u) e"
  shows "safe (pu_world (snd (fst res))) e"
proof -
  let ?P = "\<lambda>env (r :: nat) (sc :: schedule) (u :: parallel_uploader) (res :: (schedule \<times> parallel_uploader) \<times> unit result). env_ok env \<longrightarrow> safe (pu_world u) e \<longrightarrow> safe (pu_world (snd (fst res))) e"
  have "?P env r sc u res"
  proof (rule schedule_loop.raw_induct [where P = ?P, OF _ assms(1)], intro impI)
    fix loop env r sc and u :: parallel_uploader and res
    assume IH: "\<And>env r sc u res. loop env r sc u = Some res \<Longrightarrow> ?P env r sc u res" and env: "env_ok env" and u: "safe (pu_world u) e"
    assume body: "(if sc_remaining sc = [] \<and> sc_futures sc = [] then Some ((sc, u), Inr ())
      else let sc1 = submit_all (pu_config u) sc; step = collect env (wait_first (ue_complete env r) (sc_futures sc1)) sc1 u
        in case snd step of Inl e \<Rightarrow> Some (fst step, Inl e) | Inr _ \<Rightarrow> loop env (Suc r) (fst (fst step)) (snd (fst step))) = Some res"
    let ?sc = "submit_all (pu_config u) sc"
    let ?step = "collect env (wait_first (ue_complete env r) (sc_futures ?sc)) ?sc u"
    have s: "safe (pu_world (snd (fst ?step))) e" using env u by (rule collect_safe)
    show "safe (pu_world (snd (fst res))) e"
    proof (cases "sc_remaining sc = [] \<and> sc_futures sc = []")
      case True
      then show ?thesis using body u by auto
    next
      case False
      show ?thesis
      proof (cases "snd ?step")
        case (Inl x)
        then show ?thesis using body s False by (auto simp: Let_def)
      next
        case (Inr x)
        then have "loop env (Suc r) (fst (fst ?step)) (snd (fst ?step)) = Some res" using body False by (auto simp: Let_def)
        from IH [OF this] env s show ?thesis by blast
      qed
    qed
  qed
  with assms(2,3) show ?thesis by blast
qed

lemma parallel_upload_safe:
  assumes "parallel_upload_pending env gaps limit u = Some (u', res)" "env_ok env"
    "\<forall>k i. list_all (\<lambda>c. call_ok c \<and> stage_call c) (gaps k i)" "spool_inv B (fst (pu_world u))" "safe (pu_world u) e"
  shows "safe (pu_world u') e"
proof -
  obtain sp r where re: "recover gaps (fst (pu_world u)) = (sp, r)" by (cases "recover gaps (fst (pu_world u))")
  have s: "safe (sp, snd (pu_world u)) e" using recover_safe [OF assms(3-5)] re by simp
  show ?thesis
  proof (cases "limit \<noteq> PNone \<and> (case limit of PInt n \<Rightarrow> n \<le> 0 | _ \<Rightarrow> True)")
    case True
    then show ?thesis using assms(1,5) by (simp add: parallel_upload_pending_def)
  next
    case ok: False
    show ?thesis
    proof (cases r)
      case (Inl x)
      then show ?thesis using assms(1) re s ok by (simp add: parallel_upload_pending_def split: if_splits) auto
    next
      case (Inr recovered)
      let ?u = "u\<lparr>pu_world := (sp, snd (pu_world u))\<rparr>"
      let ?pending = "limited (case limit of PInt n \<Rightarrow> Some n | _ \<Rightarrow> None) recovered"
      have eq: "parallel_upload_pending env gaps limit u =
         (if list_ex (\<lambda>s. uc_max_in_flight_bytes (pu_config u) < stg_object_bytes s) ?pending
          then Some (?u, Inl (Error ValueError ''pack exceeds the in-flight byte limit''))
          else map_option (\<lambda>((sc, u2), ended). (u2, rbind ended (\<lambda>_. batch_result sc u2)))
                 (schedule_loop env 0 (new_schedule ?pending) ?u))"
        unfolding parallel_upload_pending_def if_not_P [OF ok] by (simp only: re Inr prod.case sum.case Let_def)
      have l: "safe (pu_world (snd (fst res))) e" if "schedule_loop env 0 (new_schedule ?pending) ?u = Some res" for res
        using schedule_loop_safe [OF that assms(2)] s by simp
      show ?thesis
        using assms(1) s l unfolding eq
        by (cases "schedule_loop env 0 (new_schedule ?pending) ?u") (auto split: if_splits)
    qed
  qed
qed

section \<open>Bounds and termination of the scheduler\<close>

lemma num_min_le: "\<not> num_lt a (num_min a b)"
  by (cases a; cases b) (auto simp: num_min_def num_lt_def Let_def split: pyfloat.splits)

lemma backoff_bounded: "backoff cfg attempt rnd = Inr d \<Longrightarrow> \<not> num_lt (uc_max_backoff_seconds cfg) d"
  by (auto simp: backoff_def rbind_eq_Inr Let_def num_min_le)

definition sleeps_ok :: "parallel_uploader \<Rightarrow> bool" where
  "sleeps_ok u \<longleftrightarrow> (\<forall>d \<in> set (pu_sleeps u). \<not> num_lt (uc_max_backoff_seconds (pu_config u)) d)"

definition outcome_ok :: "upload_config \<Rightarrow> upload_outcome \<Rightarrow> bool" where
  "outcome_ok cfg out \<longleftrightarrow> 1 \<le> oc_attempts out \<and> int (oc_attempts out) \<le> uc_max_attempts cfg
     \<and> (oc_ref out = None) \<noteq> (oc_failure out = None)"

lemma upload_attempts_ok:
  "sleeps_ok u \<Longrightarrow> int (k + n) = uc_max_attempts (pu_config u) + 1 \<Longrightarrow> 1 \<le> k \<Longrightarrow> 0 < n
   \<Longrightarrow> upload_attempts env i staged n k u = (u', r)
   \<Longrightarrow> sleeps_ok u' \<and> pu_config u' = pu_config u \<and> (\<forall>out. r = Inr out \<longrightarrow> outcome_ok (pu_config u) out)"
proof (induction n arbitrary: k u)
  case (Suc n)
  obtain w r1 where up: "upload (ue_other env i k) (ue_calls env i k) staged (pu_world u) = (w, r1)"
    by (cases "upload (ue_other env i k) (ue_calls env i k) staged (pu_world u)")
  have [simp]: "sleeps_ok (emit_upload ev info v) = sleeps_ok v" "sleeps_ok (v\<lparr>pu_world := x\<rparr>) = sleeps_ok v" for ev info v x
    by (simp_all add: sleeps_ok_def)
  show ?case
  proof (cases r1)
    case (Inr ref)
    then show ?thesis using Suc.prems up by (auto simp: outcome_ok_def upload_committed_def)
  next
    case (Inl e)
    let ?info = "[(''pack_id'', FieldText (stg_pack_id staged)), (''attempt'', FieldInt (int k)), (''error_type'', FieldClass (err_class e))]"
    let ?again = "if int k = uc_max_attempts (pu_config u) then Inr False else retryable e (ue_info env e)"
    show ?thesis
    proof (cases "?again = Inr True")
      case False
      then show ?thesis using Suc.prems up Inl
        by (cases ?again; cases "projr ?again") (auto simp: Let_def outcome_ok_def upload_failed_def)
    next
      case True
      then have k: "int k \<noteq> uc_max_attempts (pu_config u)" by (auto split: if_splits)
      let ?u2 = "emit_upload ''pack_upload_retry'' ?info (u\<lparr>pu_world := w\<rparr>)"
      show ?thesis
      proof (cases "backoff (pu_config u) k (ue_random env i k)")
        case b: (Inl x)
        then show ?thesis using Suc.prems up Inl True by (auto simp: Let_def)
      next
        case b: (Inr d)
        let ?u3 = "?u2\<lparr>pu_sleeps := d # pu_sleeps ?u2\<rparr>"
        have "upload_attempts env i staged n (Suc k) ?u3 = (u', r)"
          using Suc.prems(5) up Inl True b by (simp add: Let_def)
        moreover have "sleeps_ok ?u3" using Suc.prems(1) backoff_bounded [OF b] by (simp add: sleeps_ok_def)
        ultimately show ?thesis using Suc.IH [of ?u3 "Suc k"] Suc.prems k by simp
      qed
    qed
  qed
qed simp

lemma upload_with_retries_ok:
  assumes "sleeps_ok u" "0 < uc_max_attempts (pu_config u)" "upload_with_retries env i staged u = (u', r)"
  shows "sleeps_ok u'" "pu_config u' = pu_config u" "r = Inr out \<Longrightarrow> outcome_ok (pu_config u) out"
  using upload_attempts_ok [of u 1 "nat (uc_max_attempts (pu_config u))" env i staged u' r] assms
  by (auto simp: upload_with_retries_def)

text \<open>The invariant of the scheduler, for a batch of \<open>n\<close> packs.\<close>

definition sched_inv :: "upload_config \<Rightarrow> nat \<Rightarrow> schedule \<Rightarrow> bool" where
  "sched_inv cfg n sc \<longleftrightarrow> distinct (map fst (sc_remaining sc @ sc_futures sc)) \<and> length (sc_ordered sc) = n
     \<and> fst ` set (sc_remaining sc @ sc_futures sc) = {i. i < n \<and> sc_ordered sc ! i = None}
     \<and> sc_active_bytes sc = sum_list (map (\<lambda>f. stg_object_bytes (snd f)) (sc_futures sc))
     \<and> sc_active_bytes sc \<le> uc_max_in_flight_bytes cfg \<and> int (length (sc_futures sc)) \<le> uc_max_workers cfg
     \<and> int (sc_peak_active sc) \<le> uc_max_workers cfg \<and> sc_peak_bytes sc \<le> uc_max_in_flight_bytes cfg
     \<and> (\<forall>f \<in> set (sc_remaining sc @ sc_futures sc). 0 \<le> stg_object_bytes (snd f) \<and> stg_object_bytes (snd f) \<le> uc_max_in_flight_bytes cfg)
     \<and> (\<forall>out. Some out \<in> set (sc_ordered sc) \<longrightarrow> outcome_ok cfg out)"

lemma pop_first_Some:
  "pop_first P xs = Some (y, ys) \<Longrightarrow> P y \<and> mset xs = add_mset y (mset ys)"
  by (induction xs arbitrary: ys) (auto split: if_splits)

lemma pop_first_None: "pop_first P xs = None \<longleftrightarrow> list_all (\<lambda>x. \<not> P x) xs"
  by (induction xs) auto

lemma submit_all_inv:
  "sched_inv cfg n sc \<Longrightarrow> 0 < uc_max_workers cfg \<Longrightarrow> sched_inv cfg n (submit_all cfg sc)
   \<and> length (sc_remaining (submit_all cfg sc)) + length (sc_futures (submit_all cfg sc)) = length (sc_remaining sc) + length (sc_futures sc)
   \<and> (sc_futures (submit_all cfg sc) = [] \<longrightarrow> sc_remaining sc = [] \<and> sc_futures sc = [])"
proof (induction cfg sc rule: submit_all.induct)
  case (1 cfg sc)
  let ?pop = "pop_first (\<lambda>e. sc_active_bytes sc + stg_object_bytes (snd e) \<le> uc_max_in_flight_bytes cfg) (sc_remaining sc)"
  show ?case
  proof (cases "int (length (sc_futures sc)) < uc_max_workers cfg \<and> ?pop \<noteq> None")
    case False
    have "submit_all cfg sc = sc" using False by (subst submit_all.simps) (cases ?pop; simp)
    moreover have "sc_remaining sc = []" if "sc_futures sc = []"
    proof (cases "sc_remaining sc")
      case (Cons f rest)
      have "?pop = None" using False that "1.prems"(2) by (cases ?pop) auto
      then have "\<not> stg_object_bytes (snd f) \<le> uc_max_in_flight_bytes cfg"
        using that "1.prems"(1) Cons by (simp add: pop_first_None sched_inv_def)
      then show ?thesis using "1.prems"(1) Cons by (simp add: sched_inv_def)
    qed
    ultimately show ?thesis using "1.prems"(1) by simp
  next
    case True
    then obtain e rest where pop: "?pop = Some (e, rest)" by force
    let ?sc = "sc\<lparr>sc_remaining := rest, sc_futures := sc_futures sc @ [e], sc_active_bytes := sc_active_bytes sc + stg_object_bytes (snd e),
       sc_peak_active := max (sc_peak_active sc) (length (sc_futures sc @ [e])),
       sc_peak_bytes := max (sc_peak_bytes sc) (sc_active_bytes sc + stg_object_bytes (snd e))\<rparr>"
    have eq: "submit_all cfg sc = submit_all cfg ?sc" using True pop by (subst submit_all.simps) (simp add: Let_def)
    note p = pop_first_Some [OF pop]
    have ms: "mset (rest @ sc_futures sc @ [e]) = mset (sc_remaining sc @ sc_futures sc)" using p by simp
    have set: "set (rest @ sc_futures sc @ [e]) = set (sc_remaining sc @ sc_futures sc)" by (rule mset_eq_setD [OF ms])
    have "mset (map fst (rest @ sc_futures sc @ [e])) = mset (map fst (sc_remaining sc @ sc_futures sc))"
      using ms by (metis mset_map)
    then have d: "distinct (map fst (rest @ sc_futures sc @ [e]))"
      using "1.prems"(1) by (metis mset_eq_imp_distinct_iff sched_inv_def)
    have inv: "sched_inv cfg n ?sc"
      using "1.prems"(1) True p d set unfolding sched_inv_def by (simp add: of_nat_max)
    show ?thesis
      using "1.IH" [OF _ pop refl refl refl inv "1.prems"(2)] True eq pop_first_length [OF pop] by simp
  qed
qed

lemma without_split:
  assumes "distinct (map fst fs)" "f \<in> set fs"
  obtains as bs where "fs = as @ f # bs" "without f fs = as @ bs"
proof -
  obtain as bs where fs: "fs = as @ f # bs" using assms(2) by (auto simp: in_set_conv_decomp)
  have "filter (\<lambda>g. fst g \<noteq> fst f) as = as" "filter (\<lambda>g. fst g \<noteq> fst f) bs = bs"
    using assms(1) unfolding fs by (auto simp: filter_id_conv image_iff)
  with fs that show ?thesis by (simp add: without_def)
qed

lemma complete_one_inv:
  assumes inv: "sched_inv cfg n sc" and f: "f \<in> set (sc_futures sc)" and out: "outcome_ok cfg out"
  defines "sc' \<equiv> sc\<lparr>sc_futures := without f (sc_futures sc), sc_active_bytes := sc_active_bytes sc - stg_object_bytes (snd f),
      sc_ordered := (sc_ordered sc)[fst f := Some out]\<rparr>"
  shows "sched_inv cfg n sc'" "Suc (length (sc_futures sc')) = length (sc_futures sc)" "set (sc_futures sc') = set (sc_futures sc) - {f}"
proof -
  have d: "distinct (map fst (sc_futures sc))" using inv by (simp add: sched_inv_def)
  from d f obtain as bs where s: "sc_futures sc = as @ f # bs" "without f (sc_futures sc) = as @ bs" by (rule without_split)
  have dr: "distinct (map fst (sc_remaining sc @ as @ f # bs))" using inv by (simp add: sched_inv_def s)
  have n: "fst f < n" "length (sc_ordered sc) = n"
    using inv f by (auto simp: sched_inv_def)
  have "fst ` set (sc_remaining sc @ as @ bs) = fst ` set (sc_remaining sc @ as @ f # bs) - {fst f}"
    using dr by (auto simp: image_iff)
  also have "\<dots> = {i. i < n \<and> sc_ordered sc ! i = None} - {fst f}" using inv by (simp add: sched_inv_def s)
  also have "\<dots> = {i. i < n \<and> (sc_ordered sc)[fst f := Some out] ! i = None}"
    using n by (auto simp: nth_list_update)
  finally have k: "fst ` set (sc_remaining sc @ as @ bs) = {i. i < n \<and> (sc_ordered sc)[fst f := Some out] ! i = None}" .
  have o: "outcome_ok cfg x" if "Some x \<in> set ((sc_ordered sc)[fst f := Some out])" for x
    using that inv out set_update_subset_insert [of "sc_ordered sc" "fst f" "Some out"] by (auto simp: sched_inv_def)
  have b: "0 \<le> stg_object_bytes (snd f)" using inv f by (auto simp: sched_inv_def)
  have bs: "\<forall>g \<in> set (sc_remaining sc @ as @ bs). 0 \<le> stg_object_bytes (snd g) \<and> stg_object_bytes (snd g) \<le> uc_max_in_flight_bytes cfg"
    using inv by (simp add: sched_inv_def s)
  have d': "distinct (map fst (sc_remaining sc @ as @ bs))" using dr by simp
  have c: "sc_futures sc' = as @ bs" "sc_remaining sc' = sc_remaining sc" "sc_ordered sc' = (sc_ordered sc)[fst f := Some out]"
    "sc_active_bytes sc' = sc_active_bytes sc - stg_object_bytes (snd f)" "sc_peak_active sc' = sc_peak_active sc"
    "sc_peak_bytes sc' = sc_peak_bytes sc"
    by (simp_all add: sc'_def s(2))
  have i: "sc_active_bytes sc = sum_list (map (\<lambda>f. stg_object_bytes (snd f)) (as @ f # bs))"
    "sc_active_bytes sc \<le> uc_max_in_flight_bytes cfg" "int (length (as @ f # bs)) \<le> uc_max_workers cfg"
    "int (sc_peak_active sc) \<le> uc_max_workers cfg" "sc_peak_bytes sc \<le> uc_max_in_flight_bytes cfg"
    using inv by (simp_all add: sched_inv_def s(1))
  show "sched_inv cfg n sc'"
    unfolding sched_inv_def c using d' k o b bs n(2) i by (intro conjI allI impI; simp)
  show "Suc (length (sc_futures sc')) = length (sc_futures sc)" by (simp add: c s(1))
  show "set (sc_futures sc') = set (sc_futures sc) - {f}" using dr by (auto simp: c s(1) image_iff)
qed

lemma retries_fold:
  "sleeps_ok u \<Longrightarrow> 0 < uc_max_attempts (pu_config u)
   \<Longrightarrow> sleeps_ok (fold (\<lambda>g v. fst (upload_with_retries env (fst g) (snd g) v)) fs u)
     \<and> pu_config (fold (\<lambda>g v. fst (upload_with_retries env (fst g) (snd g) v)) fs u) = pu_config u"
proof (induction fs arbitrary: u)
  case (Cons g fs)
  obtain v r where v: "upload_with_retries env (fst g) (snd g) u = (v, r)" by (cases "upload_with_retries env (fst g) (snd g) u")
  from upload_with_retries_ok(1,2) [OF Cons.prems v] Cons.IH [of v] Cons.prems(2) v show ?case by simp
qed simp

lemma collect_inv:
  assumes "sched_inv (pu_config u) n sc" "sleeps_ok u" "0 < uc_max_attempts (pu_config u)"
    "distinct completed" "set completed \<subseteq> set (sc_futures sc)" "collect env completed sc u = ((sc', u'), r)"
  shows "sleeps_ok u' \<and> pu_config u' = pu_config u \<and> (\<forall>x. r = Inr x \<longrightarrow> sched_inv (pu_config u) n sc'
     \<and> length (sc_remaining sc') + length (sc_futures sc') + length completed = length (sc_remaining sc) + length (sc_futures sc))"
  using assms
proof (induction completed arbitrary: sc u)
  case (Cons f completed)
  obtain v res where up: "upload_with_retries env (fst f) (snd f) u = (v, res)" by (cases "upload_with_retries env (fst f) (snd f) u")
  note ok = upload_with_retries_ok [OF Cons.prems(2,3) up]
  show ?case
  proof (cases res)
    case (Inl e)
    with Cons.prems(6) up retries_fold [OF ok(1)] ok(2) Cons.prems(3) show ?thesis by (auto simp: Let_def)
  next
    case (Inr out)
    let ?sc = "sc\<lparr>sc_futures := without f (sc_futures sc), sc_active_bytes := sc_active_bytes sc - stg_object_bytes (snd f),
      sc_ordered := (sc_ordered sc)[fst f := Some out]\<rparr>"
    have f: "f \<in> set (sc_futures sc)" using Cons.prems(5) by simp
    note one = complete_one_inv [OF Cons.prems(1) f ok(3) [OF Inr]]
    have c: "collect env completed ?sc v = ((sc', u'), r)" using Cons.prems(6) up Inr by (simp add: Let_def)
    have "set completed \<subseteq> set (sc_futures ?sc)" using one(3) Cons.prems(4,5) by auto
    from Cons.IH [OF _ ok(1) _ _ this c] one(1) ok(2) Cons.prems(3,4) one(2) show ?thesis by auto
  qed
qed simp

lemma wait_first_props:
  "futures \<noteq> [] \<Longrightarrow> distinct futures \<Longrightarrow> wait_first indices futures \<noteq> [] \<and> set (wait_first indices futures) \<subseteq> set futures
     \<and> distinct (wait_first indices futures)"
  by (auto simp: wait_first_def Let_def intro: distinct_filter dest: in_set_takeD)

text \<open>The loop ends: every round completes at least one upload, and submits one when none is running.\<close>

lemma schedule_loop_ends:
  assumes "sched_inv (pu_config u) n sc" "sleeps_ok u" "0 < uc_max_attempts (pu_config u)" "0 < uc_max_workers (pu_config u)"
  shows "\<exists>sc' u' res. schedule_loop env r sc u = Some ((sc', u'), res) \<and> sleeps_ok u' \<and> pu_config u' = pu_config u
     \<and> (\<forall>x. res = Inr x \<longrightarrow> sched_inv (pu_config u) n sc' \<and> sc_remaining sc' = [] \<and> sc_futures sc' = [])"
  using assms
proof (induction "length (sc_remaining sc) + length (sc_futures sc)" arbitrary: r sc u rule: less_induct)
  case less
  show ?case
  proof (cases "sc_remaining sc = [] \<and> sc_futures sc = []")
    case True
    with less.prems show ?thesis by (subst schedule_loop.simps) simp
  next
    case False
    let ?sc = "submit_all (pu_config u) sc"
    have sub: "sched_inv (pu_config u) n ?sc" "length (sc_remaining ?sc) + length (sc_futures ?sc) = length (sc_remaining sc) + length (sc_futures sc)"
      "sc_futures ?sc \<noteq> []"
      using submit_all_inv [OF less.prems(1,4)] False by auto
    have "distinct (sc_futures ?sc)" using sub(1) by (simp add: sched_inv_def distinct_map)
    note w = wait_first_props [OF sub(3) this, of "ue_complete env r"]
    obtain sc2 u2 res where c: "collect env (wait_first (ue_complete env r) (sc_futures ?sc)) ?sc u = ((sc2, u2), res)"
      by (metis surj_pair)
    note ci = collect_inv [OF sub(1) less.prems(2,3) _ _ c]
    have step: "schedule_loop env r sc u = (case res of Inl e \<Rightarrow> Some ((sc2, u2), Inl e) | Inr _ \<Rightarrow> schedule_loop env (Suc r) sc2 u2)"
      unfolding schedule_loop.simps [of env r sc u] if_not_P [OF False] Let_def c fst_conv snd_conv ..
    show ?thesis
    proof (cases res)
      case (Inl e)
      then show ?thesis using step ci w by simp
    next
      case (Inr x)
      have inv2: "sched_inv (pu_config u2) n sc2" "sleeps_ok u2" "pu_config u2 = pu_config u"
        "length (sc_remaining sc2) + length (sc_futures sc2) < length (sc_remaining sc) + length (sc_futures sc)"
        using ci w Inr sub(2) by (auto simp: neq_Nil_conv)
      from less.hyps [OF inv2(4,1,2), of "Suc r"] less.prems(3,4) inv2(3) step Inr show ?thesis by simp
    qed
  qed
qed

lemma some_values_length: "list_all (\<lambda>x. x \<noteq> None) xs \<Longrightarrow> length (some_values xs) = length xs"
  by (induction xs) (auto simp: some_values_def)

lemma some_values_all: "list_all (\<lambda>x. x \<noteq> None) xs \<Longrightarrow> map Some (some_values xs) = xs"
  by (induction xs) (auto simp: some_values_def)

lemma some_values_xor:
  "list_all (\<lambda>x. (f x = None) \<noteq> (g x = None)) xs \<Longrightarrow> length (some_values (map f xs)) + length (some_values (map g xs)) = length xs"
  by (induction xs) (auto simp: some_values_def)

lemma batch_result_bounds:
  assumes inv: "sched_inv cfg n sc" and fin: "sc_remaining sc = []" "sc_futures sc = []"
  shows "\<exists>batch. batch_result sc u = Inr batch \<and> us_attempted_packs (ub_snapshot batch) = n
     \<and> us_uploaded_packs (ub_snapshot batch) = length (ub_refs batch) \<and> us_failed_packs (ub_snapshot batch) = length (ub_failures batch)
     \<and> length (ub_refs batch) + length (ub_failures batch) = n
     \<and> int (us_retries (ub_snapshot batch)) \<le> int n * (uc_max_attempts cfg - 1)
     \<and> int (us_peak_active_uploads (ub_snapshot batch)) \<le> uc_max_workers cfg
     \<and> us_peak_in_flight_bytes (ub_snapshot batch) \<le> uc_max_in_flight_bytes cfg"
proof -
  have len: "length (sc_ordered sc) = n" using inv by (simp add: sched_inv_def)
  have all: "list_all (\<lambda>x. x \<noteq> None) (sc_ordered sc)"
    using inv fin by (auto simp: sched_inv_def list_all_length)
  let ?out = "some_values (sc_ordered sc)"
  have l: "length ?out = n" using some_values_length [OF all] len by simp
  have ok: "list_all (outcome_ok cfg) ?out"
  proof -
    have "Some x \<in> set (sc_ordered sc)" if "x \<in> set ?out" for x
      using that some_values_all [OF all] by (metis image_eqI list.set_map)
    then show ?thesis using inv by (auto simp: sched_inv_def list_all_iff)
  qed
  then have x: "list_all (\<lambda>out. (oc_ref out = None) \<noteq> (oc_failure out = None)) ?out" by (auto simp: list_all_iff outcome_ok_def)
  have r: "int (sum_list (map (\<lambda>out. oc_attempts out - 1) xs)) \<le> int (length xs) * (uc_max_attempts cfg - 1)"
    if "list_all (outcome_ok cfg) xs" for xs
    using that by (induction xs) (auto simp: outcome_ok_def algebra_simps of_nat_diff)
  have no: "\<not> list_ex (\<lambda>out. out = None) (sc_ordered sc)" using all by (auto simp: list_all_iff list_ex_iff)
  have "sched_inv cfg n sc \<longrightarrow> int (sc_peak_active sc) \<le> uc_max_workers cfg \<and> sc_peak_bytes sc \<le> uc_max_in_flight_bytes cfg"
    by (simp add: sched_inv_def)
  with inv no len some_values_xor [OF x] r [OF ok] l show ?thesis by (simp add: batch_result_def Let_def)
qed

end
