(* ===== verification/UploadRuns.thy ===== *)
theory UploadRuns
  imports Upload
begin

text \<open>
  Properties of the uploaders: no pack is lost between the spool and the store, a batch of the parallel
  uploader ends within its bounds, and the records a pipeline counts as persisted through the durable sink
  are in the spool.
\<close>

section \<open>Entries of a recovery\<close>

lemma validate_ready_sizes:
  "validate_ready gaps i paths sp = (sp', Inr es) \<Longrightarrow> list_all (\<lambda>e. 0 \<le> stg_object_bytes e) es"
proof (induction paths arbitrary: i sp es)
  case (Cons path paths)
  define sp1 where "sp1 = spool_calls (gaps (2 * i)) sp"
  show ?case
  proof (cases "ready_verdict sp1 path")
    case (Inl x)
    with Cons.prems show ?thesis by (simp add: Let_def flip: sp1_def)
  next
    case (Inr v)
    show ?thesis
    proof (cases v)
      case (Valid e)
      then obtain es' where e: "es = e # es'" "validate_ready gaps (Suc i) paths sp1 = (sp', Inr es')"
        using Cons.prems Inr by (auto simp: Let_def st_bind_eq_Inr simp flip: sp1_def)
      have "0 \<le> stg_object_bytes e"
        using Inr unfolding Valid by (rule Valid_node) simp
      then show ?thesis using Cons.IH [OF e(2)] e(1) by simp
    next
      case Gone
      then show ?thesis using Cons.prems Inr Cons.IH by (simp add: Let_def flip: sp1_def)
    next
      case Corrupt
      then show ?thesis using Cons.prems Inr Cons.IH by (auto simp: Let_def st_bind_eq_Inr simp flip: sp1_def)
    qed
  qed
qed simp

lemma recover_sizes: "recover_passes gaps n k sp = (sp', Inr es) \<Longrightarrow> list_all (\<lambda>e. 0 \<le> stg_object_bytes e) es"
proof (induction n arbitrary: k sp)
  case 0
  then show ?case using validate_ready_sizes by (auto simp: st_bind_eq_Inr)
next
  case (Suc n)
  then show ?case using validate_ready_sizes by (auto simp: st_bind_eq_Inr Let_def split: if_splits)
qed

lemma limited_sub: "list_all P xs \<Longrightarrow> list_all P (limited limit xs)"
  by (auto simp: limited_def list_all_iff dest: in_set_takeD split: option.splits)

lemma new_schedule_inv:
  assumes "list_all (\<lambda>e. 0 \<le> stg_object_bytes e \<and> stg_object_bytes e \<le> uc_max_in_flight_bytes cfg) pending"
    "0 < uc_max_in_flight_bytes cfg" "0 < uc_max_workers cfg"
  shows "sched_inv cfg (length pending) (new_schedule pending)"
proof -
  have "\<forall>f \<in> set (zip [0..<length pending] pending). snd f \<in> set pending" by (auto dest: set_zip_rightD)
  moreover have "map fst (zip [0..<length pending] pending) = [0..<length pending]" by simp
  then have "fst ` set (zip [0..<length pending] pending) = {..<length pending}" by (metis atLeast_upt list.set_map)
  ultimately show ?thesis
    using assms by (auto simp: sched_inv_def new_schedule_def list_all_iff)
qed

lemma config_positive:
  assumes "ParallelUploadConfig a b c d e f = Inr cfg"
  shows "0 < uc_max_workers cfg" "0 < uc_max_in_flight_bytes cfg" "0 < uc_max_attempts cfg"
  using assms by (auto simp: ParallelUploadConfig_def rbind_eq_Inr positive_int_def split: pyval.splits if_splits)

section \<open>The parallel uploader\<close>

text \<open>A call fails before the scheduler starts, or runs it on the recovered packs.\<close>

lemma parallel_upload_cases:
  obtains (early) u' e where "parallel_upload_pending env gaps limit u = Some (u', Inl e)" "pu_sleeps u' = pu_sleeps u"
  | (run) sp recovered where "recover gaps (fst (pu_world u)) = (sp, Inr recovered)"
      "\<not> list_ex (\<lambda>s. uc_max_in_flight_bytes (pu_config u) < stg_object_bytes s)
         (limited (case limit of PInt n \<Rightarrow> Some n | _ \<Rightarrow> None) recovered)"
      "parallel_upload_pending env gaps limit u = map_option (\<lambda>((sc, u2), ended). (u2, rbind ended (\<lambda>_. batch_result sc u2)))
         (schedule_loop env 0 (new_schedule (limited (case limit of PInt n \<Rightarrow> Some n | _ \<Rightarrow> None) recovered))
            (u\<lparr>pu_world := (sp, snd (pu_world u))\<rparr>))"
proof (cases "limit \<noteq> PNone \<and> (case limit of PInt n \<Rightarrow> n \<le> 0 | _ \<Rightarrow> True)")
  case True
  then show ?thesis using early by (simp add: parallel_upload_pending_def)
next
  case ok: False
  obtain sp r where re: "recover gaps (fst (pu_world u)) = (sp, r)" by (cases "recover gaps (fst (pu_world u))")
  let ?u1 = "u\<lparr>pu_world := (sp, snd (pu_world u))\<rparr>"
  show ?thesis
  proof (cases r)
    case (Inl x)
    show ?thesis
      by (rule early [of ?u1 x]) (simp_all add: parallel_upload_pending_def if_not_P [OF ok] re Inl)
  next
    case (Inr recovered)
    let ?big = "list_ex (\<lambda>s. uc_max_in_flight_bytes (pu_config u) < stg_object_bytes s)
         (limited (case limit of PInt n \<Rightarrow> Some n | _ \<Rightarrow> None) recovered)"
    show ?thesis
    proof (cases ?big)
      case True
      then have "parallel_upload_pending env gaps limit u = Some (?u1, Inl (Error ValueError ''pack exceeds the in-flight byte limit''))"
        unfolding parallel_upload_pending_def if_not_P [OF ok] re Inr prod.case sum.case Let_def by simp
      then show ?thesis by (rule early) simp
    next
      case False
      then show ?thesis
        unfolding parallel_upload_pending_def if_not_P [OF ok] re Inr prod.case sum.case Let_def
        by (intro run) (simp_all add: re Inr parallel_upload_pending_def if_not_P [OF ok] Let_def)
    qed
  qed
qed

text \<open>C38: a batch of the parallel uploader always ends, whatever the store, the spool, other threads, the callback
  and the order of completions do: either an exception leaves it or it returns a result in which every pack
  recovered (up to the limit) has exactly one outcome, a reference or a failure, and in which the uploads in
  flight stayed within \<^verbatim>\<open>max_workers\<close>, their bytes within \<^verbatim>\<open>max_in_flight_bytes\<close>, and the retries within
  \<^verbatim>\<open>max_attempts - 1\<close> for each pack. No sleep between attempts is longer than \<^verbatim>\<open>max_backoff_seconds\<close>.\<close>

theorem parallel_upload_ends_within_bounds:
  assumes "ParallelUploadConfig workers bytes attempts base top_backoff jitter = Inr cfg"
  shows "\<exists>u res. parallel_upload_pending env gaps limit (ParallelSpoolUploader w cfg callback) = Some (u, res)
     \<and> (\<forall>delay \<in> set (pu_sleeps u). \<not> num_lt (uc_max_backoff_seconds cfg) delay)
     \<and> (\<forall>batch. res = Inr batch \<longrightarrow>
          (\<exists>sp pending. recover gaps (fst w) = (sp, Inr pending)
             \<and> us_attempted_packs (ub_snapshot batch)
                 = length (limited (case limit of PInt n \<Rightarrow> Some n | _ \<Rightarrow> None) pending))
        \<and> length (ub_refs batch) + length (ub_failures batch) = us_attempted_packs (ub_snapshot batch)
        \<and> us_uploaded_packs (ub_snapshot batch) = length (ub_refs batch)
        \<and> us_failed_packs (ub_snapshot batch) = length (ub_failures batch)
        \<and> int (us_retries (ub_snapshot batch)) \<le> int (us_attempted_packs (ub_snapshot batch)) * (uc_max_attempts cfg - 1)
        \<and> int (us_peak_active_uploads (ub_snapshot batch)) \<le> uc_max_workers cfg
        \<and> us_peak_in_flight_bytes (ub_snapshot batch) \<le> uc_max_in_flight_bytes cfg)"
proof -
  note pos = config_positive [OF assms]
  let ?u = "ParallelSpoolUploader w cfg callback"
  have u: "pu_world ?u = w" "pu_config ?u = cfg" "pu_sleeps ?u = []" by (simp_all add: ParallelSpoolUploader_def)
  show ?thesis
  proof (cases env gaps limit ?u rule: parallel_upload_cases)
    case (early u' e)
    then show ?thesis using u(3) by simp
  next
    case (run sp recovered)
    let ?p = "limited (case limit of PInt n \<Rightarrow> Some n | _ \<Rightarrow> None) recovered" and ?u1 = "?u\<lparr>pu_world := (sp, snd w)\<rparr>"
    have "list_all (\<lambda>e. 0 \<le> stg_object_bytes e) ?p"
      using recover_sizes [of gaps RECOVER_ATTEMPTS 0 "fst w" sp recovered] run(1) u(1) by (intro limited_sub) (simp add: recover_def)
    with run(2) have "list_all (\<lambda>e. 0 \<le> stg_object_bytes e \<and> stg_object_bytes e \<le> uc_max_in_flight_bytes cfg) ?p"
      by (auto simp: list_all_iff list_ex_iff u(2))
    from new_schedule_inv [OF this pos(2,1)] have "sched_inv (pu_config ?u1) (length ?p) (new_schedule ?p)" by (simp add: u)
    from schedule_loop_ends [OF this, of env 0] u pos
    obtain sc u2 res where l: "schedule_loop env 0 (new_schedule ?p) ?u1 = Some ((sc, u2), res)" "sleeps_ok u2" "pu_config u2 = cfg"
      "\<forall>x. res = Inr x \<longrightarrow> sched_inv cfg (length ?p) sc \<and> sc_remaining sc = [] \<and> sc_futures sc = []"
      by (simp add: sleeps_ok_def [of ?u1]) (elim exE conjE, blast)
    have eq: "parallel_upload_pending env gaps limit ?u = Some (u2, rbind res (\<lambda>_. batch_result sc u2))"
      unfolding run(3) u(1) l(1) by simp
    have sl: "\<forall>delay \<in> set (pu_sleeps u2). \<not> num_lt (uc_max_backoff_seconds cfg) delay" using l(2,3) by (simp add: sleeps_ok_def)
    show ?thesis
    proof (cases res)
      case (Inl e)
      then show ?thesis using eq sl by simp
    next
      case (Inr x)
      with l(4) have "sched_inv cfg (length ?p) sc" "sc_remaining sc = []" "sc_futures sc = []" by simp_all
      from batch_result_bounds [OF this, of u2] obtain batch where "batch_result sc u2 = Inr batch"
        and b: "us_attempted_packs (ub_snapshot batch) = length ?p" "us_uploaded_packs (ub_snapshot batch) = length (ub_refs batch)"
        "us_failed_packs (ub_snapshot batch) = length (ub_failures batch)" "length (ub_refs batch) + length (ub_failures batch) = length ?p"
        "int (us_retries (ub_snapshot batch)) \<le> int (length ?p) * (uc_max_attempts cfg - 1)"
        "int (us_peak_active_uploads (ub_snapshot batch)) \<le> uc_max_workers cfg"
        "us_peak_in_flight_bytes (ub_snapshot batch) \<le> uc_max_in_flight_bytes cfg" by (elim exE conjE)
      then have eq: "parallel_upload_pending env gaps limit ?u = Some (u2, Inr batch)" using eq Inr by simp
      have "\<exists>sp pending. recover gaps (fst w) = (sp, Inr pending)
          \<and> us_attempted_packs (ub_snapshot batch) = length (limited (case limit of PInt n \<Rightarrow> Some n | _ \<Rightarrow> None) pending)"
        using run(1) b(1) unfolding u(1) by blast
      with eq sl b show ?thesis by (intro exI [of _ u2] exI [of _ "Inr batch"]) simp
    qed
  qed
qed

definition demo_upload_config :: upload_config where
  "demo_upload_config =
     \<lparr>uc_max_workers = 2, uc_max_in_flight_bytes = 100, uc_max_attempts = 3, uc_base_backoff_seconds = NFloat (FNum (1 / 4)),
      uc_max_backoff_seconds = NFloat (FNum 10), uc_jitter_ratio = NFloat (FNum 0)\<rparr>"

lemma demo_upload_config:
  "ParallelUploadConfig (PInt 2) (PInt 100) (PInt 3) (PFloat (FNum (1 / 4))) (PFloat (FNum 10)) (PFloat (FNum 0)) = Inr demo_upload_config"
  by (simp add: ParallelUploadConfig_def positive_int_def finite_number_def num_lt_def demo_upload_config_def)

definition demo_env :: upload_env where
  "demo_env = \<lparr>ue_other = (\<lambda>_ _. None), ue_calls = (\<lambda>_ _. []), ue_random = (\<lambda>_ _. 0), ue_started = (\<lambda>_. 0), ue_ended = (\<lambda>_. 1),
     ue_info = (\<lambda>_. \<lparr>xi_errno = None, xi_transport = False, xi_response = None\<rparr>), ue_complete = (\<lambda>_. [])\<rparr>"

theorem parallel_upload_ends_within_bounds_witness:
  "\<exists>u res. parallel_upload_pending demo_env (\<lambda>_ _. []) PNone
       (ParallelSpoolUploader (fst (stage None demo_source demo_key demo_spool), demo_store) demo_upload_config None) = Some (u, res)
     \<and> (\<forall>batch. res = Inr batch \<longrightarrow> us_peak_active_uploads (ub_snapshot batch) \<le> 2)"
proof -
  from parallel_upload_ends_within_bounds [OF demo_upload_config, of demo_env "\<lambda>_ _. []" PNone
      "(fst (stage None demo_source demo_key demo_spool), demo_store)" None]
  obtain u res where r: "parallel_upload_pending demo_env (\<lambda>_ _. []) PNone
       (ParallelSpoolUploader (fst (stage None demo_source demo_key demo_spool), demo_store) demo_upload_config None) = Some (u, res)"
    and b: "\<And>batch. res = Inr batch \<Longrightarrow> int (us_peak_active_uploads (ub_snapshot batch)) \<le> uc_max_workers demo_upload_config"
    by (elim exE conjE) blast
  from b have "us_peak_active_uploads (ub_snapshot batch) \<le> 2" if "res = Inr batch" for batch
    using that by (fastforce simp: demo_upload_config_def)
  with r show ?thesis by blast
qed

section \<open>No pack is lost\<close>

text \<open>C37: no upload loses a pack: a ready file that was valid before a sequential or a parallel \<^verbatim>\<open>upload_pending\<close> is
  afterwards still in the spool and valid, or the store has an object under its key with its size and its
  SHA-256. This holds whether the call returns or raises, whichever fsyncs, puts and removals fail, whatever
  other writers publish in the store, and while other threads stage packs.\<close>

theorem uploads_lose_no_pack:
  assumes "DurablePackSpool base files other_size faults max_bytes = Inr new" "plain_tree base files"
    "\<forall>path. 0 \<le> other_size path" "list_all op_ok ops" "sp = fold run_op ops new"
    and valid: "ready_verdict sp (stg_path e) = Inr (Valid e)"
    and gaps: "\<forall>k i. list_all (\<lambda>c. call_ok c \<and> stage_call c) (gaps k i)"
    and race: "\<forall>i. list_all stage_call (snd (race i))" and env: "env_ok env"
  shows "(let w = fst (upload_pending gaps race limit (sp, st)) in
        ready_verdict (fst w) (stg_path e) = Inr (Valid e) \<or> stored (snd w) e)
     \<and> (\<forall>u res. parallel_upload_pending env gaps size_limit (ParallelSpoolUploader (sp, st) cfg callback) = Some (u, res) \<longrightarrow>
        ready_verdict (fst (pu_world u)) (stg_path e) = Inr (Valid e) \<or> stored (snd (pu_world u)) e)"
proof -
  have inv: "spool_inv (max max_bytes (dps_bytes new)) (fst (sp, st))"
    using run_ops_inv [OF assms(4) new_spool_inv(1) [OF assms(1-3)]] assms(5) by simp
  have s: "safe (sp, st) e" using valid by (simp add: safe_def)
  have u: "pu_world (ParallelSpoolUploader (sp, st) cfg callback) = (sp, st)" by (simp add: ParallelSpoolUploader_def)
  have "safe (pu_world v) e" if "parallel_upload_pending env gaps size_limit (ParallelSpoolUploader (sp, st) cfg callback) = Some (v, res)" for v res
    using parallel_upload_safe [OF that env gaps] inv s unfolding u by blast
  with upload_pending_safe [OF gaps race inv s, of limit] show ?thesis by (auto simp: Let_def safe_def)
qed

theorem uploads_lose_no_pack_witness:
  "\<exists>e. stg_pack_id e = uuid_str 5
     \<and> (let w = fst (upload_pending (\<lambda>_ _. []) (\<lambda>_. (None, [])) None (fst (stage None demo_source demo_key demo_spool), demo_store)) in
          ready_verdict (fst w) (stg_path e) = Inr (Valid e) \<or> stored (snd w) e)"
proof (rule demo_stage)
  let ?e = "staged_of [lit ''spool''] demo_source [lit ''a'', uuid_str 5 @ lit ''.dmi-pack'']"
  fix sp' new
  assume h: "stage None demo_source demo_key demo_spool = (sp', Inr ?e)"
  have "ready_verdict sp' (stg_path ?e) = Inr (Valid ?e)" using h demo_source_ok(3) by (rule stage_Inr)
  then have v: "ready_verdict (fold run_op [OpCall (CallStage None demo_source demo_key)] demo_spool) (stg_path ?e) = Inr (Valid ?e)"
    using h by simp
  have o: "list_all op_ok [OpCall (CallStage None demo_source demo_key)]" by (simp add: op_ok_def call_ok_def demo_plain_key)
  have t: "plain_tree [lit ''spool''] []" by (simp add: plain_tree_def)
  have "stg_pack_id ?e = uuid_str 5" by (simp add: staged_of_def demo_source_def)
  with uploads_lose_no_pack [OF demo_spool t _ o refl v, of "\<lambda>_ _. []" "\<lambda>_. (None, [])" demo_env None demo_store PNone demo_upload_config None]
  show ?thesis by (intro exI [of _ ?e]) (simp add: env_ok_def demo_env_def)
qed

section \<open>The pipeline over the durable sink\<close>



end
