(* ===== verification/Reader.thy ===== *)
theory Reader
  imports PackStore "HOL-Library.Multiset"
begin

text \<open>
  The capture reader of \<^verbatim>\<open>storage/capture/reader.py\<close>: resolving a selection, planning coalesced range reads,
  binding catalog descriptors to pack footers through a bounded cache, and fetching payloads under byte and
  request limits. Every range read the reader issues is recorded in a log, so that the limits can be stated
  of it. The catalog and the stores are handles, records of the operations the reader calls.
\<close>

section \<open>Handles\<close>

record capture_page =
  page_items :: "capture_descriptor list"
  page_next_cursor :: "pystr option"
  page_watermark :: pystr

record catalog_handle =
  cat_search :: "capture_query \<Rightarrow> capture_page result"
  cat_get_by_ids :: "pystr list \<Rightarrow> pystr \<Rightarrow> pystr \<Rightarrow> capture_descriptor list result"

record store_handle =
  sh_store_id :: pystr
  sh_read_range :: "pack_ref \<Rightarrow> int \<Rightarrow> int \<Rightarrow> bytes result"

section \<open>Budgets and the footer cache\<close>

type_synonym record_locator = "int \<times> int \<times> int \<times> pystr \<times> pystr"

definition record_locator :: "capture_descriptor \<Rightarrow> record_locator" where
  "record_locator d =
     (let loc = desc_locator d in
      (loc_offset loc, loc_stored_length loc, loc_decoded_length loc, loc_codec loc, loc_checksum loc))"

record read_range =
  rr_indexes :: "nat list"
  rr_offset :: int
  rr_length :: int

record object_plan =
  op_store_id :: pystr
  op_pack_id :: pystr
  op_object_key :: pystr
  op_indexes :: "nat list"
  op_ranges :: "read_range list"

record footer_entry =
  fe_descriptors :: "(pystr \<times> capture_descriptor) list"
  fe_wire_bytes :: int

record read_budget =
  rb_requests :: int
  rb_bytes :: int

definition consume :: "int \<Rightarrow> read_budget \<Rightarrow> read_budget result" where
  "consume len b =
     (if rb_requests b < 1 then Inl (Error HydrationLimitError ''hydration request limit exceeded'')
      else if rb_bytes b < len then Inl (Error HydrationLimitError ''hydration byte limit exceeded'')
      else Inr \<lparr>rb_requests = rb_requests b - 1, rb_bytes = rb_bytes b - len\<rparr>)"

type_synonym read_log = "(pack_ref \<times> int \<times> int) list"

definition budgeted_read ::
  "store_handle \<Rightarrow> pack_ref \<Rightarrow> int \<Rightarrow> int \<Rightarrow> read_budget \<times> read_log \<Rightarrow> (read_budget \<times> read_log) \<times> bytes result" where
  "budgeted_read store ref off len s =
     (case consume len (fst s) of
        Inl e \<Rightarrow> (s, Inl e)
      | Inr b \<Rightarrow> ((b, snd s @ [(ref, off, len)]), sh_read_range store ref off len))"

type_synonym cache_key = "pystr \<times> pystr \<times> pystr"

record footer_cache =
  fc_entries :: "(cache_key \<times> footer_entry) list"
  fc_limit :: int
  fc_bytes_limit :: int
  fc_bytes :: int

definition FOOTER_CACHE_PACKS :: int where "FOOTER_CACHE_PACKS = 128"
definition FOOTER_CACHE_BYTES :: int where "FOOTER_CACHE_BYTES = 64 * 1024 * 1024"

definition cache_key_of :: "pack_ref \<Rightarrow> cache_key" where
  "cache_key_of ref = (ref_store_id ref, ref_pack_id ref, ref_checksum ref)"

definition move_to_end :: "cache_key \<Rightarrow> footer_entry \<Rightarrow> footer_cache \<Rightarrow> footer_cache" where
  "move_to_end key entry c = c\<lparr>fc_entries := filter (\<lambda>e. fst e \<noteq> key) (fc_entries c) @ [(key, entry)]\<rparr>"

definition bind_to_its_key :: "pack_ref \<Rightarrow> footer_entry \<Rightarrow> (pystr \<times> capture_descriptor) list result" where
  "bind_to_its_key ref cached =
     rbind (reject_a_foreign_tenant ref (map (\<lambda>d. md_tenant_id (desc_metadata (snd d))) (fe_descriptors cached)))
       (\<lambda>_. Inr (fe_descriptors cached))"

fun evict :: "int \<Rightarrow> int \<Rightarrow> int \<Rightarrow> (cache_key \<times> footer_entry) list \<Rightarrow> int \<Rightarrow> (cache_key \<times> footer_entry) list \<times> int" where
  "evict wire limit bytes_limit [] bytes = ([], bytes)"
| "evict wire limit bytes_limit (e # es) bytes =
     (if limit \<le> int (length (e # es)) \<or> bytes_limit < bytes + wire
      then evict wire limit bytes_limit es (bytes - fe_wire_bytes (snd e))
      else (e # es, bytes))"

definition cache_insert :: "cache_key \<Rightarrow> footer_entry \<Rightarrow> footer_cache \<Rightarrow> footer_cache" where
  "cache_insert key entry c =
     (if 0 < fc_limit c \<and> fe_wire_bytes entry \<le> fc_bytes_limit c then
        (case evict (fe_wire_bytes entry) (fc_limit c) (fc_bytes_limit c) (fc_entries c) (fc_bytes c) of
           (es, bytes) \<Rightarrow> c\<lparr>fc_entries := es @ [(key, entry)], fc_bytes := bytes + fe_wire_bytes entry\<rparr>)
      else c)"

text \<open>\<^verbatim>\<open>{item.capture_id: item for item in items}\<close>\<close>

definition footer_dict :: "capture_descriptor list \<Rightarrow> (pystr \<times> capture_descriptor) list" where
  "footer_dict ds = foldl (\<lambda>m d. dict_set (desc_capture_id d) d m) [] ds"

text \<open>The part of \<^verbatim>\<open>_footer_descriptors\<close> after the read: the cache is looked at again, as another thread may have
  filled it.\<close>

definition footer_keep ::
  "pack_ref \<Rightarrow> footer_entry \<Rightarrow> footer_cache \<Rightarrow> footer_cache \<times> (pystr \<times> capture_descriptor) list result" where
  "footer_keep ref entry c =
     (let key = cache_key_of ref in
      case map_of (fc_entries c) key of
        Some cached \<Rightarrow> (move_to_end key cached c, bind_to_its_key ref cached)
      | None \<Rightarrow> (cache_insert key entry c, Inr (fe_descriptors entry)))"

definition footer_descriptors ::
  "store_handle \<Rightarrow> pack_ref \<Rightarrow> footer_cache \<Rightarrow> read_budget \<times> read_log
   \<Rightarrow> footer_cache \<times> (read_budget \<times> read_log) \<times> (pystr \<times> capture_descriptor) list result" where
  "footer_descriptors store ref c s =
     (let key = cache_key_of ref in
      case map_of (fc_entries c) key of
        Some cached \<Rightarrow> (move_to_end key cached c, s, bind_to_its_key ref cached)
      | None \<Rightarrow>
          (case from_store_st (sh_store_id store) (budgeted_read store) ref s of
             (s1, Inl e) \<Rightarrow> (c, s1, Inl e)
           | (s1, Inr pidx) \<Rightarrow>
               (case index_descriptors pidx of
                  Inl e \<Rightarrow> (c, s1, Inl e)
                | Inr ds \<Rightarrow>
                    (case footer_keep ref \<lparr>fe_descriptors = footer_dict ds, fe_wire_bytes = pi_footer_read_bytes pidx\<rparr> c of
                       (c1, r) \<Rightarrow> (c1, s1, r)))))"

definition require_footer_match :: "capture_descriptor \<Rightarrow> (pystr \<times> capture_descriptor) list \<Rightarrow> unit result" where
  "require_footer_match d footer =
     (case map_of footer (desc_capture_id d) of
        None \<Rightarrow> Inl (Error PackFormatError ''catalog descriptor does not match the pack footer'')
      | Some auth \<Rightarrow>
          if desc_metadata d \<noteq> desc_metadata auth
          then Inl (Error PackFormatError ''catalog descriptor does not match the pack footer: metadata'')
          else if record_locator d \<noteq> record_locator auth
          then Inl (Error PackFormatError ''catalog descriptor does not match the pack footer: locator'')
          else Inr ())"

section \<open>Planning\<close>

fun group_insert :: "'k \<Rightarrow> nat \<Rightarrow> ('k \<times> nat list) list \<Rightarrow> ('k \<times> nat list) list" where
  "group_insert k i [] = [(k, [i])]"
| "group_insert k i ((k', is) # g) = (if k = k' then (k', is @ [i]) # g else (k', is) # group_insert k i g)"

definition object_of :: "capture_descriptor \<Rightarrow> pystr \<times> pystr \<times> pystr" where
  "object_of d = (let loc = desc_locator d in (loc_store_id loc, loc_pack_id loc, loc_object_key loc))"

definition grouped :: "capture_descriptor list \<Rightarrow> ((pystr \<times> pystr \<times> pystr) \<times> nat list) list" where
  "grouped ds = foldl (\<lambda>g i. group_insert (object_of (ds ! i)) i g) [] [0..<length ds]"

fun plan_ranges :: "int \<Rightarrow> capture_descriptor list \<Rightarrow> nat list \<Rightarrow> int \<Rightarrow> int \<Rightarrow> nat list \<Rightarrow> read_range list" where
  "plan_ranges gap ds current start end [] =
     (if current = [] then [] else [\<lparr>rr_indexes = current, rr_offset = start, rr_length = end - start\<rparr>])"
| "plan_ranges gap ds current start end (i # is) =
     (let loc = desc_locator (ds ! i); last = loc_offset loc + loc_stored_length loc in
      if current = [] then plan_ranges gap ds [i] (loc_offset loc) last is
      else if loc_offset loc \<le> end + gap then plan_ranges gap ds (current @ [i]) start (max end last) is
      else \<lparr>rr_indexes = current, rr_offset = start, rr_length = end - start\<rparr>
           # plan_ranges gap ds [i] (loc_offset loc) last is)"

definition plan_group :: "int \<Rightarrow> capture_descriptor list \<Rightarrow> (pystr \<times> pystr \<times> pystr) \<times> nat list \<Rightarrow> object_plan" where
  "plan_group gap ds g =
     (case g of ((store_id, pack_id, object_key), indexes) \<Rightarrow>
        let sorted = sort_key (\<lambda>i. loc_offset (desc_locator (ds ! i))) indexes
        in \<lparr>op_store_id = store_id, op_pack_id = pack_id, op_object_key = object_key, op_indexes = sorted,
            op_ranges = plan_ranges gap ds [] 0 0 sorted\<rparr>)"

definition plan :: "int \<Rightarrow> capture_descriptor list \<Rightarrow> object_plan list" where
  "plan gap ds = map (plan_group gap ds) (grouped ds)"

section \<open>The reader\<close>

record reader =
  r_catalog :: catalog_handle
  r_stores :: "(pystr \<times> store_handle) list"
  r_gap :: int
  r_cache :: footer_cache

definition CaptureReader :: "catalog_handle \<Rightarrow> (pystr \<times> store_handle) list \<Rightarrow> int \<Rightarrow> reader result" where
  "CaptureReader catalog stores gap =
     (if gap < 0 then Inl (Error ValueError ''max_coalesce_gap_bytes must be non-negative'')
      else if stores = [] then Inl (Error ValueError ''at least one pack store is required'')
      else if \<not> list_all (\<lambda>(k, s). k = sh_store_id s) stores
      then Inl (Error ValueError ''store mapping key does not match'')
      else Inr \<lparr>r_catalog = catalog, r_stores = stores, r_gap = gap,
                r_cache = \<lparr>fc_entries = [], fc_limit = FOOTER_CACHE_PACKS, fc_bytes_limit = FOOTER_CACHE_BYTES,
                           fc_bytes = 0\<rparr>\<rparr>)"

definition select :: "reader \<Rightarrow> capture_query \<Rightarrow> capture_selection result" where
  "select r query =
     rbind (cat_search (r_catalog r) query) (\<lambda>page.
       if page_next_cursor page \<noteq> None
       then Inl (Error ValueError ''selection exceeds one bounded page; narrow the query or paginate explicitly'')
       else CaptureSelection_create (page_items page) (page_watermark page) (filter_hash query))"

definition resolve :: "reader \<Rightarrow> capture_selection \<Rightarrow> capture_descriptor list result" where
  "resolve r sel =
     rbind (cat_get_by_ids (r_catalog r) (sel_capture_ids sel) (sel_tenant_id sel) (sel_catalog_watermark sel)) (\<lambda>ds.
       if \<not> distinct (map desc_capture_id ds)
       then Inl (Error DuplicateCaptureError ''catalog returned duplicate capture'')
       else if set (map desc_capture_id ds) \<noteq> set (sel_capture_ids sel)
       then Inl (Error PackFormatError ''selection no longer resolves at its catalog watermark'')
       else Inr (map (\<lambda>i. the (map_of (map (\<lambda>d. (desc_capture_id d, d)) ds) i)) (sel_capture_ids sel)))"

record hydration_estimate =
  he_capture_count :: int
  he_object_count :: int
  he_request_count :: int
  he_logical_bytes :: int
  he_stored_bytes :: int
  he_request_bytes :: int

definition plan_ref :: "capture_descriptor list \<Rightarrow> object_plan \<Rightarrow> pack_ref" where
  "plan_ref ds p = pack_ref_of (desc_locator (ds ! hd (op_indexes p)))"

definition payload_requests :: "object_plan list \<Rightarrow> int" where
  "payload_requests plans = sum_list (map (\<lambda>p. int (length (op_ranges p))) plans)"

definition planned_bytes :: "object_plan list \<Rightarrow> int" where
  "planned_bytes plans = sum_list (map rr_length (concat (map op_ranges plans)))"

definition estimate :: "reader \<Rightarrow> capture_selection \<Rightarrow> hydration_estimate result" where
  "estimate r sel =
     rbind (resolve r sel) (\<lambda>ds.
       let plans = plan (r_gap r) ds;
           footer_bytes = sum_list (map (\<lambda>p. max_footer_read_bytes (plan_ref ds p)) plans)
       in Inr \<lparr>he_capture_count = int (length ds), he_object_count = int (length plans),
               he_request_count = payload_requests plans + 2 * int (length plans),
               he_logical_bytes = sum_list (map (\<lambda>d. loc_decoded_length (desc_locator d)) ds),
               he_stored_bytes = sum_list (map (\<lambda>d. loc_stored_length (desc_locator d)) ds),
               he_request_bytes = planned_bytes plans + footer_bytes\<rparr>)"

record hydrated_capture =
  hc_descriptor :: capture_descriptor
  hc_payload :: bytes

fun match_all :: "capture_descriptor list \<Rightarrow> (pystr \<times> capture_descriptor) list \<Rightarrow> nat list \<Rightarrow> unit result" where
  "match_all ds footer [] = Inr ()"
| "match_all ds footer (i # is) = rbind (require_footer_match (ds ! i) footer) (\<lambda>_. match_all ds footer is)"

text \<open>The first phase of \<^verbatim>\<open>hydrate\<close>: every plan is bound to the footer of its pack.\<close>

fun verify_plans ::
  "capture_descriptor list \<Rightarrow> (pystr \<times> store_handle) list \<Rightarrow> object_plan list \<Rightarrow> footer_cache \<Rightarrow> read_budget \<times> read_log
   \<Rightarrow> footer_cache \<times> (read_budget \<times> read_log) \<times> (object_plan \<times> store_handle \<times> pack_ref) list result" where
  "verify_plans ds stores [] c s = (c, s, Inr [])"
| "verify_plans ds stores (p # ps) c s =
     (case map_of stores (op_store_id p) of
        None \<Rightarrow> (c, s, Inl (Error PackFormatError ''unknown pack store''))
      | Some store \<Rightarrow>
          let ref = plan_ref ds p in
          (case footer_descriptors store ref c s of
             (c1, s1, Inl e) \<Rightarrow> (c1, s1, Inl e)
           | (c1, s1, Inr footer) \<Rightarrow>
               (case match_all ds footer (op_indexes p) of
                  Inl e \<Rightarrow> (c1, s1, Inl e)
                | Inr _ \<Rightarrow>
                    (case verify_plans ds stores ps c1 s1 of
                       (c2, s2, Inl e) \<Rightarrow> (c2, s2, Inl e)
                     | (c2, s2, Inr vs) \<Rightarrow> (c2, s2, Inr ((p, store, ref) # vs))))))"

fun take_payloads ::
  "capture_descriptor list \<Rightarrow> bytes \<Rightarrow> int \<Rightarrow> nat list \<Rightarrow> bytes option list \<Rightarrow> bytes option list result" where
  "take_payloads ds block base [] payloads = Inr payloads"
| "take_payloads ds block base (i # is) payloads =
     (let loc = desc_locator (ds ! i); start = loc_offset loc - base;
          payload = slice start (start + loc_stored_length loc) block
      in rbind (verify_payload (ds ! i) payload) (\<lambda>_. take_payloads ds block base is (payloads[i := Some payload])))"

fun fetch_ranges ::
  "capture_descriptor list \<Rightarrow> store_handle \<Rightarrow> pack_ref \<Rightarrow> read_range list \<Rightarrow> read_log \<Rightarrow> bytes option list
   \<Rightarrow> read_log \<times> bytes option list result" where
  "fetch_ranges ds store ref [] trace payloads = (trace, Inr payloads)"
| "fetch_ranges ds store ref (rr # rrs) trace payloads =
     (let trace1 = trace @ [(ref, rr_offset rr, rr_length rr)] in
      case sh_read_range store ref (rr_offset rr) (rr_length rr) of
        Inl e \<Rightarrow> (trace1, Inl e)
      | Inr block \<Rightarrow>
          if int (length block) \<noteq> rr_length rr
          then (trace1, Inl (Error PackIntegrityError ''object store returned a short range''))
          else (case take_payloads ds block (rr_offset rr) (rr_indexes rr) payloads of
                  Inl e \<Rightarrow> (trace1, Inl e)
                | Inr payloads1 \<Rightarrow> fetch_ranges ds store ref rrs trace1 payloads1))"

fun fetch_plans ::
  "capture_descriptor list \<Rightarrow> (object_plan \<times> store_handle \<times> pack_ref) list \<Rightarrow> read_log \<Rightarrow> bytes option list
   \<Rightarrow> read_log \<times> bytes option list result" where
  "fetch_plans ds [] trace payloads = (trace, Inr payloads)"
| "fetch_plans ds ((p, store, ref) # vs) trace payloads =
     (case fetch_ranges ds store ref (op_ranges p) trace payloads of
        (trace1, Inl e) \<Rightarrow> (trace1, Inl e)
      | (trace1, Inr payloads1) \<Rightarrow> fetch_plans ds vs trace1 payloads1)"

definition hydrated :: "capture_descriptor list \<Rightarrow> bytes option list \<Rightarrow> hydrated_capture list result" where
  "hydrated ds payloads =
     (if None \<in> set payloads then Inl (Error PackFormatError ''hydration plan did not resolve every capture'')
      else Inr (map (\<lambda>(d, p). \<lparr>hc_descriptor = d, hc_payload = the p\<rparr>) (zip ds payloads)))"

definition hydrate ::
  "reader \<Rightarrow> capture_selection \<Rightarrow> int \<Rightarrow> int \<Rightarrow> reader \<times> read_log \<times> hydrated_capture list result" where
  "hydrate r sel byte_limit request_limit =
     (if byte_limit < 0 then (r, [], Inl (Error ValueError ''byte_limit must be non-negative''))
      else if request_limit \<le> 0 then (r, [], Inl (Error ValueError ''request_limit must be positive''))
      else case resolve r sel of
        Inl e \<Rightarrow> (r, [], Inl e)
      | Inr ds \<Rightarrow>
          let plans = plan (r_gap r) ds in
          if request_limit < payload_requests plans
          then (r, [], Inl (Error HydrationLimitError ''hydration request limit exceeded''))
          else if byte_limit < planned_bytes plans
          then (r, [], Inl (Error HydrationLimitError ''hydration byte limit exceeded''))
          else
            (case verify_plans ds (r_stores r) plans (r_cache r)
                    (\<lparr>rb_requests = request_limit - payload_requests plans,
                      rb_bytes = byte_limit - planned_bytes plans\<rparr>, []) of
               (c, (b, trace), Inl e) \<Rightarrow> (r\<lparr>r_cache := c\<rparr>, trace, Inl e)
             | (c, (b, trace), Inr vs) \<Rightarrow>
                 (case fetch_plans ds vs trace (replicate (length ds) None) of
                    (trace1, Inl e) \<Rightarrow> (r\<lparr>r_cache := c\<rparr>, trace1, Inl e)
                  | (trace1, Inr payloads) \<Rightarrow> (r\<lparr>r_cache := c\<rparr>, trace1, hydrated ds payloads))))"

section \<open>Plans cover the selection\<close>

abbreviation d_off :: "capture_descriptor \<Rightarrow> int" where "d_off d \<equiv> loc_offset (desc_locator d)"
abbreviation d_end :: "capture_descriptor \<Rightarrow> int" where "d_end d \<equiv> loc_offset (desc_locator d) + loc_stored_length (desc_locator d)"

lemma plan_ranges_indexes: "concat (map rr_indexes (plan_ranges gap ds current start end is)) = current @ is"
  by (induction "is" arbitrary: current start "end") (auto simp: Let_def)

definition covers :: "capture_descriptor list \<Rightarrow> read_range \<Rightarrow> bool" where
  "covers ds rr \<longleftrightarrow> rr_indexes rr \<noteq> []
     \<and> (\<forall>i \<in> set (rr_indexes rr). rr_offset rr \<le> d_off (ds ! i) \<and> d_end (ds ! i) \<le> rr_offset rr + rr_length rr)"

lemma plan_ranges_cover:
  assumes "sorted_wrt (\<lambda>i j. d_off (ds ! i) \<le> d_off (ds ! j)) is"
    "\<forall>i \<in> set current. start \<le> d_off (ds ! i) \<and> d_end (ds ! i) \<le> end"
    "current \<noteq> [] \<longrightarrow> (\<forall>j \<in> set is. start \<le> d_off (ds ! j))"
  shows "\<forall>rr \<in> set (plan_ranges gap ds current start end is). covers ds rr"
  using assms
proof (induction "is" arbitrary: current start "end")
  case Nil
  then show ?case by (simp add: covers_def)
next
  case (Cons i "is")
  have s: "sorted_wrt (\<lambda>i j. d_off (ds ! i) \<le> d_off (ds ! j)) is" "\<forall>j \<in> set is. d_off (ds ! i) \<le> d_off (ds ! j)"
    using Cons.prems(1) by simp_all
  have fresh: "\<forall>rr \<in> set (plan_ranges gap ds [i] (d_off (ds ! i)) (d_end (ds ! i)) is). covers ds rr"
    by (rule Cons.IH) (use s in simp_all)
  show ?case
  proof (cases "current = []")
    case True
    with fresh show ?thesis by (simp add: Let_def)
  next
    case False
    have "\<forall>rr \<in> set (plan_ranges gap ds (current @ [i]) start (max end (d_end (ds ! i))) is). covers ds rr"
      by (rule Cons.IH) (use s False Cons.prems in \<open>auto simp: max_def\<close>)
    moreover have "covers ds \<lparr>rr_indexes = current, rr_offset = start, rr_length = end - start\<rparr>"
      using False Cons.prems(2) by (simp add: covers_def)
    ultimately show ?thesis using fresh False by (simp add: Let_def)
  qed
qed

lemma group_insert_mset: "mset (concat (map snd (group_insert k i g))) = add_mset i (mset (concat (map snd g)))"
  by (induction k i g rule: group_insert.induct) auto

lemma group_insert_keys:
  "\<forall>(k', is) \<in> set g. is \<noteq> [] \<and> (\<forall>j \<in> set is. f j = k') \<Longrightarrow> f i = k
   \<Longrightarrow> \<forall>(k', is) \<in> set (group_insert k i g). is \<noteq> [] \<and> (\<forall>j \<in> set is. f j = k')"
  by (induction k i g rule: group_insert.induct) auto

lemma foldl_group:
  "mset (concat (map snd (foldl (\<lambda>g i. group_insert (f i) i g) g is))) = mset is + mset (concat (map snd g))"
  by (induction "is" arbitrary: g) (simp_all add: group_insert_mset)

lemma foldl_group_keys:
  "\<forall>(k', is) \<in> set g. is \<noteq> [] \<and> (\<forall>j \<in> set is. f j = k')
   \<Longrightarrow> \<forall>(k', is) \<in> set (foldl (\<lambda>g i. group_insert (f i) i g) g js). is \<noteq> [] \<and> (\<forall>j \<in> set is. f j = k')"
proof (induction js arbitrary: g)
  case (Cons j js)
  show ?case unfolding foldl.simps by (rule Cons.IH) (rule group_insert_keys [OF Cons.prems refl])
qed simp

lemma grouped_mset: "mset (concat (map snd (grouped ds))) = mset [0..<length ds]"
  unfolding grouped_def by (simp add: foldl_group)

lemma grouped_keys: "(k, is) \<in> set (grouped ds) \<Longrightarrow> is \<noteq> [] \<and> (\<forall>j \<in> set is. object_of (ds ! j) = k)"
  using foldl_group_keys [of "[]" "\<lambda>i. object_of (ds ! i)" "[0..<length ds]"] by (auto simp: grouped_def)

text \<open>What a plan says of the selection.\<close>

definition plan_ok :: "capture_descriptor list \<Rightarrow> object_plan \<Rightarrow> bool" where
  "plan_ok ds p \<longleftrightarrow> op_indexes p \<noteq> [] \<and> concat (map rr_indexes (op_ranges p)) = op_indexes p
     \<and> (\<forall>i \<in> set (op_indexes p). object_of (ds ! i) = (op_store_id p, op_pack_id p, op_object_key p))
     \<and> (\<forall>rr \<in> set (op_ranges p). covers ds rr)"

lemma plan_group_ok: "(k, is) \<in> set (grouped ds) \<Longrightarrow> plan_ok ds (plan_group gap ds (k, is))"
proof -
  assume g: "(k, is) \<in> set (grouped ds)"
  let ?s = "sort_key (\<lambda>i. d_off (ds ! i)) is"
  have "sorted_wrt (\<lambda>i j. d_off (ds ! i) \<le> d_off (ds ! j)) ?s"
    using sorted_sort_key [of "\<lambda>i. d_off (ds ! i)" "is"] by (simp add: sorted_map)
  then have "\<forall>rr \<in> set (plan_ranges gap ds [] 0 0 ?s). covers ds rr" by (rule plan_ranges_cover) simp_all
  moreover obtain a b c where "k = (a, b, c)" by (cases k)
  moreover have "?s \<noteq> []" using grouped_keys [OF g] by (metis length_0_conv length_sort)
  ultimately show ?thesis
    using grouped_keys [OF g] by (auto simp: plan_ok_def plan_group_def Let_def plan_ranges_indexes)
qed

lemma plan_all_ok: "p \<in> set (plan gap ds) \<Longrightarrow> plan_ok ds p"
  using plan_group_ok by (auto simp: plan_def)

lemma plan_indexes: "mset (concat (map op_indexes (plan gap ds))) = mset [0..<length ds]"
proof -
  have "mset (concat (map op_indexes (map (plan_group gap ds) gs))) = mset (concat (map snd gs))" for gs
    by (induction gs) (auto simp: plan_group_def Let_def split: prod.splits)
  then show ?thesis by (simp add: plan_def grouped_mset)
qed

lemma plan_distinct: "distinct (concat (map op_indexes (plan gap ds)))" "set (concat (map op_indexes (plan gap ds))) = {..<length ds}"
proof -
  note m = plan_indexes [of gap ds]
  show "distinct (concat (map op_indexes (plan gap ds)))" using mset_eq_imp_distinct_iff [OF m] by simp
  show "set (concat (map op_indexes (plan gap ds))) = {..<length ds}" using mset_eq_setD [OF m] by auto
qed

section \<open>Fetching\<close>

definition payload_in :: "capture_descriptor \<Rightarrow> int \<Rightarrow> bytes \<Rightarrow> bytes" where
  "payload_in d base block = slice (d_off d - base) (d_end d - base) block"

lemma take_payloads_spec:
  assumes "take_payloads ds block base is ps = Inr ps'" "distinct is" "set is \<subseteq> {..<length ps}"
  shows "length ps' = length ps \<and> (\<forall>j. j \<notin> set is \<longrightarrow> ps' ! j = ps ! j)
    \<and> (\<forall>i \<in> set is. ps' ! i = Some (payload_in (ds ! i) base block) \<and> verify_payload (ds ! i) (payload_in (ds ! i) base block) = Inr ())"
  using assms
proof (induction "is" arbitrary: ps)
  case (Cons i "is")
  let ?p = "payload_in (ds ! i) base block"
  have eq: "slice (d_off (ds ! i) - base) (d_off (ds ! i) - base + loc_stored_length (desc_locator (ds ! i))) block = ?p"
    by (simp add: payload_in_def algebra_simps)
  have h: "verify_payload (ds ! i) ?p = Inr ()" "take_payloads ds block base is (ps[i := Some ?p]) = Inr ps'"
    using Cons.prems(1) by (auto simp: Let_def eq rbind_eq_Inr)
  from Cons.IH [OF h(2)] Cons.prems(2,3) have ih: "length ps' = length ps" "\<forall>j. j \<notin> set is \<longrightarrow> ps' ! j = ps[i := Some ?p] ! j"
    "\<forall>i \<in> set is. ps' ! i = Some (payload_in (ds ! i) base block) \<and> verify_payload (ds ! i) (payload_in (ds ! i) base block) = Inr ()"
    by auto
  have "ps' ! i = Some ?p" using ih(2) Cons.prems(2,3) by simp
  with ih h(1) show ?case by (auto simp: nth_list_update)
qed simp

text \<open>A payload was cut out of a block that the store returned for a range around it.\<close>

definition fetched :: "store_handle \<Rightarrow> pack_ref \<Rightarrow> capture_descriptor \<Rightarrow> bytes \<Rightarrow> bool" where
  "fetched store ref d payload \<longleftrightarrow> verify_payload d payload = Inr ()
     \<and> (\<exists>off len block. sh_read_range store ref off len = Inr block \<and> int (length block) = len
          \<and> off \<le> d_off d \<and> d_end d \<le> off + len \<and> payload = payload_in d off block)"

lemma fetch_ranges_spec:
  assumes "fetch_ranges ds store ref rrs trace ps = (trace', Inr ps')" "distinct (concat (map rr_indexes rrs))"
    "set (concat (map rr_indexes rrs)) \<subseteq> {..<length ps}" "\<forall>rr \<in> set rrs. covers ds rr"
  shows "length ps' = length ps \<and> (\<forall>j. j \<notin> set (concat (map rr_indexes rrs)) \<longrightarrow> ps' ! j = ps ! j)
    \<and> (\<forall>i \<in> set (concat (map rr_indexes rrs)). \<exists>p. ps' ! i = Some p \<and> fetched store ref (ds ! i) p)"
  using assms
proof (induction rrs arbitrary: ps trace)
  case (Cons rr rrs)
  obtain block ps1 where b: "sh_read_range store ref (rr_offset rr) (rr_length rr) = Inr block" "int (length block) = rr_length rr"
    "take_payloads ds block (rr_offset rr) (rr_indexes rr) ps = Inr ps1"
    "fetch_ranges ds store ref rrs (trace @ [(ref, rr_offset rr, rr_length rr)]) ps1 = (trace', Inr ps')"
    using Cons.prems(1) by (auto simp: Let_def split: sum.splits if_splits)
  have dd: "distinct (rr_indexes rr)" "set (rr_indexes rr) \<subseteq> {..<length ps}" "distinct (concat (map rr_indexes rrs))"
    "set (rr_indexes rr) \<inter> set (concat (map rr_indexes rrs)) = {}"
    using Cons.prems(2,3) by auto
  note tp = take_payloads_spec [OF b(3) dd(1,2)]
  have ih: "length ps' = length ps1 \<and> (\<forall>j. j \<notin> set (concat (map rr_indexes rrs)) \<longrightarrow> ps' ! j = ps1 ! j)
    \<and> (\<forall>i \<in> set (concat (map rr_indexes rrs)). \<exists>p. ps' ! i = Some p \<and> fetched store ref (ds ! i) p)"
    by (rule Cons.IH [OF b(4) dd(3)]) (use Cons.prems(3,4) tp in auto)
  have "\<exists>p. ps' ! i = Some p \<and> fetched store ref (ds ! i) p" if i: "i \<in> set (rr_indexes rr)" for i
  proof -
    have "i \<notin> set (concat (map rr_indexes rrs))" using i dd(4) by blast
    then have "ps' ! i = ps1 ! i" using ih by blast
    then have "ps' ! i = Some (payload_in (ds ! i) (rr_offset rr) block)" using tp i by simp
    moreover have "rr_offset rr \<le> d_off (ds ! i)" "d_end (ds ! i) \<le> rr_offset rr + rr_length rr"
      using Cons.prems(4) i by (auto simp: covers_def)
    moreover have "verify_payload (ds ! i) (payload_in (ds ! i) (rr_offset rr) block) = Inr ()" using tp i by blast
    ultimately show ?thesis
      using b(1,2) unfolding fetched_def
      by (intro exI [of _ "payload_in (ds ! i) (rr_offset rr) block"] conjI exI [of _ "rr_offset rr"]
          exI [of _ "rr_length rr"] exI [of _ block]) simp_all
  qed
  with ih tp show ?case by auto
qed simp

lemma fetch_plans_spec:
  assumes "fetch_plans ds vs trace ps = (trace', Inr ps')" "distinct (concat (map (\<lambda>v. op_indexes (fst v)) vs))"
    "set (concat (map (\<lambda>v. op_indexes (fst v)) vs)) \<subseteq> {..<length ps}" "\<forall>v \<in> set vs. plan_ok ds (fst v)"
  shows "length ps' = length ps \<and> (\<forall>j. j \<notin> set (concat (map (\<lambda>v. op_indexes (fst v)) vs)) \<longrightarrow> ps' ! j = ps ! j)
    \<and> (\<forall>(p, store, ref) \<in> set vs. \<forall>i \<in> set (op_indexes p). \<exists>x. ps' ! i = Some x \<and> fetched store ref (ds ! i) x)"
  using assms
proof (induction vs arbitrary: ps trace)
  case (Cons v vs)
  obtain p store ref where v: "v = (p, store, ref)" by (cases v)
  obtain trace1 ps1 where f: "fetch_ranges ds store ref (op_ranges p) trace ps = (trace1, Inr ps1)"
    "fetch_plans ds vs trace1 ps1 = (trace', Inr ps')"
    using Cons.prems(1) by (auto simp: v split: prod.splits sum.splits)
  have ok: "concat (map rr_indexes (op_ranges p)) = op_indexes p" "\<forall>rr \<in> set (op_ranges p). covers ds rr"
    using Cons.prems(4) by (simp_all add: v plan_ok_def)
  have dd: "distinct (op_indexes p)" "set (op_indexes p) \<subseteq> {..<length ps}" "distinct (concat (map (\<lambda>v. op_indexes (fst v)) vs))"
    "set (op_indexes p) \<inter> set (concat (map (\<lambda>v. op_indexes (fst v)) vs)) = {}"
    using Cons.prems(2,3) by (auto simp: v)
  note fr = fetch_ranges_spec [OF f(1), unfolded ok(1), OF dd(1,2) ok(2)]
  have ih: "length ps' = length ps1 \<and> (\<forall>j. j \<notin> set (concat (map (\<lambda>v. op_indexes (fst v)) vs)) \<longrightarrow> ps' ! j = ps1 ! j)
    \<and> (\<forall>(p, store, ref) \<in> set vs. \<forall>i \<in> set (op_indexes p). \<exists>x. ps' ! i = Some x \<and> fetched store ref (ds ! i) x)"
    by (rule Cons.IH [OF f(2) dd(3)]) (use Cons.prems(3,4) fr in auto)
  have "\<exists>x. ps' ! i = Some x \<and> fetched store ref (ds ! i) x" if "i \<in> set (op_indexes p)" for i
  proof -
    have "i \<notin> set (concat (map (\<lambda>v. op_indexes (fst v)) vs))" using that dd(4) by blast
    then have "ps' ! i = ps1 ! i" using ih by blast
    then show ?thesis using that fr by simp
  qed
  with ih fr show ?case by (auto simp: v)
qed simp

lemma verify_plans_spec:
  assumes "verify_plans ds stores ps c s = (c', s', Inr vs)"
  shows "map fst vs = ps \<and> (\<forall>(p, store, ref) \<in> set vs. map_of stores (op_store_id p) = Some store \<and> ref = plan_ref ds p)"
  using assms
proof (induction ps arbitrary: c s vs)
  case (Cons p ps)
  then obtain store c1 s1 footer vs1 where h: "map_of stores (op_store_id p) = Some store"
    "footer_descriptors store (plan_ref ds p) c s = (c1, s1, Inr footer)"
    "verify_plans ds stores ps c1 s1 = (c', s', Inr vs1)" "vs = (p, store, plan_ref ds p) # vs1"
    by (auto simp: Let_def split: option.splits prod.splits sum.splits)
  from Cons.IH [OF h(3)] h(1,4) show ?case by auto
qed simp

lemma map_of_keyed_None: "map_of (map (\<lambda>d. (f d, d)) xs) i = None \<longleftrightarrow> i \<notin> f ` set xs"
  by (induction xs) auto

lemma resolve_Inr:
  assumes "resolve r sel = Inr ds"
  shows "map desc_capture_id ds = sel_capture_ids sel"
proof -
  obtain ds0 where d: "set (map desc_capture_id ds0) = set (sel_capture_ids sel)"
    "ds = map (\<lambda>i. the (map_of (map (\<lambda>d. (desc_capture_id d, d)) ds0) i)) (sel_capture_ids sel)"
    using assms by (auto simp: resolve_def rbind_eq_Inr split: if_splits)
  have "desc_capture_id (the (map_of (map (\<lambda>d. (desc_capture_id d, d)) ds0) i)) = i" if "i \<in> set (map desc_capture_id ds0)" for i
  proof -
    have "map_of (map (\<lambda>d. (desc_capture_id d, d)) ds0) i \<noteq> None" using that by (simp add: map_of_keyed_None)
    then obtain d where "map_of (map (\<lambda>d. (desc_capture_id d, d)) ds0) i = Some d" by blast
    then show ?thesis by (auto dest!: map_of_SomeD)
  qed
  then show ?thesis using d by (simp add: map_idI)
qed

lemma hydrate_Inr:
  assumes "hydrate r sel bl rl = (r', trace, Inr hs)"
  obtains ds where "resolve r sel = Inr ds" "map hc_descriptor hs = ds"
    "\<forall>h \<in> set hs. \<exists>store ref. map_of (r_stores r) (loc_store_id (desc_locator (hc_descriptor h))) = Some store
       \<and> (\<exists>d \<in> set ds. ref = pack_ref_of (desc_locator d) \<and> object_of d = object_of (hc_descriptor h))
       \<and> fetched store ref (hc_descriptor h) (hc_payload h)"
proof -
  obtain ds where ds: "resolve r sel = Inr ds"
    using assms by (auto simp: hydrate_def split: if_splits sum.splits)
  obtain c s vs trace0 trace1 payloads where h:
    "verify_plans ds (r_stores r) (plan (r_gap r) ds) (r_cache r) (\<lparr>rb_requests = rl - payload_requests (plan (r_gap r) ds),
        rb_bytes = bl - planned_bytes (plan (r_gap r) ds)\<rparr>, []) = (c, s, Inr vs)"
    "fetch_plans ds vs trace0 (replicate (length ds) None) = (trace1, Inr payloads)" "hydrated ds payloads = Inr hs"
    using assms ds by (auto simp: hydrate_def Let_def split: if_splits sum.splits prod.splits)
  note vp = verify_plans_spec [OF h(1)]
  have ix: "map (\<lambda>v. op_indexes (fst v)) vs = map op_indexes (plan (r_gap r) ds)"
    using vp map_map [of op_indexes fst vs] by (simp add: comp_def)
  note pd = plan_distinct [where gap = "r_gap r" and ds = ds]
  have "set (map fst vs) = set (plan (r_gap r) ds)" using vp by simp
  then have pv: "fst ` set vs = set (plan (r_gap r) ds)" by simp
  have ok: "\<forall>v \<in> set vs. plan_ok ds (fst v)"
  proof
    fix v assume "v \<in> set vs"
    then have "fst v \<in> set (plan (r_gap r) ds)" using pv by blast
    then show "plan_ok ds (fst v)" by (rule plan_all_ok)
  qed
  have sub: "set (concat (map op_indexes (plan (r_gap r) ds))) \<subseteq> {..<length (replicate (length ds) (None :: bytes option))}"
    using pd(2) by simp
  note fp = fetch_plans_spec [OF h(2), unfolded ix, OF pd(1) sub ok]
  have len: "length payloads = length ds" using fp by simp
  have hs: "hs = map (\<lambda>(d, p). \<lparr>hc_descriptor = d, hc_payload = the p\<rparr>) (zip ds payloads)"
    using h(3) by (simp add: hydrated_def split: if_splits)
  have "map hc_descriptor hs = ds" using len by (simp add: hs comp_def case_prod_unfold)
  moreover have "\<exists>store ref. map_of (r_stores r) (loc_store_id (desc_locator (ds ! i))) = Some store
       \<and> (\<exists>d \<in> set ds. ref = pack_ref_of (desc_locator d) \<and> object_of d = object_of (ds ! i))
       \<and> fetched store ref (ds ! i) (the (payloads ! i))" if i: "i < length ds" for i
  proof -
    obtain p where p: "p \<in> set (plan (r_gap r) ds)" "i \<in> set (op_indexes p)" using pd(2) i by (auto simp: set_eq_iff)
    then obtain store ref where v: "(p, store, ref) \<in> set vs" using pv by force
    have po: "plan_ok ds p" using plan_all_ok [OF p(1)] .
    then have o: "object_of (ds ! i) = (op_store_id p, op_pack_id p, op_object_key p)"
      "object_of (ds ! hd (op_indexes p)) = object_of (ds ! i)" "hd (op_indexes p) \<in> set (op_indexes p)"
      using p(2) by (simp_all add: plan_ok_def)
    have "hd (op_indexes p) \<in> set (concat (map op_indexes (plan (r_gap r) ds)))" using o(3) p(1) by auto
    then have "hd (op_indexes p) < length ds" unfolding pd(2) by simp
    then have "\<exists>d \<in> set ds. plan_ref ds p = pack_ref_of (desc_locator d) \<and> object_of d = object_of (ds ! i)"
      using o(2) unfolding plan_ref_def by (intro bexI [of _ "ds ! hd (op_indexes p)"]) simp_all
    moreover have "map_of (r_stores r) (op_store_id p) = Some store" "ref = plan_ref ds p" using vp v by auto
    moreover obtain x where "payloads ! i = Some x" "fetched store ref (ds ! i) x" using fp v p(2) by blast
    moreover have "loc_store_id (desc_locator (ds ! i)) = op_store_id p" using o(1) by (simp add: object_of_def Let_def)
    ultimately show ?thesis by (metis option.inject option.sel)
  qed
  then have "\<forall>h \<in> set hs. \<exists>store ref. map_of (r_stores r) (loc_store_id (desc_locator (hc_descriptor h))) = Some store
       \<and> (\<exists>d \<in> set ds. ref = pack_ref_of (desc_locator d) \<and> object_of d = object_of (hc_descriptor h))
       \<and> fetched store ref (hc_descriptor h) (hc_payload h)"
    using len by (auto simp: hs in_set_zip)
  ultimately show ?thesis using ds by (intro that)
qed

section \<open>The footer cache\<close>

definition wire_total :: "(cache_key \<times> footer_entry) list \<Rightarrow> int" where
  "wire_total es = sum_list (map (\<lambda>e. fe_wire_bytes (snd e)) es)"

definition entries_ok :: "(cache_key \<times> footer_entry) list \<Rightarrow> bool" where
  "entries_ok es \<longleftrightarrow> distinct (map fst es)
     \<and> (\<forall>e \<in> set es. 0 \<le> fe_wire_bytes (snd e))"

text \<open>The cache stays within its two limits and knows its size.\<close>

definition cache_ok :: "footer_cache \<Rightarrow> bool" where
  "cache_ok c \<longleftrightarrow> entries_ok (fc_entries c) \<and> fc_bytes c = wire_total (fc_entries c)
     \<and> int (length (fc_entries c)) \<le> fc_limit c \<and> fc_bytes c \<le> fc_bytes_limit c"

lemma wire_total_simps [simp]: "wire_total [] = 0" "wire_total (e # es) = fe_wire_bytes (snd e) + wire_total es"
  "wire_total (es @ es') = wire_total es + wire_total es'"
  by (simp_all add: wire_total_def)

lemma evict_spec:
  assumes "evict wire limit bytes_limit es bytes = (es', bytes')" "bytes = wire_total es"
  shows "bytes' = wire_total es' \<and> (\<exists>old. es = old @ es')
    \<and> (es' = [] \<or> int (length es') < limit \<and> bytes' + wire \<le> bytes_limit)"
  using assms
proof (induction es arbitrary: bytes)
  case (Cons e es)
  show ?case
  proof (cases "limit \<le> int (length (e # es)) \<or> bytes_limit < bytes + wire")
    case True
    have "bytes' = wire_total es' \<and> (\<exists>old. es = old @ es')
      \<and> (es' = [] \<or> int (length es') < limit \<and> bytes' + wire \<le> bytes_limit)"
      by (rule Cons.IH [of "bytes - fe_wire_bytes (snd e)"]) (use True Cons.prems in auto)
    then show ?thesis by (metis append_Cons)
  next
    case False
    with Cons.prems show ?thesis by auto
  qed
qed simp

lemma entries_ok_suffix: "entries_ok (es @ es') \<Longrightarrow> entries_ok es'"
  by (auto simp: entries_ok_def)

lemma cache_insert_ok:
  assumes "cache_ok c" "map_of (fc_entries c) key = None" "0 \<le> fe_wire_bytes entry"
  shows "cache_ok (cache_insert key entry c)"
proof (cases "0 < fc_limit c \<and> fe_wire_bytes entry \<le> fc_bytes_limit c")
  case True
  obtain es bytes where e: "evict (fe_wire_bytes entry) (fc_limit c) (fc_bytes_limit c) (fc_entries c) (fc_bytes c) = (es, bytes)"
    by (cases "evict (fe_wire_bytes entry) (fc_limit c) (fc_bytes_limit c) (fc_entries c) (fc_bytes c)")
  have t: "fc_bytes c = wire_total (fc_entries c)" using assms(1) by (simp add: cache_ok_def)
  note ev = evict_spec [OF e t]
  then obtain old where old: "fc_entries c = old @ es" by blast
  have "entries_ok es" using assms(1) by (auto simp: cache_ok_def old intro: entries_ok_suffix)
  moreover have "key \<notin> fst ` set es" using assms(2) by (auto simp: old map_of_eq_None_iff)
  ultimately have "entries_ok (es @ [(key, entry)])" using assms(3) by (auto simp: entries_ok_def)
  moreover have "int (length es) < fc_limit c" "bytes + fe_wire_bytes entry \<le> fc_bytes_limit c" using ev True by auto
  ultimately show ?thesis using e True ev by (simp add: cache_insert_def cache_ok_def)
qed (use assms(1) in \<open>auto simp: cache_insert_def\<close>)

lemma wire_total_filter:
  "distinct (map fst es) \<Longrightarrow> map_of es key = Some entry
   \<Longrightarrow> wire_total (filter (\<lambda>e. fst e \<noteq> key) es) = wire_total es - fe_wire_bytes entry
     \<and> Suc (length (filter (\<lambda>e. fst e \<noteq> key) es)) = length es"
proof (induction es)
  case (Cons e es)
  show ?case
  proof (cases "fst e = key")
    case True
    then have "filter (\<lambda>e. fst e \<noteq> key) es = es" using Cons.prems(1) by (intro filter_True) (auto simp: image_iff)
    then show ?thesis using True Cons.prems(2) by (cases e) simp
  next
    case False
    then show ?thesis using Cons by (cases e) auto
  qed
qed simp

lemma move_to_end_ok:
  assumes "cache_ok c" "map_of (fc_entries c) key = Some entry"
  shows "cache_ok (move_to_end key entry c)"
proof -
  have d: "distinct (map fst (fc_entries c))" using assms(1) by (simp add: cache_ok_def entries_ok_def)
  note w = wire_total_filter [OF d assms(2)]
  have "(key, entry) \<in> set (fc_entries c)" using assms(2) by (rule map_of_SomeD)
  then have "entries_ok (filter (\<lambda>e. fst e \<noteq> key) (fc_entries c) @ [(key, entry)])"
    using assms(1) by (auto simp: cache_ok_def entries_ok_def distinct_map_filter)
  moreover have "int (length (filter (\<lambda>e. fst e \<noteq> key) (fc_entries c))) + 1 = int (length (fc_entries c))" using w by linarith
  ultimately show ?thesis using assms(1) w by (auto simp: move_to_end_def cache_ok_def)
qed

section \<open>The read budget\<close>

text \<open>What was requested and what is left add up to the limits.\<close>

definition log_bytes :: "read_log \<Rightarrow> int" where
  "log_bytes trace = sum_list (map (\<lambda>(ref, off, len). len) trace)"

definition metered :: "int \<Rightarrow> int \<Rightarrow> read_budget \<times> read_log \<Rightarrow> bool" where
  "metered requests bytes s \<longleftrightarrow> int (length (snd s)) + rb_requests (fst s) = requests
     \<and> log_bytes (snd s) + rb_bytes (fst s) = bytes \<and> 0 \<le> rb_requests (fst s) \<and> 0 \<le> rb_bytes (fst s)"

lemma log_bytes_append [simp]: "log_bytes (xs @ ys) = log_bytes xs + log_bytes ys"
  by (simp add: log_bytes_def)

lemma budgeted_read_metered: "metered rq by s \<Longrightarrow> metered rq by (fst (budgeted_read store ref off len s))"
  by (auto simp: budgeted_read_def consume_def metered_def log_bytes_def)

lemma from_store_st_keeps:
  assumes "P s" "\<And>off len s. P s \<Longrightarrow> P (fst (read ref off len s))"
  shows "P (fst (from_store_st store_id read ref s))"
proof -
  obtain s1 r1 where r: "read ref (ref_object_bytes ref - TRAILER_SIZE) TRAILER_SIZE s = (s1, r1)" by fastforce
  have p1: "P s1" using assms(2) [OF assms(1), of "ref_object_bytes ref - TRAILER_SIZE" TRAILER_SIZE] r by simp
  have "P (fst (read ref off len s1))" for off len using assms(2) [OF p1] .
  then have "read ref off len s1 = (s2, r2) \<Longrightarrow> P s2" for off len s2 r2 by (metis fst_conv)
  with p1 assms(1) r show ?thesis
    by (auto simp: from_store_st_def Let_def split: sum.split prod.split)
qed

lemma from_store_st_Inr:
  assumes "from_store_st store_id read ref s = (s', Inr pidx)"
  shows "0 \<le> pi_footer_read_bytes pidx"
proof -
  obtain t footer where "index_footer ref t footer = Inr pidx"
    using assms by (auto simp: from_store_st_def Let_def split: if_splits sum.splits prod.splits)
  then show ?thesis by (auto simp: index_footer_def rbind_eq_Inr TRAILER_SIZE_def split: if_splits option.splits)
qed

lemma footer_descriptors_ok:
  assumes "footer_descriptors store ref c s = (c', s', res)"
  shows "cache_ok c \<Longrightarrow> cache_ok c'" "metered rq by s \<Longrightarrow> metered rq by s'"
proof -
  obtain s1 r1 where f: "from_store_st (sh_store_id store) (budgeted_read store) ref s = (s1, r1)" by fastforce
  show "metered rq by s'" if "metered rq by s"
  proof -
    have "metered rq by s1"
      using from_store_st_keeps [of "metered rq by" s "budgeted_read store" ref "sh_store_id store"] f that
      by (simp add: budgeted_read_metered)
    then show ?thesis using assms f that
      by (auto simp: footer_descriptors_def Let_def split: option.splits sum.splits prod.splits)
  qed
  show "cache_ok c'" if c: "cache_ok c"
  proof (cases "map_of (fc_entries c) (cache_key_of ref)")
    case (Some cached)
    then show ?thesis using assms move_to_end_ok [OF c Some] by (auto simp: footer_descriptors_def)
  next
    case None
    have "cache_ok (cache_insert (cache_key_of ref) \<lparr>fe_descriptors = fd, fe_wire_bytes = pi_footer_read_bytes pidx\<rparr> c)"
      if "r1 = Inr pidx" for fd pidx
      by (rule cache_insert_ok [OF c None]) (use from_store_st_Inr f that in auto)
    then show ?thesis using assms f None c
      by (auto simp: footer_descriptors_def footer_keep_def split: sum.splits)
  qed
qed

lemma verify_plans_ok:
  assumes "verify_plans ds stores ps c s = (c', s', res)"
  shows "cache_ok c \<Longrightarrow> cache_ok c'" "metered rq by s \<Longrightarrow> metered rq by s'"
proof -
  have "(cache_ok c \<longrightarrow> cache_ok c') \<and> (metered rq by s \<longrightarrow> metered rq by s')"
    using assms
  proof (induction ps arbitrary: c s res)
    case (Cons p ps)
    show ?case
    proof (cases "map_of stores (op_store_id p)")
      case None
      then show ?thesis using Cons.prems by auto
    next
      case (Some store)
      obtain c1 s1 r1 where f: "footer_descriptors store (plan_ref ds p) c s = (c1, s1, r1)" by (metis prod_cases3)
      have "c' = c1 \<and> s' = s1 \<or> (\<exists>r2. verify_plans ds stores ps c1 s1 = (c', s', r2))"
        using Cons.prems Some f by (auto split: sum.splits prod.splits)
      then show ?thesis using footer_descriptors_ok [OF f] Cons.IH by blast
    qed
  qed auto
  then show "cache_ok c \<Longrightarrow> cache_ok c'" "metered rq by s \<Longrightarrow> metered rq by s'" by blast+
qed

section \<open>Fetching\<close>

definition planned_reads :: "(object_plan \<times> store_handle \<times> pack_ref) list \<Rightarrow> read_log" where
  "planned_reads vs = concat (map (\<lambda>(p, store, ref). map (\<lambda>rr. (ref, rr_offset rr, rr_length rr)) (op_ranges p)) vs)"

lemma fetch_ranges_log:
  "fetch_ranges ds store ref rrs trace ps = (trace', res)
   \<Longrightarrow> \<exists>k. trace' = trace @ take k (map (\<lambda>rr. (ref, rr_offset rr, rr_length rr)) rrs)
        \<and> (res \<in> range Inr \<longrightarrow> length rrs \<le> k)"
proof (induction rrs arbitrary: trace ps)
  case (Cons rr rrs)
  let ?t = "trace @ [(ref, rr_offset rr, rr_length rr)]"
  show ?case
  proof (cases "\<exists>ps1. fetch_ranges ds store ref rrs ?t ps1 = (trace', res)")
    case True
    then obtain k where "trace' = ?t @ take k (map (\<lambda>rr. (ref, rr_offset rr, rr_length rr)) rrs)" "res \<in> range Inr \<longrightarrow> length rrs \<le> k"
      using Cons.IH by blast
    then show ?thesis by (intro exI [of _ "Suc k"]) simp
  next
    case False
    then have "trace' = ?t" "res \<notin> range Inr" using Cons.prems by (auto simp: Let_def split: sum.splits if_splits)
    then show ?thesis by (intro exI [of _ 1]) auto
  qed
qed (intro exI [of _ 0], simp)

lemma fetch_plans_log:
  "fetch_plans ds vs trace ps = (trace', res) \<Longrightarrow> \<exists>k. trace' = trace @ take k (planned_reads vs)"
proof (induction vs arbitrary: trace ps)
  case (Cons v vs)
  obtain p store ref where v: "v = (p, store, ref)" by (cases v)
  let ?rs = "map (\<lambda>rr. (ref, rr_offset rr, rr_length rr)) (op_ranges p)"
  have pr: "planned_reads (v # vs) = ?rs @ planned_reads vs" by (simp add: planned_reads_def v)
  obtain t1 r1 where f: "fetch_ranges ds store ref (op_ranges p) trace ps = (t1, r1)" by fastforce
  obtain k where k: "t1 = trace @ take k ?rs" "r1 \<in> range Inr \<longrightarrow> length (op_ranges p) \<le> k"
    using fetch_ranges_log [OF f] by blast
  show ?case
  proof (cases r1)
    case (Inl e)
    then have "trace' = t1" using Cons.prems f by (simp add: v)
    moreover have "take k ?rs = take (min k (length ?rs)) (planned_reads (v # vs))" unfolding pr by (simp add: min_def)
    ultimately have "trace' = trace @ take (min k (length ?rs)) (planned_reads (v # vs))" using k(1) by simp
    then show ?thesis by blast
  next
    case (Inr ps1)
    then obtain k' where "trace' = t1 @ take k' (planned_reads vs)" using Cons.prems f Cons.IH by (auto simp: v)
    then have "trace' = trace @ take (length ?rs + k') (planned_reads (v # vs))" using k Inr by (simp add: pr)
    then show ?thesis by blast
  qed
qed (simp add: planned_reads_def)

lemma log_bytes_take: "\<forall>(ref, off, len) \<in> set xs. 0 \<le> len \<Longrightarrow> log_bytes (take k xs) \<le> log_bytes xs"
proof -
  assume a: "\<forall>(ref, off, len) \<in> set xs. 0 \<le> len"
  have "0 \<le> log_bytes (drop k xs)"
    unfolding log_bytes_def using a by (intro sum_list_nonneg) (auto dest: in_set_dropD)
  moreover have "log_bytes xs = log_bytes (take k xs) + log_bytes (drop k xs)" by (metis append_take_drop_id log_bytes_append)
  ultimately show ?thesis by simp
qed

lemma planned_reads_totals:
  assumes "map fst vs = ps"
  shows "int (length (planned_reads vs)) = payload_requests ps" "log_bytes (planned_reads vs) = planned_bytes ps"
  unfolding assms [symmetric]
  by (induction vs) (auto simp: planned_reads_def payload_requests_def planned_bytes_def log_bytes_def comp_def)

lemma range_length:
  assumes "plan_ok ds p" "\<forall>i \<in> set (op_indexes p). 0 \<le> loc_stored_length (desc_locator (ds ! i))" "rr \<in> set (op_ranges p)"
  shows "0 \<le> rr_length rr"
proof -
  have c: "covers ds rr" using assms(1,3) unfolding plan_ok_def by blast
  have "set (rr_indexes rr) \<subseteq> set (concat (map rr_indexes (op_ranges p)))" using assms(3) by auto
  moreover have "concat (map rr_indexes (op_ranges p)) = op_indexes p" using assms(1) by (simp add: plan_ok_def)
  ultimately have sub: "set (rr_indexes rr) \<subseteq> set (op_indexes p)" by metis
  obtain i where i: "i \<in> set (rr_indexes rr)" using c by (cases "rr_indexes rr") (auto simp: covers_def)
  then have "0 \<le> loc_stored_length (desc_locator (ds ! i))" using assms(2) sub by blast
  moreover have "rr_offset rr \<le> d_off (ds ! i)" "d_end (ds ! i) \<le> rr_offset rr + rr_length rr"
    using c i unfolding covers_def by blast+
  ultimately show ?thesis by linarith
qed

lemma plan_range_lengths:
  assumes "\<forall>d \<in> set ds. 0 \<le> loc_stored_length (desc_locator d)" "p \<in> set (plan gap ds)" "rr \<in> set (op_ranges p)"
  shows "0 \<le> rr_length rr"
proof (rule range_length [OF plan_all_ok [OF assms(2)] _ assms(3)], rule)
  fix i assume "i \<in> set (op_indexes p)"
  then have "i \<in> set (concat (map op_indexes (plan gap ds)))" using assms(2) by auto
  then have "i < length ds" unfolding plan_distinct(2) by simp
  then show "0 \<le> loc_stored_length (desc_locator (ds ! i))" using assms(1) by simp
qed

lemma log_bytes_nonneg: "\<forall>(ref, off, len) \<in> set xs. 0 \<le> len \<Longrightarrow> 0 \<le> log_bytes xs"
  unfolding log_bytes_def by (intro sum_list_nonneg) auto

text \<open>A hydration that gets past its two limits has verified its plans and then fetched some prefix of them.\<close>

lemma hydrate_cases:
  assumes "hydrate r sel bl rl = (r', trace, res)"
  obtains (refused) "r' = r" "trace = []"
  | (read) ds c b t1 r1 vs k where "resolve r sel = Inr ds" "payload_requests (plan (r_gap r) ds) \<le> rl"
    "planned_bytes (plan (r_gap r) ds) \<le> bl"
    "verify_plans ds (r_stores r) (plan (r_gap r) ds) (r_cache r) (\<lparr>rb_requests = rl - payload_requests (plan (r_gap r) ds),
        rb_bytes = bl - planned_bytes (plan (r_gap r) ds)\<rparr>, []) = (c, (b, t1), r1)"
    "r' = r\<lparr>r_cache := c\<rparr>" "trace = t1 @ take k (planned_reads vs)" "map fst vs = plan (r_gap r) ds"
proof (cases "\<exists>ds. resolve r sel = Inr ds \<and> payload_requests (plan (r_gap r) ds) \<le> rl \<and> planned_bytes (plan (r_gap r) ds) \<le> bl
      \<and> 0 \<le> bl \<and> 0 < rl")
  case False
  then have "r' = r \<and> trace = []" using assms by (auto simp: hydrate_def Let_def not_le split: if_splits sum.splits)
  then show ?thesis using refused by blast
next
  case True
  then obtain ds where ds: "resolve r sel = Inr ds" "payload_requests (plan (r_gap r) ds) \<le> rl"
    "planned_bytes (plan (r_gap r) ds) \<le> bl" "0 \<le> bl" "0 < rl" by blast
  obtain c b t1 r1 where v: "verify_plans ds (r_stores r) (plan (r_gap r) ds) (r_cache r)
      (\<lparr>rb_requests = rl - payload_requests (plan (r_gap r) ds), rb_bytes = bl - planned_bytes (plan (r_gap r) ds)\<rparr>, [])
      = (c, (b, t1), r1)" by (metis surj_pair)
  show ?thesis
  proof (cases r1)
    case (Inl e)
    define vs where "vs = map (\<lambda>p. (p, undefined :: store_handle, undefined :: pack_ref)) (plan (r_gap r) ds)"
    have "map fst vs = plan (r_gap r) ds" by (simp add: vs_def comp_def)
    moreover have "r' = r\<lparr>r_cache := c\<rparr> \<and> trace = t1" using assms ds v Inl by (simp add: hydrate_def Let_def)
    ultimately show ?thesis using read [OF ds(1,2,3) v, where k = 0] by simp
  next
    case (Inr vs)
    note m = verify_plans_spec [OF v [unfolded Inr]]
    obtain t2 r2 where f: "fetch_plans ds vs t1 (replicate (length ds) None) = (t2, r2)" by fastforce
    obtain k where k: "t2 = t1 @ take k (planned_reads vs)" using fetch_plans_log [OF f] by blast
    have "r' = r\<lparr>r_cache := c\<rparr> \<and> trace = t2" using assms ds v Inr f by (auto simp: hydrate_def Let_def split: sum.splits)
    then show ?thesis using read [OF ds(1,2,3) v] k m by blast
  qed
qed

lemma hydrate_cache_ok: "hydrate r sel bl rl = (r', trace, res) \<Longrightarrow> cache_ok (r_cache r) \<Longrightarrow> cache_ok (r_cache r')"
  by (erule hydrate_cases) (auto dest: verify_plans_ok(1))

lemma hydrate_bounds:
  assumes "hydrate r sel bl rl = (r', trace, res)" "trace \<noteq> []"
  shows "int (length trace) \<le> rl \<and> ((\<forall>ds. resolve r sel = Inr ds \<longrightarrow> (\<forall>d \<in> set ds. 0 \<le> loc_stored_length (desc_locator d)))
    \<longrightarrow> log_bytes trace \<le> bl)"
  using assms(1)
proof (cases rule: hydrate_cases)
  case (read ds c b t1 r1 vs k)
  let ?ps = "plan (r_gap r) ds"
  have "metered (rl - payload_requests ?ps) (bl - planned_bytes ?ps)
      (\<lparr>rb_requests = rl - payload_requests ?ps, rb_bytes = bl - planned_bytes ?ps\<rparr>, [])"
    using read(2,3) by (simp add: metered_def log_bytes_def)
  note m = verify_plans_ok(2) [OF read(4) this]
  note t = planned_reads_totals [OF read(7)]
  have "int (length (take k (planned_reads vs))) \<le> payload_requests ?ps" using t(1) by simp
  then have "int (length trace) \<le> rl" using m read(6) by (simp add: metered_def)
  moreover have "log_bytes trace \<le> bl" if nn: "\<forall>d \<in> set ds. 0 \<le> loc_stored_length (desc_locator d)"
  proof -
    have "p \<in> set ?ps" if "(p, st, ref) \<in> set vs" for p st ref using that read(7) by (metis fst_conv image_eqI image_set)
    then have "\<forall>(ref, off, len) \<in> set (planned_reads vs). 0 \<le> len"
      using plan_range_lengths [OF nn] by (fastforce simp: planned_reads_def)
    from log_bytes_take [OF this, of k] show ?thesis using m read(6) t(2) by (simp add: metered_def)
  qed
  ultimately show ?thesis using read(1) by blast
qed (use assms(2) in auto)

section \<open>The estimate is enough\<close>

definition spend :: "int \<Rightarrow> int \<Rightarrow> read_log \<Rightarrow> read_budget \<times> read_log \<Rightarrow> read_budget \<times> read_log" where
  "spend requests bytes reads s =
     (\<lparr>rb_requests = rb_requests (fst s) - requests, rb_bytes = rb_bytes (fst s) - bytes\<rparr>, snd s @ reads)"

definition affords :: "int \<Rightarrow> int \<Rightarrow> read_budget \<times> read_log \<Rightarrow> bool" where
  "affords requests bytes s \<longleftrightarrow> requests \<le> rb_requests (fst s) \<and> bytes \<le> rb_bytes (fst s)"

text \<open>A step spends at most what it needs whatever the budget, once the budget affords it.\<close>

definition costs :: "int \<Rightarrow> int \<Rightarrow> (read_budget \<times> read_log \<Rightarrow> 'c \<times> (read_budget \<times> read_log) \<times> 'a) \<Rightarrow> 'c \<Rightarrow> 'a \<Rightarrow> bool" where
  "costs requests bytes f c a \<longleftrightarrow>
     (\<exists>rq by reads. rq \<le> requests \<and> by \<le> bytes \<and> (\<forall>s. affords requests bytes s \<longrightarrow> f s = (c, spend rq by reads s, a)))"

lemma costsI:
  "rq \<le> requests \<Longrightarrow> by \<le> bytes \<Longrightarrow> (\<And>s. affords requests bytes s \<Longrightarrow> f s = (c, spend rq by reads s, a))
   \<Longrightarrow> costs requests bytes f c a"
  unfolding costs_def by blast

lemma spend_spend: "spend rq by u (spend rq' by' u' s) = spend (rq' + rq) (by' + by) (u' @ u) s"
  by (simp add: spend_def algebra_simps)

lemma spend_0: "spend 0 0 [] s = s"
  by (cases s) (simp add: spend_def)

lemma affords_spend:
  "affords (rq + rq') (by + by') s \<Longrightarrow> r \<le> rq \<Longrightarrow> b \<le> by \<Longrightarrow> affords rq' by' (spend r b u s)"
  by (auto simp: affords_def spend_def)

lemma affords_mono: "affords rq by s \<Longrightarrow> rq' \<le> rq \<Longrightarrow> by' \<le> by \<Longrightarrow> affords rq' by' s"
  by (auto simp: affords_def)

lemma budgeted_read_affords:
  "affords 1 len s \<Longrightarrow> budgeted_read store ref off len s = (spend 1 len [(ref, off, len)] s, sh_read_range store ref off len)"
  by (auto simp: budgeted_read_def consume_def affords_def spend_def)

lemma check_trailer_Inr:
  "check_trailer bs toff = Inr t
   \<Longrightarrow> int (tf_footer_length t) \<le> MAX_FOOTER_BYTES \<and> int (tf_footer_length t) \<le> toff"
  by (auto simp: check_trailer_def Let_def HEADER_SIZE_def split: sum.splits if_splits)

lemma max_footer_read_bytes_ge: "TRAILER_SIZE \<le> max_footer_read_bytes ref"
  by (simp add: max_footer_read_bytes_def Let_def MAX_FOOTER_BYTES_def)

lemma from_store_costs:
  "costs 2 (max_footer_read_bytes ref)
     (\<lambda>s. case from_store_st (sh_store_id store) (budgeted_read store) ref s of (s', r) \<Rightarrow> ((), s', r))
     () (from_store (sh_store_id store) (sh_read_range store) ref)"
proof -
  let ?toff = "ref_object_bytes ref - TRAILER_SIZE"
  let ?r1 = "sh_read_range store ref ?toff TRAILER_SIZE"
  let ?u1 = "[(ref, ?toff, TRAILER_SIZE)]"
  let ?st = "from_store_st (sh_store_id store) (budgeted_read store) ref"
  let ?res = "from_store (sh_store_id store) (sh_read_range store) ref"
  have first: "budgeted_read store ref ?toff TRAILER_SIZE s = (spend 1 TRAILER_SIZE ?u1 s, ?r1)"
    if "affords 2 (max_footer_read_bytes ref) s" for s
    using that max_footer_read_bytes_ge [of ref] by (intro budgeted_read_affords) (auto elim: affords_mono)
  consider (bad) "ref_store_id ref \<noteq> sh_store_id store \<or> ref_object_bytes ref < HEADER_SIZE + TRAILER_SIZE + 2"
    | (one) "ref_store_id ref = sh_store_id store" "HEADER_SIZE + TRAILER_SIZE + 2 \<le> ref_object_bytes ref"
       "\<And>bs t. ?r1 = Inr bs \<Longrightarrow> check_trailer bs ?toff \<noteq> Inr t"
    | (two) bs t where "ref_store_id ref = sh_store_id store" "HEADER_SIZE + TRAILER_SIZE + 2 \<le> ref_object_bytes ref"
       "?r1 = Inr bs" "check_trailer bs ?toff = Inr t"
    by (metis linorder_not_less)
  then show ?thesis
  proof cases
    case bad
    then have "?st s = (s, ?res)" for s by (auto simp: from_store_def from_store_st_def)
    moreover have "0 \<le> max_footer_read_bytes ref" using max_footer_read_bytes_ge [of ref] by (simp add: TRAILER_SIZE_def)
    ultimately show ?thesis by (intro costsI [of 0 _ 0 _ _ _ "[]"]) (auto simp: spend_0)
  next
    case one
    then have "?st s = (spend 1 TRAILER_SIZE ?u1 s, ?res)" if "affords 2 (max_footer_read_bytes ref) s" for s
      using first [OF that] by (auto simp: from_store_def from_store_st_def Let_def split: sum.split)
    then show ?thesis using max_footer_read_bytes_ge [of ref] by (intro costsI [of 1 _ TRAILER_SIZE _ _ _ ?u1]) auto
  next
    case two
    let ?len = "int (tf_footer_length t)" and ?off = "int (tf_footer_offset t)"
    have len: "TRAILER_SIZE + ?len \<le> max_footer_read_bytes ref"
      using check_trailer_Inr [OF two(4)] by (auto simp: max_footer_read_bytes_def Let_def)
    have "?st s = (spend 2 (TRAILER_SIZE + ?len) (?u1 @ [(ref, ?off, ?len)]) s, ?res)"
      if a: "affords 2 (max_footer_read_bytes ref) s" for s
    proof -
      have "affords (1 + 1) (TRAILER_SIZE + ?len) s" using a len by (auto elim: affords_mono)
      then have "affords 1 ?len (spend 1 TRAILER_SIZE ?u1 s)" by (rule affords_spend) auto
      from budgeted_read_affords [OF this] first [OF a] two show ?thesis
        by (auto simp: from_store_def from_store_st_def Let_def spend_spend split: sum.split)
    qed
    then show ?thesis using len by (intro costsI [of 2 _ "TRAILER_SIZE + ?len" _ _ _ "?u1 @ [(ref, ?off, ?len)]"]) auto
  qed
qed

text \<open>The verification of the plans without a budget.\<close>

definition footer_unmetered ::
  "store_handle \<Rightarrow> pack_ref \<Rightarrow> footer_cache \<Rightarrow> footer_cache \<times> (pystr \<times> capture_descriptor) list result" where
  "footer_unmetered store ref c =
     (case map_of (fc_entries c) (cache_key_of ref) of
        Some cached \<Rightarrow> (move_to_end (cache_key_of ref) cached c, bind_to_its_key ref cached)
      | None \<Rightarrow>
          (case from_store (sh_store_id store) (sh_read_range store) ref of
             Inl e \<Rightarrow> (c, Inl e)
           | Inr pidx \<Rightarrow>
               (case index_descriptors pidx of
                  Inl e \<Rightarrow> (c, Inl e)
                | Inr ds \<Rightarrow> footer_keep ref \<lparr>fe_descriptors = footer_dict ds, fe_wire_bytes = pi_footer_read_bytes pidx\<rparr> c)))"

fun verify_unmetered ::
  "capture_descriptor list \<Rightarrow> (pystr \<times> store_handle) list \<Rightarrow> object_plan list \<Rightarrow> footer_cache
   \<Rightarrow> footer_cache \<times> (object_plan \<times> store_handle \<times> pack_ref) list result" where
  "verify_unmetered ds stores [] c = (c, Inr [])"
| "verify_unmetered ds stores (p # ps) c =
     (case map_of stores (op_store_id p) of
        None \<Rightarrow> (c, Inl (Error PackFormatError ''unknown pack store''))
      | Some store \<Rightarrow>
          (case footer_unmetered store (plan_ref ds p) c of
             (c1, Inl e) \<Rightarrow> (c1, Inl e)
           | (c1, Inr footer) \<Rightarrow>
               (case match_all ds footer (op_indexes p) of
                  Inl e \<Rightarrow> (c1, Inl e)
                | Inr _ \<Rightarrow>
                    (case verify_unmetered ds stores ps c1 of
                       (c2, Inl e) \<Rightarrow> (c2, Inl e)
                     | (c2, Inr vs) \<Rightarrow> (c2, Inr ((p, store, plan_ref ds p) # vs))))))"

lemma footer_descriptors_costs:
  "costs 2 (max_footer_read_bytes ref) (footer_descriptors store ref c)
     (fst (footer_unmetered store ref c)) (snd (footer_unmetered store ref c))"
proof (cases "map_of (fc_entries c) (cache_key_of ref)")
  case (Some cached)
  then show ?thesis
    using max_footer_read_bytes_ge [of ref]
    by (intro costsI [of 0 _ 0 _ _ _ "[]"])
      (simp_all add: footer_descriptors_def footer_unmetered_def spend_0 TRAILER_SIZE_def)
next
  case None
  obtain rq "by" u where c: "rq \<le> 2" "by \<le> max_footer_read_bytes ref" "\<And>s. affords 2 (max_footer_read_bytes ref) s
      \<Longrightarrow> from_store_st (sh_store_id store) (budgeted_read store) ref s
        = (spend rq by u s, from_store (sh_store_id store) (sh_read_range store) ref)"
    using from_store_costs [of ref store] by (fastforce simp: costs_def split: prod.splits)
  show ?thesis
    by (rule costsI [of rq _ "by" _ _ _ u])
      (use c None in \<open>auto simp: footer_descriptors_def footer_unmetered_def split: sum.split prod.split\<close>)
qed

definition footer_costs :: "capture_descriptor list \<Rightarrow> object_plan list \<Rightarrow> int" where
  "footer_costs ds ps = sum_list (map (\<lambda>p. max_footer_read_bytes (plan_ref ds p)) ps)"

lemma footer_costs_nonneg: "0 \<le> footer_costs ds ps"
  unfolding footer_costs_def using max_footer_read_bytes_ge
  by (intro sum_list_nonneg) (auto simp: TRAILER_SIZE_def intro: order_trans [of 0 64])

lemma verify_plans_costs:
  "costs (2 * int (length ps)) (footer_costs ds ps) (verify_plans ds stores ps c)
     (fst (verify_unmetered ds stores ps c)) (snd (verify_unmetered ds stores ps c))"
proof (induction ps arbitrary: c)
  case Nil
  show ?case by (rule costsI [of 0 _ 0 _ _ _ "[]"]) (simp_all add: spend_0 footer_costs_def)
next
  case (Cons p ps)
  let ?ref = "plan_ref ds p" and ?n = "2 * int (length ps)" and ?k = "footer_costs ds ps"
  have k: "footer_costs ds (p # ps) = max_footer_read_bytes ?ref + ?k" by (simp add: footer_costs_def)
  show ?case
  proof (cases "map_of stores (op_store_id p)")
    case None
    then show ?thesis using footer_costs_nonneg [of ds "p # ps"] by (intro costsI [of 0 _ 0 _ _ _ "[]"]) (simp_all add: spend_0)
  next
    case (Some store)
    obtain c1 r1 where fu: "footer_unmetered store ?ref c = (c1, r1)" by fastforce
    obtain rq "by" u where f: "rq \<le> 2" "by \<le> max_footer_read_bytes ?ref" "\<And>s. affords 2 (max_footer_read_bytes ?ref) s
        \<Longrightarrow> footer_descriptors store ?ref c s = (c1, spend rq by u s, r1)"
      using footer_descriptors_costs [of ?ref store c] fu by (auto simp: costs_def)
    have aff: "affords 2 (max_footer_read_bytes ?ref) s" "affords ?n ?k (spend rq by u s)"
      if "affords (2 * int (length (p # ps))) (footer_costs ds (p # ps)) s" for s
    proof -
      have a: "affords (2 + ?n) (max_footer_read_bytes ?ref + ?k) s" using that by (simp add: k)
      then show "affords ?n ?k (spend rq by u s)" by (rule affords_spend) (use f in auto)
      show "affords 2 (max_footer_read_bytes ?ref) s"
        using a footer_costs_nonneg [of ds ps] by (auto elim: affords_mono)
    qed
    show ?thesis
    proof (cases "\<exists>footer. r1 = Inr footer \<and> match_all ds footer (op_indexes p) = Inr ()")
      case False
      then show ?thesis
        using f aff(1) fu Some footer_costs_nonneg [of ds ps]
        by (intro costsI [of rq _ "by" _ _ _ u]) (auto simp: k split: sum.split)
    next
      case True
      then obtain footer where m: "r1 = Inr footer" "match_all ds footer (op_indexes p) = Inr ()" by blast
      obtain c2 r2 where vu: "verify_unmetered ds stores ps c1 = (c2, r2)" by fastforce
      obtain rq' by' u' where v: "rq' \<le> ?n" "by' \<le> ?k" "\<And>s. affords ?n ?k s
          \<Longrightarrow> verify_plans ds stores ps c1 s = (c2, spend rq' by' u' s, r2)"
        using Cons.IH [of c1] vu by (auto simp: costs_def)
      show ?thesis
        by (rule costsI [of "rq + rq'" _ "by + by'" _ _ _ "u @ u'"])
          (use f v aff m fu vu Some in \<open>auto simp: k spend_spend split: sum.split\<close>)
    qed
  qed
qed

definition fetch_verified ::
  "reader \<Rightarrow> capture_descriptor list \<Rightarrow> read_log \<Rightarrow> footer_cache \<times> (object_plan \<times> store_handle \<times> pack_ref) list result
   \<Rightarrow> reader \<times> read_log \<times> hydrated_capture list result" where
  "fetch_verified r ds trace verified =
     (case verified of
        (c, Inl e) \<Rightarrow> (r\<lparr>r_cache := c\<rparr>, trace, Inl e)
      | (c, Inr vs) \<Rightarrow>
          (case fetch_plans ds vs trace (replicate (length ds) None) of
             (trace1, Inl e) \<Rightarrow> (r\<lparr>r_cache := c\<rparr>, trace1, Inl e)
           | (trace1, Inr payloads) \<Rightarrow> (r\<lparr>r_cache := c\<rparr>, trace1, hydrated ds payloads)))"

lemma hydrate_unmetered:
  assumes "resolve r sel = Inr ds" "estimate r sel = Inr e"
  obtains trace where "\<And>bl rl. 0 \<le> bl \<Longrightarrow> 0 < rl \<Longrightarrow> he_request_count e \<le> rl \<Longrightarrow> he_request_bytes e \<le> bl
    \<Longrightarrow> hydrate r sel bl rl = fetch_verified r ds trace (verify_unmetered ds (r_stores r) (plan (r_gap r) ds) (r_cache r))"
proof -
  let ?ps = "plan (r_gap r) ds"
  obtain c vs where u: "verify_unmetered ds (r_stores r) ?ps (r_cache r) = (c, vs)" by fastforce
  have e: "he_request_count e = payload_requests ?ps + 2 * int (length ?ps)" "he_request_bytes e = planned_bytes ?ps + footer_costs ds ?ps"
    using assms by (auto simp: estimate_def footer_costs_def Let_def)
  obtain rq "by" reads where v: "\<And>s. affords (2 * int (length ?ps)) (footer_costs ds ?ps) s
      \<Longrightarrow> verify_plans ds (r_stores r) ?ps (r_cache r) s = (c, spend rq by reads s, vs)"
    using verify_plans_costs [of ?ps ds "r_stores r" "r_cache r"] u by (auto simp: costs_def)
  show ?thesis
  proof (rule that [of reads])
    fix bl rl assume l: "0 \<le> bl" "0 < rl" "he_request_count e \<le> rl" "he_request_bytes e \<le> bl"
    let ?s = "(\<lparr>rb_requests = rl - payload_requests ?ps, rb_bytes = bl - planned_bytes ?ps\<rparr>, [])"
    have "affords (2 * int (length ?ps)) (footer_costs ds ?ps) ?s" using l e by (simp add: affords_def)
    from v [OF this] have "verify_plans ds (r_stores r) ?ps (r_cache r) ?s = (c, (fst (spend rq by reads ?s), reads), vs)"
      by (simp add: spend_def)
    moreover have "payload_requests ?ps \<le> rl" "planned_bytes ?ps \<le> bl" using l e footer_costs_nonneg [of ds ?ps] by auto
    ultimately show "hydrate r sel bl rl = fetch_verified r ds reads (verify_unmetered ds (r_stores r) ?ps (r_cache r))"
      using assms(1) l by (simp add: hydrate_def Let_def fetch_verified_def u split: sum.split)
  qed
qed

section \<open>Hydration succeeds on intact packs\<close>

text \<open>The ranges of a plan stay between bounds of the records they cover.\<close>

lemma plan_ranges_inside:
  assumes "\<forall>i \<in> set (current @ is). lo \<le> d_off (ds ! i) \<and> d_off (ds ! i) \<le> d_end (ds ! i) \<and> d_end (ds ! i) \<le> hi"
    and "current = [] \<or> lo \<le> start \<and> start \<le> end \<and> end \<le> hi" "rr \<in> set (plan_ranges gap ds current start end is)"
  shows "lo \<le> rr_offset rr \<and> 0 \<le> rr_length rr \<and> rr_offset rr + rr_length rr \<le> hi"
  using assms
proof (induction gap ds current start "end" "is" rule: plan_ranges.induct)
  case (1 gap ds current start "end")
  then show ?case by (auto split: if_splits)
next
  case (2 gap ds current start "end" i "is")
  have i: "lo \<le> d_off (ds ! i)" "d_off (ds ! i) \<le> d_end (ds ! i)" "d_end (ds ! i) \<le> hi" using 2(4) by auto
  consider (a) "current = []" | (b) "current \<noteq> []" "d_off (ds ! i) \<le> end + gap"
    | (c) "current \<noteq> []" "\<not> d_off (ds ! i) \<le> end + gap" by blast
  then show ?case
  proof cases
    case a
    show ?thesis by (rule 2(1) [OF refl refl a]) (use 2(4-6) a i in \<open>auto simp: Let_def\<close>)
  next
    case b
    show ?thesis by (rule 2(2) [OF refl refl b]) (use 2(4-6) b i in \<open>auto simp: Let_def\<close>)
  next
    case c
    have "rr = \<lparr>rr_indexes = current, rr_offset = start, rr_length = end - start\<rparr>
       \<or> rr \<in> set (plan_ranges gap ds [i] (d_off (ds ! i)) (d_end (ds ! i)) is)"
      using 2(6) c by (auto simp: Let_def)
    then show ?thesis
    proof
      assume "rr \<in> set (plan_ranges gap ds [i] (d_off (ds ! i)) (d_end (ds ! i)) is)"
      then show ?thesis by (intro 2(3) [OF refl refl c]) (use 2(4-5) i in auto)
    qed (use 2(5) c in auto)
  qed
qed

lemma plan_inside:
  assumes "p \<in> set (plan gap ds)" "rr \<in> set (op_ranges p)"
    "\<forall>i \<in> set (op_indexes p). lo \<le> d_off (ds ! i) \<and> d_off (ds ! i) \<le> d_end (ds ! i) \<and> d_end (ds ! i) \<le> hi"
  shows "lo \<le> rr_offset rr \<and> 0 \<le> rr_length rr \<and> rr_offset rr + rr_length rr \<le> hi"
proof -
  obtain g where g: "p = plan_group gap ds g" using assms(1) by (auto simp: plan_def)
  have "rr \<in> set (plan_ranges gap ds [] 0 0 (op_indexes p))"
    using assms(2) by (simp add: g plan_group_def Let_def split: prod.splits)
  then show ?thesis by (intro plan_ranges_inside) (use assms(3) in auto)
qed

lemma take_payloads_succeeds:
  "\<forall>i \<in> set is. verify_payload (ds ! i) (payload_in (ds ! i) base block) = Inr () \<Longrightarrow> \<exists>ps'. take_payloads ds block base is ps = Inr ps'"
proof (induction "is" arbitrary: ps)
  case (Cons i "is")
  have eq: "slice (d_off (ds ! i) - base) (d_off (ds ! i) - base + loc_stored_length (desc_locator (ds ! i))) block
      = payload_in (ds ! i) base block" by (simp add: payload_in_def algebra_simps)
  show ?case using Cons by (simp add: Let_def eq)
qed simp

lemma fetch_ranges_succeeds:
  assumes "\<forall>rr \<in> set rrs. \<exists>block. sh_read_range store ref (rr_offset rr) (rr_length rr) = Inr block
     \<and> int (length block) = rr_length rr
     \<and> (\<forall>i \<in> set (rr_indexes rr). verify_payload (ds ! i) (payload_in (ds ! i) (rr_offset rr) block) = Inr ())"
  shows "\<exists>trace' ps'. fetch_ranges ds store ref rrs trace ps = (trace', Inr ps')"
  using assms
proof (induction rrs arbitrary: trace ps)
  case (Cons rr rrs)
  then obtain block where b: "sh_read_range store ref (rr_offset rr) (rr_length rr) = Inr block" "int (length block) = rr_length rr"
    "\<forall>i \<in> set (rr_indexes rr). verify_payload (ds ! i) (payload_in (ds ! i) (rr_offset rr) block) = Inr ()" by auto
  obtain ps1 where "take_payloads ds block (rr_offset rr) (rr_indexes rr) ps = Inr ps1" using take_payloads_succeeds [OF b(3)] by blast
  then show ?case using Cons b by (simp add: Let_def)
qed simp

lemma fetch_plans_succeeds:
  assumes "\<forall>(p, store, ref) \<in> set vs. \<forall>trace ps. \<exists>trace' ps'. fetch_ranges ds store ref (op_ranges p) trace ps = (trace', Inr ps')"
  shows "\<exists>trace' ps'. fetch_plans ds vs trace ps = (trace', Inr ps')"
  using assms
proof (induction vs arbitrary: trace ps)
  case (Cons v vs)
  obtain p store ref where v: "v = (p, store, ref)" by (cases v)
  obtain trace1 ps1 where "fetch_ranges ds store ref (op_ranges p) trace ps = (trace1, Inr ps1)"
    using Cons.prems v by fastforce
  moreover have "\<exists>trace' ps'. fetch_plans ds vs trace1 ps1 = (trace', Inr ps')" by (rule Cons.IH) (use Cons.prems in simp)
  ultimately show ?case by (simp add: v)
qed simp

lemma payload_in_slice:
  assumes "0 \<le> off" "off \<le> d_off d" "d_off d \<le> d_end d" "d_end d \<le> off + len" "off + len \<le> int (length data)"
  shows "payload_in d off (slice off (off + len) data) = slice (d_off d) (d_end d) data"
proof -
  have n: "nat (d_off d - off) = nat (d_off d) - nat off" "nat (d_end d - off) = nat (d_end d) - nat off"
    "nat off \<le> nat (d_off d)" "nat (d_off d) \<le> nat (d_end d)" "nat (d_end d) \<le> nat (off + len)"
    using assms by (auto simp: nat_diff_distrib)
  have "nat (d_end d) - nat (d_off d) \<le> nat (off + len) - nat (d_off d)" using n(5) by (rule diff_le_mono)
  then show ?thesis unfolding payload_in_def slice_def using n by (simp add: drop_take min_def)
qed


text \<open>The footer dictionary of a pack whose capture identifiers are distinct.\<close>

lemma footer_dict_distinct:
  assumes "distinct (map desc_capture_id ds)"
  shows "footer_dict ds = map (\<lambda>d. (desc_capture_id d, d)) ds"
proof -
  have "foldl (\<lambda>m d. dict_set (desc_capture_id d) d m) m ds = m @ map (\<lambda>d. (desc_capture_id d, d)) ds"
    if "distinct (map desc_capture_id ds)" "fst ` set m \<inter> desc_capture_id ` set ds = {}" for m
    using that
  proof (induction ds arbitrary: m)
    case (Cons d ds)
    then have "desc_capture_id d \<notin> set (map fst m)" by auto
    from dict_set_fresh [OF this] Cons show ?case by auto
  qed simp
  from this [OF assms, of "[]"] show ?thesis by (simp add: footer_dict_def)
qed

lemma evict_subset: "set (fst (evict wire limit bytes_limit es bytes)) \<subseteq> set es"
  by (induction es arbitrary: bytes) auto

lemma cache_insert_entries:
  "e \<in> set (fc_entries (cache_insert key entry c)) \<Longrightarrow> e \<in> set (fc_entries c) \<or> e = (key, entry)"
  using evict_subset [of "fe_wire_bytes entry" "fc_limit c" "fc_bytes_limit c" "fc_entries c" "fc_bytes c"]
  by (auto simp: cache_insert_def split: prod.splits if_splits)

lemma read_payload_slice:
  assumes "from_bytes data = Inr rd" "read_payload rd d = Inr x"
  shows "0 \<le> d_off d \<and> d_off d \<le> d_end d \<and> d_end d \<le> int (length data) \<and> x = slice (d_off d) (d_end d) data
    \<and> verify_payload d x = Inr ()"
proof -
  obtain i where i: "by_capture_id rd (desc_capture_id d) = Some i" "d_off d = ix_offset i"
    "loc_stored_length (desc_locator d) = ix_stored_length i"
    "x = slice (ix_offset i) (ix_offset i + ix_stored_length i) (rd_data rd)" "verify_payload d x = Inr ()"
    using assms(2) by (auto simp: read_payload_def Let_def rbind_eq_Inr split: option.splits if_splits)
  have mem: "i \<in> set (rd_records rd)" using map_of_SomeD [OF i(1) [unfolded by_capture_id_def]] by auto
  have ok: "indexed_ok fo i" if "parse_records dd fo = Inr (rd_records rd)" for fo dd
    using parse_records_ok(1) [OF that] mem by (simp add: list_all_iff)
  from assms(1) show ?thesis
  proof (rule from_bytes_Inr)
    fix t dd
    assume h: "int (tf_footer_offset t) + int (tf_footer_length t) = int (length data) - TRAILER_SIZE"
      "parse_records dd (int (tf_footer_offset t)) = Inr (rd_records rd)" "rd_data rd = data"
    have "HEADER_SIZE \<le> ix_offset i" "0 \<le> ix_stored_length i" "ix_offset i + ix_stored_length i \<le> int (tf_footer_offset t)"
      using ok [OF h(2)] by (simp_all add: indexed_ok_def)
    with h(1,3) i show ?thesis by (auto simp: HEADER_SIZE_def TRAILER_SIZE_def)
  qed
qed

text \<open>The packs a hydration reads: each descriptor of the catalog is one of the pack's own, the pack is intact at
  that record, and a pack identity stands for one reference.\<close>

definition handle :: "pystr \<Rightarrow> (pack_ref \<Rightarrow> int \<Rightarrow> int \<Rightarrow> bytes result) \<Rightarrow> store_handle" where
  "handle store_id read_range = \<lparr>sh_store_id = store_id, sh_read_range = read_range\<rparr>"

definition published :: "(pack_ref \<Rightarrow> bytes \<Rightarrow> bool) \<Rightarrow> pack_ref \<Rightarrow> pack_reader \<Rightarrow> bool" where
  "published holds ref rd \<longleftrightarrow> (\<exists>data. holds ref data \<and> from_bytes data = Inr rd) \<and> ref_pack_id ref = rd_pack_id rd
     \<and> ref_record_count ref = int (length (rd_records rd))
     \<and> descriptors_of ref (rd_records rd) = Inr (map (descriptor_of ref) (rd_records rd))"

definition footer_of :: "pack_ref \<Rightarrow> pack_reader \<Rightarrow> (pystr \<times> capture_descriptor) list" where
  "footer_of ref rd = footer_dict (map (descriptor_of ref) (rd_records rd))"

context pack_store
begin

lemma from_store_published:
  assumes "published holds ref rd"
  shows "\<exists>pidx. from_store store_id read_range ref = Inr pidx
     \<and> index_descriptors pidx = Inr (map (descriptor_of ref) (rd_records rd))"
proof -
  obtain data where d: "holds ref data" "from_bytes data = Inr rd" using assms by (auto simp: published_def)
  then obtain n where "from_store store_id read_range ref
      = Inr \<lparr>pi_ref = ref, pi_records = rd_records rd, pi_footer_read_bytes = n\<rparr>"
    using from_store_agrees [OF d] assms by (auto simp: published_def)
  then show ?thesis using assms by (simp add: published_def index_descriptors_def)
qed

lemma published_distinct:
  "published holds ref rd \<Longrightarrow> distinct (map desc_capture_id (map (descriptor_of ref) (rd_records rd)))"
  unfolding published_def
  by (elim conjE exE from_bytes_Inr) (use parse_records_ok(3) in \<open>auto simp: comp_def desc_capture_id_def descriptor_of_def\<close>)

lemma footer_of_eq:
  "published holds ref rd \<Longrightarrow> footer_of ref rd = map (\<lambda>d. (desc_capture_id d, d)) (map (descriptor_of ref) (rd_records rd))"
  unfolding footer_of_def by (rule footer_dict_distinct) (rule published_distinct)

lemma footer_cached:
  assumes pub: "published holds ref rd" and agree: "\<forall>e. (cache_key_of ref, e) \<in> set (fc_entries c) \<longrightarrow> fe_descriptors e = footer_of ref rd"
  shows "\<exists>c'. footer_unmetered (handle store_id read_range) ref c = (c', Inr (footer_of ref rd))
    \<and> (\<forall>key e. (key, e) \<in> set (fc_entries c')
        \<longrightarrow> (key, e) \<in> set (fc_entries c) \<or> key = cache_key_of ref \<and> fe_descriptors e = footer_of ref rd)"
proof (cases "map_of (fc_entries c) (cache_key_of ref)")
  case None
  obtain pidx where p: "from_store store_id read_range ref = Inr pidx"
    "index_descriptors pidx = Inr (map (descriptor_of ref) (rd_records rd))" using from_store_published [OF pub] by blast
  define entry where "entry = \<lparr>fe_descriptors = footer_of ref rd, fe_wire_bytes = pi_footer_read_bytes pidx\<rparr>"
  have "footer_unmetered (handle store_id read_range) ref c = (cache_insert (cache_key_of ref) entry c, Inr (footer_of ref rd))"
    using None p by (simp add: footer_unmetered_def footer_keep_def handle_def entry_def footer_of_def)
  moreover have "fe_descriptors entry = footer_of ref rd" by (simp add: entry_def)
  ultimately show ?thesis using cache_insert_entries [of _ "cache_key_of ref" entry c] by (metis prod.inject)
next
  case (Some cached)
  have f: "fe_descriptors cached = footer_of ref rd" using agree map_of_SomeD [OF Some] by blast
  have "map (\<lambda>d. md_tenant_id (desc_metadata (snd d))) (footer_of ref rd) = map (\<lambda>i. md_tenant_id (ix_metadata i)) (rd_records rd)"
    by (simp add: footer_of_eq [OF pub] comp_def descriptor_of_def)
  then have "bind_to_its_key ref cached = Inr (footer_of ref rd)"
    using pub by (auto simp: bind_to_its_key_def f published_def descriptors_of_def rbind_eq_Inr)
  then show ?thesis using Some f map_of_SomeD [OF Some] by (auto simp: footer_unmetered_def move_to_end_def)
qed

lemma match_published:
  assumes "published holds ref rd" "\<forall>i \<in> set is. ds ! i \<in> descriptor_of ref ` set (rd_records rd)"
  shows "match_all ds (footer_of ref rd) is = Inr ()"
proof -
  have "require_footer_match (ds ! i) (footer_of ref rd) = Inr ()" if "i \<in> set is" for i
  proof -
    have "map_of (footer_of ref rd) (desc_capture_id (ds ! i)) = Some (ds ! i)"
      unfolding footer_of_eq [OF assms(1)]
      by (rule map_of_is_SomeI) (use published_distinct [OF assms(1)] assms(2) that in \<open>auto simp: comp_def\<close>)
    then show ?thesis by (simp add: require_footer_match_def)
  qed
  then show ?thesis by (induction "is") auto
qed

lemma verify_published:
  assumes "\<forall>p \<in> set ps. map_of stores (op_store_id p) = Some (handle store_id read_range)
      \<and> published holds (plan_ref ds p) (rds (plan_ref ds p))
      \<and> (\<forall>i \<in> set (op_indexes p). ds ! i \<in> descriptor_of (plan_ref ds p) ` set (rd_records (rds (plan_ref ds p))))"
    and "inj_on cache_key_of (plan_ref ds ` set ps')" "set ps \<subseteq> set ps'"
    and "\<forall>ref \<in> plan_ref ds ` set ps'. \<forall>e. (cache_key_of ref, e) \<in> set (fc_entries c) \<longrightarrow> fe_descriptors e = footer_of ref (rds ref)"
  shows "\<exists>c'. verify_unmetered ds stores ps c = (c', Inr (map (\<lambda>p. (p, handle store_id read_range, plan_ref ds p)) ps))"
  using assms
proof (induction ps arbitrary: c)
  case (Cons p ps)
  let ?ref = "plan_ref ds p"
  have p: "published holds ?ref (rds ?ref)" "?ref \<in> plan_ref ds ` set ps'" using Cons.prems(1,3) by auto
  obtain c1 where c1: "footer_unmetered (handle store_id read_range) ?ref c = (c1, Inr (footer_of ?ref (rds ?ref)))"
    "\<forall>key e. (key, e) \<in> set (fc_entries c1)
        \<longrightarrow> (key, e) \<in> set (fc_entries c) \<or> key = cache_key_of ?ref \<and> fe_descriptors e = footer_of ?ref (rds ?ref)"
    using footer_cached [OF p(1)] Cons.prems(4) p(2) by blast
  have m: "match_all ds (footer_of ?ref (rds ?ref)) (op_indexes p) = Inr ()"
    by (rule match_published [OF p(1)]) (use Cons.prems(1) in simp)
  have "fe_descriptors e = footer_of ref (rds ref)"
    if "ref \<in> plan_ref ds ` set ps'" "(cache_key_of ref, e) \<in> set (fc_entries c1)" for ref e
  proof (cases "(cache_key_of ref, e) \<in> set (fc_entries c)")
    case True
    then show ?thesis using that(1) Cons.prems(4) by blast
  next
    case False
    then have k: "cache_key_of ref = cache_key_of ?ref" "fe_descriptors e = footer_of ?ref (rds ?ref)" using c1(2) that(2) by blast+
    then have "ref = ?ref" using inj_onD [OF Cons.prems(2) _ that(1) p(2)] by blast
    then show ?thesis using k(2) by simp
  qed
  then have "\<exists>c'. verify_unmetered ds stores ps c1 = (c', Inr (map (\<lambda>p. (p, handle store_id read_range, plan_ref ds p)) ps))"
    using Cons.prems(1-3) by (intro Cons.IH) simp_all
  then obtain c' where "verify_unmetered ds stores ps c1 = (c', Inr (map (\<lambda>p. (p, handle store_id read_range, plan_ref ds p)) ps))"
    by blast
  moreover have "map_of stores (op_store_id p) = Some (handle store_id read_range)" using Cons.prems(1) by (meson list.set_intros(1))
  ultimately show ?case by (simp add: c1(1) m)
qed simp

lemma fetch_published:
  assumes p: "p \<in> set (plan gap ds)" "holds ref data" "from_bytes data = Inr rd"
    and pays: "\<forall>i \<in> set (op_indexes p). \<exists>x. read_payload rd (ds ! i) = Inr x"
  shows "\<exists>trace' ps'. fetch_ranges ds (handle store_id read_range) ref (op_ranges p) trace ps = (trace', Inr ps')"
proof (rule fetch_ranges_succeeds, rule)
  fix rr assume rr: "rr \<in> set (op_ranges p)"
  have ok: "plan_ok ds p" using plan_all_ok [OF p(1)] .
  then have c: "covers ds rr" using rr by (simp add: plan_ok_def)
  have "set (rr_indexes rr) \<subseteq> set (concat (map rr_indexes (op_ranges p)))" using rr by auto
  moreover have "concat (map rr_indexes (op_ranges p)) = op_indexes p" using ok by (simp add: plan_ok_def)
  ultimately have sub: "set (rr_indexes rr) \<subseteq> set (op_indexes p)" by metis
  have rec: "0 \<le> d_off (ds ! i) \<and> d_off (ds ! i) \<le> d_end (ds ! i) \<and> d_end (ds ! i) \<le> int (length data)
      \<and> verify_payload (ds ! i) (slice (d_off (ds ! i)) (d_end (ds ! i)) data) = Inr ()" if m: "i \<in> set (op_indexes p)" for i
  proof -
    obtain x where "read_payload rd (ds ! i) = Inr x" using pays m by blast
    from read_payload_slice [OF p(3) this] show ?thesis by auto
  qed
  have b: "0 \<le> rr_offset rr \<and> 0 \<le> rr_length rr \<and> rr_offset rr + rr_length rr \<le> int (length data)"
    by (rule plan_inside [OF p(1) rr]) (use rec in blast)
  then have r: "read_range ref (rr_offset rr) (rr_length rr) = Inr (slice (rr_offset rr) (rr_offset rr + rr_length rr) data)"
    by (intro read_holds [OF p(2)]) auto
  show "\<exists>block. sh_read_range (handle store_id read_range) ref (rr_offset rr) (rr_length rr) = Inr block
     \<and> int (length block) = rr_length rr
     \<and> (\<forall>i \<in> set (rr_indexes rr). verify_payload (ds ! i) (payload_in (ds ! i) (rr_offset rr) block) = Inr ())"
  proof (intro exI conjI ballI)
    show "sh_read_range (handle store_id read_range) ref (rr_offset rr) (rr_length rr)
        = Inr (slice (rr_offset rr) (rr_offset rr + rr_length rr) data)" using r by (simp add: handle_def)
    show "int (length (slice (rr_offset rr) (rr_offset rr + rr_length rr) data)) = rr_length rr" using b by (simp add: length_slice)
    fix i assume i: "i \<in> set (rr_indexes rr)"
    have "payload_in (ds ! i) (rr_offset rr) (slice (rr_offset rr) (rr_offset rr + rr_length rr) data)
        = slice (d_off (ds ! i)) (d_end (ds ! i)) data"
      by (rule payload_in_slice) (use b c i rec sub in \<open>auto simp: covers_def\<close>)
    then show "verify_payload (ds ! i) (payload_in (ds ! i) (rr_offset rr) (slice (rr_offset rr) (rr_offset rr + rr_length rr) data)) = Inr ()"
      using rec sub i by auto
  qed
qed

end

abbreviation d_ref :: "capture_descriptor \<Rightarrow> pack_ref" where "d_ref d \<equiv> pack_ref_of (desc_locator d)"

lemma pack_ref_of_descriptor: "d_ref (descriptor_of ref i) = ref"
  by (simp add: pack_ref_of_def descriptor_of_def)

lemma plan_hd_in: "p \<in> set (plan gap ds) \<Longrightarrow> hd (op_indexes p) \<in> set (op_indexes p)"
  using plan_all_ok by (fastforce simp: plan_ok_def)

lemma plan_ref_in:
  assumes "p \<in> set (plan gap ds)" "i \<in> set (op_indexes p)"
  shows "i < length ds" "plan_ref ds p \<in> d_ref ` set ds" "ref_pack_id (plan_ref ds p) = ref_pack_id (d_ref (ds ! i))"
    "op_store_id p = loc_store_id (desc_locator (ds ! i))"
proof -
  have ok: "plan_ok ds p" using plan_all_ok [OF assms(1)] .
  have h: "hd (op_indexes p) \<in> set (op_indexes p)" using plan_hd_in [OF assms(1)] .
  have lt: "j < length ds" if "j \<in> set (op_indexes p)" for j
  proof -
    have "j \<in> set (concat (map op_indexes (plan gap ds)))" using that assms(1) by auto
    then show ?thesis unfolding plan_distinct(2) by simp
  qed
  show "i < length ds" using lt assms(2) .
  show "plan_ref ds p \<in> d_ref ` set ds" using lt [OF h] by (simp add: plan_ref_def)
  have "object_of (ds ! i) = (op_store_id p, op_pack_id p, op_object_key p)"
    "object_of (ds ! hd (op_indexes p)) = (op_store_id p, op_pack_id p, op_object_key p)"
    using ok assms(2) h unfolding plan_ok_def by blast+
  then show "ref_pack_id (plan_ref ds p) = ref_pack_id (d_ref (ds ! i))" "op_store_id p = loc_store_id (desc_locator (ds ! i))"
    by (simp_all add: object_of_def Let_def plan_ref_def pack_ref_of_def)
qed

text \<open>Captures whose packs are published: the catalog's descriptor is the footer's, the record is intact, and one
  pack identity stands for one reference.\<close>

definition intact ::
  "(pack_ref \<Rightarrow> bytes \<Rightarrow> bool) \<Rightarrow> (pack_ref \<Rightarrow> pack_reader) \<Rightarrow> capture_descriptor list \<Rightarrow> bool" where
  "intact holds rds ds \<longleftrightarrow>
     (\<forall>d \<in> set ds. published holds (d_ref d) (rds (d_ref d)) \<and> d \<in> descriptor_of (d_ref d) ` set (rd_records (rds (d_ref d)))
        \<and> (\<exists>x. read_payload (rds (d_ref d)) d = Inr x))
     \<and> inj_on ref_pack_id (d_ref ` set ds)"

context pack_store
begin

lemma intact_plan:
  assumes "intact holds rds ds" "p \<in> set (plan gap ds)"
  shows "published holds (plan_ref ds p) (rds (plan_ref ds p))" "op_store_id p = store_id"
    "\<forall>i \<in> set (op_indexes p). d_ref (ds ! i) = plan_ref ds p
       \<and> ds ! i \<in> descriptor_of (plan_ref ds p) ` set (rd_records (rds (plan_ref ds p)))
       \<and> (\<exists>x. read_payload (rds (plan_ref ds p)) (ds ! i) = Inr x)"
proof -
  have eq: "d_ref (ds ! i) = plan_ref ds p" if "i \<in> set (op_indexes p)" for i
  proof -
    note r = plan_ref_in [OF assms(2) that]
    have "inj_on ref_pack_id (d_ref ` set ds)" using assms(1) by (simp add: intact_def)
    from inj_onD [OF this r(3) r(2)] r(1) show ?thesis by simp
  qed
  have h: "hd (op_indexes p) \<in> set (op_indexes p)" using plan_hd_in [OF assms(2)] .
  have d: "ds ! i \<in> set ds" if "i \<in> set (op_indexes p)" for i using plan_ref_in(1) [OF assms(2) that] by simp
  show pub: "published holds (plan_ref ds p) (rds (plan_ref ds p))" using assms(1) d [OF h] eq [OF h] unfolding intact_def by metis
  have "ref_store_id (plan_ref ds p) = store_id" using pub holds_store by (auto simp: published_def)
  then show "op_store_id p = store_id" using plan_ref_in(4) [OF assms(2) h] by (simp add: plan_ref_def pack_ref_of_def)
  show "\<forall>i \<in> set (op_indexes p). d_ref (ds ! i) = plan_ref ds p
       \<and> ds ! i \<in> descriptor_of (plan_ref ds p) ` set (rd_records (rds (plan_ref ds p)))
       \<and> (\<exists>x. read_payload (rds (plan_ref ds p)) (ds ! i) = Inr x)"
  proof
    fix i assume i: "i \<in> set (op_indexes p)"
    show "d_ref (ds ! i) = plan_ref ds p \<and> ds ! i \<in> descriptor_of (plan_ref ds p) ` set (rd_records (rds (plan_ref ds p)))
       \<and> (\<exists>x. read_payload (rds (plan_ref ds p)) (ds ! i) = Inr x)"
      using assms(1) d [OF i] eq [OF i] unfolding intact_def by metis
  qed
qed

lemma hydrate_fetches:
  assumes r: "resolve r sel = Inr ds" "estimate r sel = Inr e" and l: "0 \<le> bl" "0 < rl" "he_request_count e \<le> rl" "he_request_bytes e \<le> bl"
    and st: "map_of (r_stores r) store_id = Some (handle store_id read_range)" and ok: "intact holds rds ds"
    and cache: "fc_entries (r_cache r) = []"
  obtains r' trace0 trace1 payloads where
    "hydrate r sel bl rl = (r', trace1, hydrated ds payloads)"
    "fetch_plans ds (map (\<lambda>p. (p, handle store_id read_range, plan_ref ds p)) (plan (r_gap r) ds)) trace0
       (replicate (length ds) None) = (trace1, Inr payloads)"
proof -
  let ?ps = "plan (r_gap r) ds"
  obtain trace where t: "hydrate r sel bl rl = fetch_verified r ds trace (verify_unmetered ds (r_stores r) ?ps (r_cache r))"
    using hydrate_unmetered [OF r] l by metis
  note ip = intact_plan [OF ok, where gap = "r_gap r"]
  have "plan_ref ds ` set ?ps \<subseteq> d_ref ` set ds" using plan_ref_in(2) [OF _ plan_hd_in] by blast
  then have "inj_on ref_pack_id (plan_ref ds ` set ?ps)" using ok inj_on_subset unfolding intact_def by blast
  then have inj: "inj_on cache_key_of (plan_ref ds ` set ?ps)" by (auto simp: inj_on_def cache_key_of_def)
  have "\<exists>c'. verify_unmetered ds (r_stores r) ?ps (r_cache r) = (c', Inr (map (\<lambda>p. (p, handle store_id read_range, plan_ref ds p)) ?ps))"
    by (rule verify_published [where rds = rds and ps' = ?ps]) (use ip st inj cache in auto)
  moreover have "\<exists>trace' ps'. fetch_plans ds (map (\<lambda>p. (p, handle store_id read_range, plan_ref ds p)) ?ps) trace
      (replicate (length ds) None) = (trace', Inr ps')"
  proof (rule fetch_plans_succeeds, clarsimp)
    fix p trace ps assume p: "p \<in> set ?ps"
    obtain data where "holds (plan_ref ds p) data" "from_bytes data = Inr (rds (plan_ref ds p))"
      using ip(1) [OF p] by (auto simp: published_def)
    from fetch_published [OF p this] ip(3) [OF p]
    show "\<exists>trace' ps'. fetch_ranges ds (handle store_id read_range) (plan_ref ds p) (op_ranges p) trace ps = (trace', Inr ps')" by blast
  qed
  ultimately show ?thesis using t that by (auto simp: fetch_verified_def)
qed

lemma fetched_published:
  assumes "fetched (handle store_id read_range) ref d x" "holds ref data" "from_bytes data = Inr rd" "read_payload rd d = Inr y"
  shows "x = y"
proof -
  obtain off len block where h: "read_range ref off len = Inr block" "off \<le> d_off d" "d_end d \<le> off + len" "x = payload_in d off block"
    using assms(1) by (auto simp: fetched_def handle_def)
  note y = read_payload_slice [OF assms(3,4)]
  have b: "0 \<le> off" "off + len \<le> int (length data)" using read_inside [OF assms(2) h(1)] by auto
  then have "block = slice off (off + len) data" using read_holds [OF assms(2), of off len] h y by auto
  then show ?thesis using payload_in_slice [of off d len data] b h y by auto
qed

lemma hydrate_published:
  assumes r: "resolve r sel = Inr ds" "estimate r sel = Inr e" and l: "0 \<le> bl" "0 < rl" "he_request_count e \<le> rl" "he_request_bytes e \<le> bl"
    and st: "map_of (r_stores r) store_id = Some (handle store_id read_range)" and ok: "intact holds rds ds"
    and cache: "fc_entries (r_cache r) = []"
  shows "\<exists>r' trace hs. hydrate r sel bl rl = (r', trace, Inr hs) \<and> map hc_descriptor hs = ds
    \<and> (\<forall>h \<in> set hs. read_payload (rds (d_ref (hc_descriptor h))) (hc_descriptor h) = Inr (hc_payload h))"
proof -
  let ?vs = "map (\<lambda>p. (p, handle store_id read_range, plan_ref ds p)) (plan (r_gap r) ds)"
  obtain r' trace0 trace1 payloads where h: "hydrate r sel bl rl = (r', trace1, hydrated ds payloads)"
    "fetch_plans ds ?vs trace0 (replicate (length ds) None) = (trace1, Inr payloads)"
    by (rule hydrate_fetches [OF assms])
  note pd = plan_distinct [where gap = "r_gap r" and ds = ds]
  have ix: "map (\<lambda>v. op_indexes (fst v)) ?vs = map op_indexes (plan (r_gap r) ds)" by (simp add: comp_def)
  have "length payloads = length (replicate (length ds) (None :: bytes option))
    \<and> (\<forall>j. j \<notin> set (concat (map (\<lambda>v. op_indexes (fst v)) ?vs)) \<longrightarrow> payloads ! j = replicate (length ds) None ! j)
    \<and> (\<forall>(p, store, ref) \<in> set ?vs. \<forall>i \<in> set (op_indexes p). \<exists>x. payloads ! i = Some x \<and> fetched store ref (ds ! i) x)"
    by (rule fetch_plans_spec [OF h(2)], unfold ix pd(2)) (use pd(1) plan_all_ok in auto)
  then have fp: "length payloads = length ds"
    "\<forall>p \<in> set (plan (r_gap r) ds). \<forall>i \<in> set (op_indexes p). \<exists>x. payloads ! i = Some x
       \<and> fetched (handle store_id read_range) (plan_ref ds p) (ds ! i) x" by auto
  have each: "\<exists>x. payloads ! i = Some x \<and> read_payload (rds (d_ref (ds ! i))) (ds ! i) = Inr x" if i: "i < length ds" for i
  proof -
    obtain p where p: "p \<in> set (plan (r_gap r) ds)" "i \<in> set (op_indexes p)" using pd(2) i by (auto simp: set_eq_iff)
    note ip = intact_plan [OF ok p(1)]
    obtain data where d: "holds (plan_ref ds p) data" "from_bytes data = Inr (rds (plan_ref ds p))"
      using ip(1) by (auto simp: published_def)
    obtain x where x: "payloads ! i = Some x" "fetched (handle store_id read_range) (plan_ref ds p) (ds ! i) x" using fp(2) p by blast
    obtain y where y: "d_ref (ds ! i) = plan_ref ds p" "read_payload (rds (plan_ref ds p)) (ds ! i) = Inr y" using ip(3) p(2) by blast
    have "x = y" using fetched_published [OF x(2) d y(2)] .
    then show ?thesis using x(1) y by simp
  qed
  then have "None \<notin> set payloads" using fp(1) by (metis in_set_conv_nth option.distinct(1))
  then have hs: "hydrated ds payloads = Inr (map (\<lambda>(d, p). \<lparr>hc_descriptor = d, hc_payload = the p\<rparr>) (zip ds payloads))"
    by (simp add: hydrated_def)
  show ?thesis
    unfolding h(1) hs using each fp(1)
    by (auto simp: comp_def case_prod_unfold in_set_zip) (metis option.sel)
qed

end

text \<open>The hydration of published captures over the filesystem store.\<close>

definition fs_handle :: "fs_store \<Rightarrow> store_handle" where
  "fs_handle st = handle (fs_store_id st) (fs_read_range st)"

end
