(* ===== verification/Catalog.thy ===== *)
theory Catalog
  imports Reader
begin

text \<open>
  The catalog indexer and the reconciler of \<^verbatim>\<open>storage/capture/catalog.py\<close>. The catalog writer is a protocol of the
  source, implemented over a database: here it is a record of state-passing operations, a parameter of the
  indexer. The indexer keeps a log of the calls it makes on the writer, with their outcomes, so that the order of
  its effects can be stated. The pack store and the inventory are read-only handles.
\<close>

section \<open>Configuration and results\<close>

record indexer_config =
  cfg_max_packs :: int
  cfg_max_rows_per_insert :: int
  cfg_max_estimated_bytes :: int
  cfg_max_failure_details :: int
  cfg_max_publish_attempts :: int

definition CatalogIndexerConfig :: "int \<Rightarrow> int \<Rightarrow> int \<Rightarrow> int \<Rightarrow> int \<Rightarrow> indexer_config result" where
  "CatalogIndexerConfig max_packs max_rows max_bytes max_details max_attempts =
     (if list_all (\<lambda>v. 0 < v) [max_packs, max_rows, max_bytes, max_details, max_attempts]
      then Inr \<lparr>cfg_max_packs = max_packs, cfg_max_rows_per_insert = max_rows, cfg_max_estimated_bytes = max_bytes,
                cfg_max_failure_details = max_details, cfg_max_publish_attempts = max_attempts\<rparr>
      else Inl (Error ValueError ''must be positive''))"

text \<open>\<^verbatim>\<open>type(exc).__name__\<close> is the class itself, \<^verbatim>\<open>str(exc)[:512]\<close> is cut from the constant part of the message.\<close>

record index_failure =
  if_pack_id :: pystr
  if_object_key :: pystr
  if_error_type :: exc_class
  if_message :: string

record index_result =
  ir_requested_packs :: int
  ir_skipped_packs :: int
  ir_indexed_packs :: int
  ir_indexed_rows :: int
  ir_failed_packs :: int
  ir_descriptor_inserts :: int
  ir_estimated_bytes :: int
  ir_elapsed_ns :: int
  ir_failures :: "index_failure list"

definition IndexResult :: index_result where
  "IndexResult =
     \<lparr>ir_requested_packs = 0, ir_skipped_packs = 0, ir_indexed_packs = 0, ir_indexed_rows = 0, ir_failed_packs = 0,
      ir_descriptor_inserts = 0, ir_estimated_bytes = 0, ir_elapsed_ns = 0, ir_failures = []\<rparr>"

definition merge_results :: "index_result \<Rightarrow> index_result \<Rightarrow> int option \<Rightarrow> index_result" where
  "merge_results a b failure_limit =
     (let failures = ir_failures a @ ir_failures b in
      \<lparr>ir_requested_packs = ir_requested_packs a + ir_requested_packs b,
       ir_skipped_packs = ir_skipped_packs a + ir_skipped_packs b,
       ir_indexed_packs = ir_indexed_packs a + ir_indexed_packs b,
       ir_indexed_rows = ir_indexed_rows a + ir_indexed_rows b,
       ir_failed_packs = ir_failed_packs a + ir_failed_packs b,
       ir_descriptor_inserts = ir_descriptor_inserts a + ir_descriptor_inserts b,
       ir_estimated_bytes = ir_estimated_bytes a + ir_estimated_bytes b,
       ir_elapsed_ns = ir_elapsed_ns a + ir_elapsed_ns b,
       ir_failures = (case failure_limit of None \<Rightarrow> failures | Some n \<Rightarrow> take (nat n) failures)\<rparr>)"

record index_event =
  ev_event :: string
  ev_requested_packs :: int
  ev_skipped_packs :: int
  ev_indexed_packs :: int
  ev_indexed_rows :: int
  ev_failed_packs :: int
  ev_descriptor_inserts :: int
  ev_estimated_bytes :: int
  ev_elapsed_ns :: int

record reconcile_result =
  rc_index :: index_result
  rc_next_cursor :: "pystr option"
  rc_pages :: int

section \<open>Pack identities\<close>

type_synonym pack_identity = "pystr \<times> pystr"

definition identity :: "pack_ref \<Rightarrow> pack_identity" where
  "identity ref = (ref_store_id ref, ref_pack_id ref)"

text \<open>\<^verbatim>\<open>conflicted.setdefault(identity, [current])\<close>, then the new claimant unless it is there.\<close>

fun add_claimant ::
  "pack_identity \<Rightarrow> pack_ref \<Rightarrow> pack_ref \<Rightarrow> (pack_identity \<times> pack_ref list) list \<Rightarrow> (pack_identity \<times> pack_ref list) list" where
  "add_claimant i current ref [] = [(i, if ref \<in> set [current] then [current] else [current, ref])]"
| "add_claimant i current ref ((j, claimants) # rest) =
     (if i = j then (j, if ref \<in> set claimants then claimants else claimants @ [ref]) # rest
      else (j, claimants) # add_claimant i current ref rest)"

fun partition_loop ::
  "(pack_identity \<times> pack_ref) list \<Rightarrow> (pack_identity \<times> pack_ref list) list \<Rightarrow> pack_ref list
   \<Rightarrow> (pack_identity \<times> pack_ref) list \<times> (pack_identity \<times> pack_ref list) list" where
  "partition_loop by_identity conflicted [] = (by_identity, conflicted)"
| "partition_loop by_identity conflicted (ref # refs) =
     (case map_of by_identity (identity ref) of
        None \<Rightarrow> partition_loop (by_identity @ [(identity ref, ref)]) conflicted refs
      | Some current \<Rightarrow>
          if current \<noteq> ref then partition_loop by_identity (add_claimant (identity ref) current ref conflicted) refs
          else partition_loop by_identity conflicted refs)"

definition conflict_failure :: "pack_ref \<Rightarrow> index_failure" where
  "conflict_failure ref =
     \<lparr>if_pack_id = ref_pack_id ref, if_object_key = ref_object_key ref, if_error_type = PackConflictError,
      if_message = ''conflicting pack identity''\<rparr>"

definition partition_refs :: "pack_ref list \<Rightarrow> pack_ref list \<times> index_failure list" where
  "partition_refs refs =
     (case partition_loop [] [] refs of
        (by_identity, conflicted) \<Rightarrow>
          (map snd (filter (\<lambda>(i, ref). map_of conflicted i = None) by_identity),
           map conflict_failure (concat (map snd conflicted))))"

definition locator_dict :: "payload_locator \<Rightarrow> (pystr \<times> jval) list" where
  "locator_dict loc =
     [(lit ''pack_id'', VStr (loc_pack_id loc)), (lit ''store_id'', VStr (loc_store_id loc)),
      (lit ''object_key'', VStr (loc_object_key loc)), (lit ''object_bytes'', VInt (loc_object_bytes loc)),
      (lit ''pack_checksum'', VStr (loc_pack_checksum loc)), (lit ''pack_record_count'', VInt (loc_pack_record_count loc)),
      (lit ''offset'', VInt (loc_offset loc)), (lit ''stored_length'', VInt (loc_stored_length loc)),
      (lit ''decoded_length'', VInt (loc_decoded_length loc)), (lit ''codec'', VStr (loc_codec loc)),
      (lit ''checksum'', VStr (loc_checksum loc))]"

definition estimated_bytes :: "capture_descriptor \<Rightarrow> int result" where
  "estimated_bytes d =
     (case utf8_encode (dumps False False (VDict
        [(lit ''metadata'', VDict (to_mapping (desc_metadata d))), (lit ''locator'', VDict (locator_dict (desc_locator d)))])) of
        None \<Rightarrow> Inl (Error UnicodeEncodeError ''surrogates not allowed'')
      | Some bs \<Rightarrow> Inr (int (length bs)))"

section \<open>The indexer\<close>

record 'w catalog_writer =
  cw_publisher_lease :: "'w \<Rightarrow> bool"
  cw_committed_pack_ids :: "pack_identity list \<Rightarrow> 'w \<Rightarrow> 'w \<times> pack_identity list result"
  cw_write_descriptors :: "capture_descriptor list \<Rightarrow> int \<Rightarrow> 'w \<Rightarrow> 'w \<times> unit result"
  cw_commit_packs :: "pack_ref list \<Rightarrow> int \<Rightarrow> 'w \<Rightarrow> 'w \<times> unit result"
  cw_publish_snapshot :: "int \<Rightarrow> pack_ref list \<Rightarrow> int \<Rightarrow> int \<Rightarrow> int \<Rightarrow> 'w \<Rightarrow> 'w \<times> unit result"
  cw_last_published_version :: "'w \<Rightarrow> 'w \<times> int result"
  cw_allocate_version :: "'w \<Rightarrow> 'w \<times> int result"

datatype writer_call =
    CCommitted "pack_identity list"
  | CAllocate "int result"
  | CHead "int result"
  | CWrite "capture_descriptor list" int "unit result"
  | CPublish int "pack_ref list" "unit result"
  | CCommit "pack_ref list" int "unit result"

text \<open>The clocks are sequences of readings, and the counters say how many of them were taken.\<close>

record 'w indexer =
  ci_store :: store_handle
  ci_writer :: "'w catalog_writer"
  ci_config :: indexer_config
  ci_clock_ns :: "nat \<Rightarrow> int"
  ci_timer_ns :: "nat \<Rightarrow> int"
  ci_on_event :: "(index_event \<Rightarrow> unit result) option"
  ci_callback_failures :: int
  ci_published_version :: "int option"
  ci_clock_reads :: nat
  ci_timer_reads :: nat
  ci_state :: 'w
  ci_calls :: "writer_call list"

definition CatalogIndexer ::
  "store_handle \<Rightarrow> 'w catalog_writer \<Rightarrow> indexer_config option \<Rightarrow> (nat \<Rightarrow> int) \<Rightarrow> (nat \<Rightarrow> int)
   \<Rightarrow> (index_event \<Rightarrow> unit result) option \<Rightarrow> 'w \<Rightarrow> 'w indexer" where
  "CatalogIndexer store writer config clock timer on_event w =
     \<lparr>ci_store = store, ci_writer = writer,
      ci_config = (case config of Some c \<Rightarrow> c | None \<Rightarrow>
        \<lparr>cfg_max_packs = 64, cfg_max_rows_per_insert = 10000, cfg_max_estimated_bytes = 128 * 1024 ^ 2,
         cfg_max_failure_details = 128, cfg_max_publish_attempts = 8\<rparr>),
      ci_clock_ns = clock, ci_timer_ns = timer, ci_on_event = on_event, ci_callback_failures = 0,
      ci_published_version = None, ci_clock_reads = 0, ci_timer_reads = 0, ci_state = w, ci_calls = []\<rparr>"

abbreviation logged :: "'w \<Rightarrow> writer_call \<Rightarrow> 'w indexer \<Rightarrow> 'w indexer" where
  "logged w call s \<equiv> s\<lparr>ci_state := w, ci_calls := ci_calls s @ [call]\<rparr>"

definition committed_pack_ids :: "pack_identity list \<Rightarrow> 'w indexer \<Rightarrow> 'w indexer \<times> pack_identity list result" where
  "committed_pack_ids ids s =
     (case cw_committed_pack_ids (ci_writer s) ids (ci_state s) of (w, r) \<Rightarrow> (logged w (CCommitted ids) s, r))"

definition write_descriptors :: "capture_descriptor list \<Rightarrow> int \<Rightarrow> 'w indexer \<Rightarrow> 'w indexer \<times> unit result" where
  "write_descriptors ds v s =
     (case cw_write_descriptors (ci_writer s) ds v (ci_state s) of (w, r) \<Rightarrow> (logged w (CWrite ds v r) s, r))"

definition commit_packs :: "pack_ref list \<Rightarrow> int \<Rightarrow> 'w indexer \<Rightarrow> 'w indexer \<times> unit result" where
  "commit_packs refs v s =
     (case cw_commit_packs (ci_writer s) refs v (ci_state s) of (w, r) \<Rightarrow> (logged w (CCommit refs v r) s, r))"

definition publish_snapshot ::
  "int \<Rightarrow> pack_ref list \<Rightarrow> int \<Rightarrow> int \<Rightarrow> int \<Rightarrow> 'w indexer \<Rightarrow> 'w indexer \<times> unit result" where
  "publish_snapshot v refs published_at rows packs s =
     (case cw_publish_snapshot (ci_writer s) v refs published_at rows packs (ci_state s) of
        (w, r) \<Rightarrow> (logged w (CPublish v refs r) s, r))"

definition reject_a_writer_that_cannot_publish :: "'w indexer \<Rightarrow> unit result" where
  "reject_a_writer_that_cannot_publish s =
     (if cw_publisher_lease (ci_writer s) (ci_state s) then Inr ()
      else Inl (Error PublisherLeaseError ''the catalog writer holds no publisher lease''))"

text \<open>The cached head is read from the writer when there is none.\<close>

definition published_head :: "'w indexer \<Rightarrow> 'w indexer \<times> int result" where
  "published_head s =
     (case ci_published_version s of
        Some head \<Rightarrow> (s, Inr head)
      | None \<Rightarrow>
          (case cw_last_published_version (ci_writer s) (ci_state s) of
             (w, Inl e) \<Rightarrow> (logged w (CHead (Inl e)) s, Inl e)
           | (w, Inr head) \<Rightarrow> (logged w (CHead (Inr head)) s \<lparr>ci_published_version := Some head\<rparr>, Inr head)))"

definition allocate_version :: "'w indexer \<Rightarrow> 'w indexer \<times> int result" where
  "allocate_version s =
     (case cw_allocate_version (ci_writer s) (ci_state s) of
        (w, Inl e) \<Rightarrow> (logged w (CAllocate (Inl e)) s, Inl e)
      | (w, Inr version) \<Rightarrow>
          let s1 = logged w (CAllocate (Inr version)) s in
          if version < 1 then (s1, Inl (Error ValueError ''allocate_version must return a positive integer''))
          else (case published_head s1 of
                  (s2, Inl e) \<Rightarrow> (s2, Inl e)
                | (s2, Inr head) \<Rightarrow>
                    if version \<le> head
                    then (s2, Inl (Error CatalogVersionAllocationError
                                ''catalog version allocator returned a non-monotonic version''))
                    else (s2, Inr version)))"

fun write_batches ::
  "nat \<Rightarrow> capture_descriptor list \<Rightarrow> int \<Rightarrow> 'w indexer \<Rightarrow> 'w indexer \<times> int result" where
  "write_batches step [] version s = (s, Inr 0)"
| "write_batches step (d # ds) version s =
     (case write_descriptors (d # take (step - 1) ds) version s of
        (s1, Inl e) \<Rightarrow> (s1, Inl e)
      | (s1, Inr _) \<Rightarrow>
          (case write_batches step (drop (step - 1) ds) version s1 of
             (s2, Inl e) \<Rightarrow> (s2, Inl e)
           | (s2, Inr inserts) \<Rightarrow> (s2, Inr (inserts + 1))))"

definition write_descriptor_batches :: "capture_descriptor list \<Rightarrow> int \<Rightarrow> 'w indexer \<Rightarrow> 'w indexer \<times> int result" where
  "write_descriptor_batches ds version s = write_batches (nat (cfg_max_rows_per_insert (ci_config s))) ds version s"

text \<open>One failed attempt of \<^verbatim>\<open>_publish\<close> that found a conflict: its packs are visible, so they are recorded, and the
  conflict is what propagates whether or not that works.\<close>

definition record_conflict :: "pack_ref list \<Rightarrow> int \<Rightarrow> 'w indexer \<Rightarrow> 'w indexer" where
  "record_conflict refs version s = (if refs = [] then s else fst (commit_packs refs version s))"

fun publish_loop ::
  "nat \<Rightarrow> int \<Rightarrow> pack_ref list \<Rightarrow> capture_descriptor list \<Rightarrow> int \<Rightarrow> 'w indexer \<Rightarrow> 'w indexer \<times> (int \<times> int) result" where
  "publish_loop 0 version refs ds rewrites s =
     (s, Inl (Error SnapshotPublishExhaustedError ''could not publish a catalog snapshot''))"
| "publish_loop (Suc attempts) version refs ds rewrites s =
     (let published_at = ci_clock_ns s (ci_clock_reads s); s0 = s\<lparr>ci_clock_reads := Suc (ci_clock_reads s)\<rparr> in
      if published_at < 0 then (s0, Inl (Error ValueError ''clock_ns must return a non-negative integer''))
      else
        case publish_snapshot version refs published_at (int (length ds)) (int (length refs)) s0 of
          (s1, Inr _) \<Rightarrow> (s1\<lparr>ci_published_version := Some version\<rparr>, Inr (version, rewrites))
        | (s1, Inl e) \<Rightarrow>
            if is_instance e SnapshotPublishConflictError then (record_conflict refs version s1, Inl e)
            else if is_instance e SnapshotPublishRaceError then
              (if attempts = 0
               then (s1, Inl (Error SnapshotPublishExhaustedError ''could not publish a catalog snapshot''))
               else
                 case allocate_version (s1\<lparr>ci_published_version := None\<rparr>) of
                   (s2, Inl e') \<Rightarrow> (s2, Inl e')
                 | (s2, Inr version') \<Rightarrow>
                     (case write_descriptor_batches ds version' s2 of
                        (s3, Inl e') \<Rightarrow> (s3, Inl e')
                      | (s3, Inr inserts) \<Rightarrow> publish_loop attempts version' refs ds (rewrites + inserts) s3))
            else (s1, Inl e))"

definition publish :: "int \<Rightarrow> pack_ref list \<Rightarrow> capture_descriptor list \<Rightarrow> 'w indexer \<Rightarrow> 'w indexer \<times> (int \<times> int) result" where
  "publish version refs ds s = publish_loop (nat (cfg_max_publish_attempts (ci_config s))) version refs ds 0 s"

definition emit_event :: "index_result \<Rightarrow> 'w indexer \<Rightarrow> 'w indexer" where
  "emit_event res s =
     (case ci_on_event s of
        None \<Rightarrow> s
      | Some callback \<Rightarrow>
          (case callback \<lparr>ev_event = ''catalog_index_completed'', ev_requested_packs = ir_requested_packs res,
                  ev_skipped_packs = ir_skipped_packs res, ev_indexed_packs = ir_indexed_packs res,
                  ev_indexed_rows = ir_indexed_rows res, ev_failed_packs = ir_failed_packs res,
                  ev_descriptor_inserts = ir_descriptor_inserts res, ev_estimated_bytes = ir_estimated_bytes res,
                  ev_elapsed_ns = ir_elapsed_ns res\<rparr> of
             Inr _ \<Rightarrow> s
           | Inl _ \<Rightarrow> s\<lparr>ci_callback_failures := ci_callback_failures s + 1\<rparr>))"

text \<open>What a pass has gathered from the packs it has read.\<close>

record gathered =
  ga_descriptors :: "capture_descriptor list"
  ga_valid_refs :: "pack_ref list"
  ga_failures :: "index_failure list"
  ga_estimated_bytes :: int

definition read_failure :: "pack_ref \<Rightarrow> error \<Rightarrow> index_failure" where
  "read_failure ref e =
     \<lparr>if_pack_id = ref_pack_id ref, if_object_key = ref_object_key ref, if_error_type = err_class e,
      if_message = take 512 (err_message e)\<rparr>"

text \<open>The body of the \<^verbatim>\<open>try\<close>: the descriptors of a pack and their estimated size.\<close>

definition read_pack :: "store_handle \<Rightarrow> pack_ref \<Rightarrow> (capture_descriptor list \<times> int) result" where
  "read_pack store ref =
     rbind (from_store (sh_store_id store) (sh_read_range store) ref) (\<lambda>pidx.
     rbind (index_descriptors pidx) (\<lambda>ds.
     rbind (rmap estimated_bytes ds) (\<lambda>sizes. Inr (ds, sum_list sizes))))"

fun gather :: "store_handle \<Rightarrow> int \<Rightarrow> pack_ref list \<Rightarrow> gathered \<Rightarrow> gathered result" where
  "gather store max_bytes [] g = Inr g"
| "gather store max_bytes (ref # refs) g =
     (case read_pack store ref of
        Inl e \<Rightarrow> gather store max_bytes refs (g\<lparr>ga_failures := ga_failures g @ [read_failure ref e]\<rparr>)
      | Inr (ds, pack_bytes) \<Rightarrow>
          if max_bytes < ga_estimated_bytes g + pack_bytes
          then Inl (Error ValueError ''catalog batch exceeds max_estimated_bytes'')
          else gather store max_bytes refs
                 (g\<lparr>ga_estimated_bytes := ga_estimated_bytes g + pack_bytes,
                    ga_descriptors := ga_descriptors g @ ds, ga_valid_refs := ga_valid_refs g @ [ref]\<rparr>))"

text \<open>The branch of \<^verbatim>\<open>index\<close> that has something to write: the version, the rows, the snapshot, the inventory.\<close>

definition write_and_publish ::
  "capture_descriptor list \<Rightarrow> pack_ref list \<Rightarrow> 'w indexer \<Rightarrow> 'w indexer \<times> int result" where
  "write_and_publish ds refs s =
     (case reject_a_writer_that_cannot_publish s of
        Inl e \<Rightarrow> (s, Inl e)
      | Inr _ \<Rightarrow>
          (case allocate_version s of
             (s1, Inl e) \<Rightarrow> (s1, Inl e)
           | (s1, Inr version) \<Rightarrow>
               (case write_descriptor_batches ds version s1 of
                  (s2, Inl e) \<Rightarrow> (s2, Inl e)
                | (s2, Inr inserts) \<Rightarrow>
                    (case publish version refs ds s2 of
                       (s3, Inl e) \<Rightarrow> (s3, Inl e)
                     | (s3, Inr (version1, rewrites)) \<Rightarrow>
                         if refs = [] then (s3, Inr (inserts + rewrites))
                         else (case commit_packs refs version1 s3 of
                                 (s4, Inl e) \<Rightarrow> (s4, Inl e)
                               | (s4, Inr _) \<Rightarrow> (s4, Inr (inserts + rewrites)))))))"

definition committed_among :: "pack_identity list \<Rightarrow> 'w indexer \<Rightarrow> 'w indexer \<times> pack_identity list result" where
  "committed_among ids s = (if ids = [] then (s, Inr []) else committed_pack_ids ids s)"

definition index :: "pack_ref list \<Rightarrow> 'w indexer \<Rightarrow> 'w indexer \<times> index_result result" where
  "index refs s =
     (let started = ci_timer_ns s (ci_timer_reads s); s0 = s\<lparr>ci_timer_reads := Suc (ci_timer_reads s)\<rparr>; cfg = ci_config s in
      if cfg_max_packs cfg < int (length refs) then (s0, Inl (Error ValueError ''pack batch exceeds max_packs''))
      else
        case partition_refs refs of
          (unique, conflict_failures) \<Rightarrow>
            (case committed_among (map identity unique) s0 of
               (s1, Inl e) \<Rightarrow> (s1, Inl e)
             | (s1, Inr committed) \<Rightarrow>
                 let pending = filter (\<lambda>ref. identity ref \<notin> set committed) unique in
                 (case gather (ci_store s) (cfg_max_estimated_bytes cfg) pending
                         \<lparr>ga_descriptors = [], ga_valid_refs = [], ga_failures = conflict_failures, ga_estimated_bytes = 0\<rparr> of
                    Inl e \<Rightarrow> (s1, Inl e)
                  | Inr g \<Rightarrow>
                      (case (if ga_descriptors g = [] \<and> ga_valid_refs g = [] then (s1, Inr 0)
                             else write_and_publish (ga_descriptors g) (ga_valid_refs g) s1) of
                         (s2, Inl e) \<Rightarrow> (s2, Inl e)
                       | (s2, Inr inserts) \<Rightarrow>
                           let elapsed = ci_timer_ns s2 (ci_timer_reads s2) - started;
                               s3 = s2\<lparr>ci_timer_reads := Suc (ci_timer_reads s2)\<rparr>;
                               res = \<lparr>ir_requested_packs = int (length unique) + int (length conflict_failures),
                                      ir_skipped_packs = int (length unique) - int (length pending),
                                      ir_indexed_packs = int (length (ga_valid_refs g)),
                                      ir_indexed_rows = int (length (ga_descriptors g)),
                                      ir_failed_packs = int (length (ga_failures g)),
                                      ir_descriptor_inserts = inserts, ir_estimated_bytes = ga_estimated_bytes g,
                                      ir_elapsed_ns = elapsed, ir_failures = ga_failures g\<rparr>
                           in (emit_event res s3, Inr res)))))"

section \<open>The reconciler\<close>

record object_page =
  pg_items :: "pystr list"
  pg_next_cursor :: "pystr option"

record pack_inventory =
  pv_store_id :: pystr
  pv_inspect :: "pystr \<Rightarrow> pack_ref result"
  pv_list_objects :: "pystr \<Rightarrow> pystr option \<Rightarrow> int \<Rightarrow> object_page result"

definition CatalogReconciler :: "pack_inventory \<Rightarrow> 'w indexer \<Rightarrow> unit result" where
  "CatalogReconciler inventory s =
     (if pv_store_id inventory \<noteq> sh_store_id (ci_store s) then Inl (Error ValueError ''inventory and indexer store IDs differ'')
      else Inr ())"

fun inspect_all :: "pack_inventory \<Rightarrow> pystr list \<Rightarrow> pack_ref list \<times> index_failure list" where
  "inspect_all inventory [] = ([], [])"
| "inspect_all inventory (key # keys) =
     (case inspect_all inventory keys of
        (refs, failures) \<Rightarrow>
          (case pv_inspect inventory key of
             Inr ref \<Rightarrow> (ref # refs, failures)
           | Inl e \<Rightarrow> (refs, \<lparr>if_pack_id = [], if_object_key = key, if_error_type = err_class e,
                              if_message = take 512 (err_message e)\<rparr> # failures)))"

definition index_object_keys :: "pack_inventory \<Rightarrow> pystr list \<Rightarrow> 'w indexer \<Rightarrow> 'w indexer \<times> index_result result" where
  "index_object_keys inventory keys s =
     (if cfg_max_packs (ci_config s) < int (length keys)
      then (s, Inl (Error ValueError ''object notification batch exceeds max_packs''))
      else
        case inspect_all inventory (fromkeys keys) of
          (refs, failures) \<Rightarrow>
            (case index refs s of
               (s1, Inl e) \<Rightarrow> (s1, Inl e)
             | (s1, Inr res) \<Rightarrow>
                 if failures = [] then (s1, Inr res)
                 else (s1, Inr (merge_results res
                        (IndexResult\<lparr>ir_requested_packs := int (length failures), ir_failed_packs := int (length failures),
                                     ir_failures := failures\<rparr>)
                        (Some (cfg_max_failure_details (ci_config s)))))))"

definition reconcile_page ::
  "pack_inventory \<Rightarrow> pystr \<Rightarrow> pystr option \<Rightarrow> int \<Rightarrow> 'w indexer \<Rightarrow> 'w indexer \<times> reconcile_result result" where
  "reconcile_page inventory prefix cursor limit s =
     (if cfg_max_packs (ci_config s) < limit then (s, Inl (Error ValueError ''listing limit exceeds max_packs''))
      else
        case pv_list_objects inventory prefix cursor limit of
          Inl e \<Rightarrow> (s, Inl e)
        | Inr page \<Rightarrow>
            (case index_object_keys inventory (pg_items page) s of
               (s1, Inl e) \<Rightarrow> (s1, Inl e)
             | (s1, Inr res) \<Rightarrow> (s1, Inr \<lparr>rc_index = res, rc_next_cursor = pg_next_cursor page, rc_pages = 1\<rparr>)))"

fun rebuild_loop ::
  "pack_inventory \<Rightarrow> pystr \<Rightarrow> int \<Rightarrow> nat \<Rightarrow> pystr option \<Rightarrow> index_result \<Rightarrow> 'w indexer \<Rightarrow> 'w indexer \<times> index_result result" where
  "rebuild_loop inventory prefix page_size 0 cursor acc s =
     (s, Inl (Error CatalogRebuildExhaustedError ''rebuild exceeded max_pages''))"
| "rebuild_loop inventory prefix page_size (Suc n) cursor acc s =
     (case reconcile_page inventory prefix cursor page_size s of
        (s1, Inl e) \<Rightarrow> (s1, Inl e)
      | (s1, Inr page) \<Rightarrow>
          let acc1 = merge_results acc (rc_index page) (Some (cfg_max_failure_details (ci_config s))) in
          if rc_next_cursor page = None then (s1, Inr acc1)
          else rebuild_loop inventory prefix page_size n (rc_next_cursor page) acc1 s1)"

definition rebuild :: "pack_inventory \<Rightarrow> pystr \<Rightarrow> int \<Rightarrow> int \<Rightarrow> 'w indexer \<Rightarrow> 'w indexer \<times> index_result result" where
  "rebuild inventory prefix page_size max_pages s =
     (if max_pages \<le> 0 then (s, Inl (Error ValueError ''max_pages must be positive''))
      else rebuild_loop inventory prefix page_size (nat max_pages) None IndexResult s)"

section \<open>Partitioning\<close>

definition claimants :: "pack_ref list \<Rightarrow> pack_identity \<Rightarrow> pack_ref set" where
  "claimants refs i = {r \<in> set refs. identity r = i}"

lemma claimants_snoc [simp]: "claimants (refs @ [r]) i = (if identity r = i then insert r (claimants refs i) else claimants refs i)"
  by (auto simp: claimants_def)

lemma finite_claimants [simp]: "finite (claimants refs i)"
  by (simp add: claimants_def)

definition partition_inv ::
  "pack_ref list \<Rightarrow> (pack_identity \<times> pack_ref) list \<Rightarrow> (pack_identity \<times> pack_ref list) list \<Rightarrow> bool" where
  "partition_inv seen by conf \<longleftrightarrow>
     distinct (map fst by) \<and> distinct (map fst conf)
     \<and> (\<forall>i. map_of by i = None \<longrightarrow> claimants seen i = {}) \<and> (\<forall>i r. map_of by i = Some r \<longrightarrow> r \<in> claimants seen i)
     \<and> (\<forall>i. map_of conf i = None \<longrightarrow> card (claimants seen i) \<le> 1)
     \<and> (\<forall>i cl. map_of conf i = Some cl \<longrightarrow> distinct cl \<and> set cl = claimants seen i \<and> 2 \<le> card (claimants seen i))"

lemma partition_invD:
  assumes "partition_inv seen by conf"
  shows "distinct (map fst by)" "distinct (map fst conf)" "map_of by i = None \<Longrightarrow> claimants seen i = {}"
    "map_of by i = Some r \<Longrightarrow> r \<in> claimants seen i" "map_of conf i = None \<Longrightarrow> card (claimants seen i) \<le> 1"
    "map_of conf i = Some cl \<Longrightarrow> distinct cl \<and> set cl = claimants seen i \<and> 2 \<le> card (claimants seen i)"
  using assms unfolding partition_inv_def by blast+

lemma map_of_add_claimant:
  "map_of (add_claimant i cur ref conf) j =
     (if j = i then Some (case map_of conf i of None \<Rightarrow> if ref = cur then [cur] else [cur, ref]
                          | Some cl \<Rightarrow> if ref \<in> set cl then cl else cl @ [ref])
      else map_of conf j)"
proof (induction conf)
  case (Cons c conf)
  obtain k cl where c: "c = (k, cl)" by (cases c)
  show ?case by (cases "i = k"; cases "j = i"; cases "ref = cur") (use Cons c in simp_all)
qed simp

lemma add_claimant_keys: "set (map fst (add_claimant i cur ref conf)) = insert i (set (map fst conf))"
  by (induction i cur ref conf rule: add_claimant.induct) auto

lemma add_claimant_distinct: "distinct (map fst conf) \<Longrightarrow> distinct (map fst (add_claimant i cur ref conf))"
proof (induction i cur ref conf rule: add_claimant.induct)
  case (2 i cur ref j cl rest)
  then show ?case using add_claimant_keys [of i cur ref rest] by auto
qed simp

lemma card_one_eq: "finite S \<Longrightarrow> card S \<le> 1 \<Longrightarrow> x \<in> S \<Longrightarrow> S = {x}"
  by (metis card_1_singletonE card_gt_0_iff empty_iff le_antisym less_eq_Suc_le One_nat_def singletonD)

lemma partition_inv_conflict:
  assumes inv: "partition_inv seen by conf" and cur: "map_of by (identity ref) = Some cur" "cur \<noteq> ref"
  shows "partition_inv (seen @ [ref]) by (add_claimant (identity ref) cur ref conf)"
proof -
  let ?i = "identity ref"
  have mem: "cur \<in> claimants seen ?i" using partition_invD(4) [OF inv cur(1)] .
  let ?cl = "case map_of conf ?i of None \<Rightarrow> if ref = cur then [cur] else [cur, ref] | Some cl \<Rightarrow> if ref \<in> set cl then cl else cl @ [ref]"
  have cl: "distinct ?cl \<and> set ?cl = insert ref (claimants seen ?i) \<and> 2 \<le> card (insert ref (claimants seen ?i))"
  proof (cases "map_of conf ?i")
    case None
    from partition_invD(5) [OF inv this] have "claimants seen ?i = {cur}" using mem by (intro card_one_eq) simp_all
    then show ?thesis using None cur(2) by auto
  next
    case (Some cl)
    from partition_invD(6) [OF inv this] have c: "distinct cl" "set cl = claimants seen ?i" "2 \<le> card (claimants seen ?i)" by auto
    have "card (claimants seen ?i) \<le> card (insert ref (claimants seen ?i))" by (rule card_insert_le)
    with c show ?thesis using Some by auto
  qed
  show ?thesis
    unfolding partition_inv_def map_of_add_claimant
  proof (intro conjI allI impI)
    show "distinct (map fst (add_claimant ?i cur ref conf))" using add_claimant_distinct partition_invD(2) [OF inv] .
    show "distinct (map fst by)" using partition_invD(1) [OF inv] .
  qed (use partition_invD(3-6) [OF inv] cl cur(1) in \<open>auto split: if_splits\<close>)
qed

lemma partition_inv_fresh:
  assumes inv: "partition_inv seen by conf" and "map_of by (identity ref) = None"
  shows "partition_inv (seen @ [ref]) (by @ [(identity ref, ref)]) conf"
proof -
  have e: "claimants seen (identity ref) = {}" using partition_invD(3) [OF inv assms(2)] .
  then have n: "map_of conf (identity ref) = None"
    using partition_invD(6) [OF inv, of "identity ref"] by (cases "map_of conf (identity ref)") auto
  have "identity ref \<notin> set (map fst by)" using assms(2) by (simp add: map_of_eq_None_iff)
  then have "distinct (map fst (by @ [(identity ref, ref)]))" using partition_invD(1) [OF inv] by simp
  then show ?thesis
    unfolding partition_inv_def
  proof (intro conjI allI impI)
    show "distinct (map fst conf)" using partition_invD(2) [OF inv] .
  qed (use partition_invD(3-6) [OF inv] e n in \<open>auto simp: map_add_def split: option.splits if_splits\<close>)
qed

lemma partition_loop_inv:
  "partition_inv seen by conf \<Longrightarrow> partition_loop by conf refs = (by', conf') \<Longrightarrow> partition_inv (seen @ refs) by' conf'"
proof (induction refs arbitrary: seen "by" conf)
  case (Cons ref refs)
  consider (new) "map_of by (identity ref) = None"
    | (same) "map_of by (identity ref) = Some ref"
    | (other) cur where "map_of by (identity ref) = Some cur" "cur \<noteq> ref" by (cases "map_of by (identity ref)") auto
  then show ?case
  proof cases
    case new
    from Cons.IH [OF partition_inv_fresh [OF Cons.prems(1) new]] Cons.prems(2) new show ?thesis by simp
  next
    case same
    then have "ref \<in> claimants seen (identity ref)" using partition_invD(4) [OF Cons.prems(1)] by blast
    then have "claimants (seen @ [ref]) i = claimants seen i" for i by auto
    then have "partition_inv (seen @ [ref]) by conf" using Cons.prems(1) unfolding partition_inv_def by simp
    from Cons.IH [OF this] Cons.prems(2) same show ?thesis by simp
  next
    case other
    from Cons.IH [OF partition_inv_conflict [OF Cons.prems(1) other]] Cons.prems(2) other show ?thesis by simp
  qed
qed simp


lemma partition_refs_inv:
  assumes "partition_refs refs = (unique, failures)"
  obtains by' conf where "partition_inv refs by' conf" "unique = map snd (filter (\<lambda>(i, ref). map_of conf i = None) by')"
    "failures = map conflict_failure (concat (map snd conf))"
proof -
  obtain by' conf where l: "partition_loop [] [] refs = (by', conf)" by fastforce
  have "partition_inv [] [] []" by (simp add: partition_inv_def claimants_def)
  from partition_loop_inv [OF this l] have "partition_inv refs by' conf" by simp
  with l assms that show ?thesis by (auto simp: partition_refs_def)
qed

lemma unique_refs:
  assumes inv: "partition_inv refs by' conf"
  defines "unique \<equiv> map snd (filter (\<lambda>(i, ref). map_of conf i = None) by')"
  shows "distinct (map identity unique)" "set unique = {r \<in> set refs. claimants refs (identity r) = {r}}"
proof -
  have id: "identity r = i" if "(i, r) \<in> set by'" for i r
    using partition_invD(4) [OF inv, of i r] map_of_is_SomeI [OF partition_invD(1) [OF inv] that] by (auto simp: claimants_def)
  have "map identity unique = map fst (filter (\<lambda>(i, ref). map_of conf i = None) by')"
    unfolding unique_def by (auto simp: id)
  then show "distinct (map identity unique)" using partition_invD(1) [OF inv] by (simp add: distinct_map_filter)
  have "r \<in> set unique \<longleftrightarrow> r \<in> set refs \<and> claimants refs (identity r) = {r}" for r
  proof
    assume "r \<in> set unique"
    then obtain i where i: "(i, r) \<in> set by'" "map_of conf i = None" by (auto simp: unique_def)
    have r: "r \<in> claimants refs i" using partition_invD(4) [OF inv map_of_is_SomeI [OF partition_invD(1) [OF inv] i(1)]] .
    then have "claimants refs i = {r}" using partition_invD(5) [OF inv i(2)] by (intro card_one_eq) simp_all
    then show "r \<in> set refs \<and> claimants refs (identity r) = {r}" using r id [OF i(1)] by (auto simp: claimants_def)
  next
    assume r: "r \<in> set refs \<and> claimants refs (identity r) = {r}"
    then obtain r' where r': "map_of by' (identity r) = Some r'" using partition_invD(3) [OF inv, of "identity r"] by fastforce
    then have "r' = r" using partition_invD(4) [OF inv r'] r by auto
    moreover have "map_of conf (identity r) = None"
      using partition_invD(6) [OF inv, of "identity r"] r by (cases "map_of conf (identity r)") auto
    ultimately show "r \<in> set unique" using map_of_SomeD [OF r'] by (force simp: unique_def)
  qed
  then show "set unique = {r \<in> set refs. claimants refs (identity r) = {r}}" by blast
qed

lemma conflicting_refs:
  assumes inv: "partition_inv refs by' conf"
  shows "distinct (concat (map snd conf))" "set (concat (map snd conf)) = {r \<in> set refs. claimants refs (identity r) \<noteq> {r}}"
proof -
  have cl: "distinct cl" "set cl = claimants refs i" "2 \<le> card (claimants refs i)" if "(i, cl) \<in> set conf" for i cl
    using partition_invD(6) [OF inv map_of_is_SomeI [OF partition_invD(2) [OF inv] that]] by auto
  have disj: "claimants refs i \<inter> claimants refs j = {}" if "i \<noteq> j" for i j using that by (auto simp: claimants_def)
  have "distinct (concat (map snd xs))" if "set xs \<subseteq> set conf" "distinct (map fst xs)" for xs
    using that
  proof (induction xs)
    case (Cons x xs)
    obtain i c where x: "x = (i, c)" by (cases x)
    have "set c \<inter> set c' = {}" if "(j, c') \<in> set xs" for j c'
    proof -
      have "j \<noteq> i" using that Cons.prems(2) x by force
      then show ?thesis using cl(2) disj Cons.prems(1) x that by (metis insert_subset list.set(2) subset_iff)
    qed
    moreover have "(i, c) \<in> set conf" using Cons.prems(1) x by simp
    then have "distinct c" by (rule cl(1))
    ultimately show ?case using Cons x by (auto simp: disjoint_iff)
  qed simp
  from this [of conf] show "distinct (concat (map snd conf))" using partition_invD(2) [OF inv] by simp
  have "r \<in> set (concat (map snd conf)) \<longleftrightarrow> r \<in> set refs \<and> claimants refs (identity r) \<noteq> {r}" for r
  proof
    assume "r \<in> set (concat (map snd conf))"
    then obtain i c where c: "(i, c) \<in> set conf" "r \<in> set c" by auto
    then have "r \<in> claimants refs i" "claimants refs i \<noteq> {r}" using cl [OF c(1)] by auto
    then show "r \<in> set refs \<and> claimants refs (identity r) \<noteq> {r}" by (auto simp: claimants_def)
  next
    assume r: "r \<in> set refs \<and> claimants refs (identity r) \<noteq> {r}"
    then have m: "r \<in> claimants refs (identity r)" by (simp add: claimants_def)
    have "map_of conf (identity r) \<noteq> None"
      using partition_invD(5) [OF inv, of "identity r"] card_one_eq [of "claimants refs (identity r)" r] m r by auto
    then obtain c where c: "map_of conf (identity r) = Some c" by blast
    from map_of_SomeD [OF c] partition_invD(6) [OF inv c] m show "r \<in> set (concat (map snd conf))" by force
  qed
  then show "set (concat (map snd conf)) = {r \<in> set refs. claimants refs (identity r) \<noteq> {r}}" by blast
qed

lemma partition_refs_spec:
  assumes "partition_refs refs = (unique, failures)"
  shows "distinct (map identity unique) \<and> set unique = {r \<in> set refs. \<forall>r' \<in> set refs. identity r' = identity r \<longrightarrow> r' = r}
    \<and> mset failures = image_mset conflict_failure
        (mset_set {r \<in> set refs. \<exists>r' \<in> set refs. identity r' = identity r \<and> r' \<noteq> r})
    \<and> length unique + length failures = card (set refs)"
  using assms
proof (rule partition_refs_inv)
  fix by' conf
  assume inv: "partition_inv refs by' conf" and u: "unique = map snd (filter (\<lambda>(i, ref). map_of conf i = None) by')"
    and f: "failures = map conflict_failure (concat (map snd conf))"
  let ?alone = "{r \<in> set refs. claimants refs (identity r) = {r}}" and ?contested = "{r \<in> set refs. claimants refs (identity r) \<noteq> {r}}"
  note uu = unique_refs [OF inv, folded u] and cc = conflicting_refs [OF inv]
  have eq: "?alone = {r \<in> set refs. \<forall>r' \<in> set refs. identity r' = identity r \<longrightarrow> r' = r}"
    "?contested = {r \<in> set refs. \<exists>r' \<in> set refs. identity r' = identity r \<and> r' \<noteq> r}" by (auto simp: claimants_def)
  have "mset (concat (map snd conf)) = mset_set ?contested" using mset_set_set [OF cc(1)] cc(2) by simp
  then have "mset failures = image_mset conflict_failure (mset_set ?contested)" by (simp add: f)
  moreover have "length unique = card ?alone" using distinct_card [of unique] uu by (simp add: distinct_map)
  moreover have "length failures = card ?contested" using distinct_card [OF cc(1)] cc(2) by (simp add: f)
  moreover have "card ?alone + card ?contested = card (set refs)"
    by (subst card_Un_disjoint [symmetric]) (auto intro: arg_cong [where f = card])
  ultimately show ?thesis using uu eq by simp
qed

section \<open>The order of the writer calls\<close>

text \<open>The protocol of a pass, as a machine that reads the log: a version is allocated and checked against the head, the
  rows \<open>ds\<close> of the batch are written under it, the snapshot is published only when all of them are, and packs are
  committed only when a snapshot of that version with these packs is visible. \<open>None\<close> is a violation, and nothing may
  follow \<open>Over\<close>.\<close>

datatype phase = Resting | Writing int "capture_descriptor list" | Shown int "pack_ref list" | Over

fun phase_step :: "capture_descriptor list \<Rightarrow> phase \<Rightarrow> writer_call \<Rightarrow> phase option" where
  "phase_step ds Resting (CCommitted ids) = Some Resting"
| "phase_step ds Resting (CAllocate r) = Some (case r of Inl _ \<Rightarrow> Over | Inr v \<Rightarrow> if v < 1 then Over else Writing v [])"
| "phase_step ds (Writing v []) (CHead r) =
     Some (case r of Inl _ \<Rightarrow> Over | Inr head \<Rightarrow> if v \<le> head then Over else Writing v [])"
| "phase_step ds (Writing v rows) (CWrite new v' r) =
     (if v' = v then Some (case r of Inl _ \<Rightarrow> Over | Inr _ \<Rightarrow> Writing v (rows @ new)) else None)"
| "phase_step ds (Writing v rows) (CPublish v' refs r) =
     (if v' = v \<and> rows = ds
      then Some (case r of Inr _ \<Rightarrow> Shown v refs
                 | Inl e \<Rightarrow> if is_instance e SnapshotPublishConflictError then Shown v refs
                           else if is_instance e SnapshotPublishRaceError then Resting else Over)
      else None)"
| "phase_step ds (Shown v refs) (CCommit refs' v' r) = (if v' = v \<and> refs' = refs then Some Over else None)"
| "phase_step ds _ _ = None"

fun phases :: "capture_descriptor list \<Rightarrow> phase \<Rightarrow> writer_call list \<Rightarrow> phase option" where
  "phases ds ph [] = Some ph"
| "phases ds ph (c # cs) = (case phase_step ds ph c of None \<Rightarrow> None | Some ph' \<Rightarrow> phases ds ph' cs)"

lemma phases_append: "phases ds ph (xs @ ys) = (case phases ds ph xs of None \<Rightarrow> None | Some ph' \<Rightarrow> phases ds ph' ys)"
  by (induction xs arbitrary: ph) (auto split: option.split)

definition is_publish :: "writer_call \<Rightarrow> bool" where
  "is_publish c = (case c of CPublish _ _ _ \<Rightarrow> True | _ \<Rightarrow> False)"

text \<open>An operation takes the log from one phase to another, with a number of publishes.\<close>

definition advances :: "capture_descriptor list \<Rightarrow> 'w indexer \<Rightarrow> 'w indexer \<Rightarrow> phase \<Rightarrow> nat \<Rightarrow> phase option \<Rightarrow> bool" where
  "advances ds s s' ph n goal \<longleftrightarrow>
     (\<exists>new ph'. ci_calls s' = ci_calls s @ new \<and> length (filter is_publish new) \<le> n \<and> phases ds ph new = Some ph'
        \<and> (\<forall>g. goal = Some g \<longrightarrow> ph' = g))
     \<and> ci_writer s' = ci_writer s \<and> ci_config s' = ci_config s"

lemma advances_trans:
  assumes "advances ds s s1 ph n (Some ph1)" "advances ds s1 s2 ph1 m goal"
  shows "advances ds s s2 ph (n + m) goal"
proof -
  obtain a where a: "ci_calls s1 = ci_calls s @ a" "length (filter is_publish a) \<le> n" "phases ds ph a = Some ph1"
    using assms(1) by (auto simp: advances_def)
  obtain b ph2 where b: "ci_calls s2 = ci_calls s1 @ b" "length (filter is_publish b) \<le> m" "phases ds ph1 b = Some ph2"
    "\<forall>g. goal = Some g \<longrightarrow> ph2 = g" using assms(2) by (auto simp: advances_def)
  have "ci_calls s2 = ci_calls s @ (a @ b)" "length (filter is_publish (a @ b)) \<le> n + m" "phases ds ph (a @ b) = Some ph2"
    using a b by (simp_all add: phases_append)
  then show ?thesis using assms b(4) unfolding advances_def by (intro conjI exI [of _ "a @ b"] exI [of _ ph2]) simp_all
qed

lemma advances_refl: "advances ds s s ph 0 (Some ph)"
  by (auto simp: advances_def intro!: exI [of _ "[]"])

lemma advances_weaken: "advances ds s s' ph n goal \<Longrightarrow> n \<le> m \<Longrightarrow> goal' = goal \<or> goal' = None \<Longrightarrow> advances ds s s' ph m goal'"
  unfolding advances_def by (elim conjE exE, intro conjI exI) (assumption, auto)

lemma advances_cong: "ci_calls s' = ci_calls s'' \<Longrightarrow> ci_writer s' = ci_writer s'' \<Longrightarrow> ci_config s' = ci_config s''
   \<Longrightarrow> advances ds s s' ph n goal = advances ds s s'' ph n goal"
  by (simp add: advances_def)

lemma advances_one:
  assumes "ci_calls s' = ci_calls s @ [c]" "ci_writer s' = ci_writer s" "ci_config s' = ci_config s" "phase_step ds ph c = Some ph'"
  shows "advances ds s s' ph (if is_publish c then 1 else 0) (Some ph')"
  unfolding advances_def by (intro conjI exI [of _ "[c]"] exI [of _ ph']) (use assms in auto)

lemma published_head_advances:
  assumes "published_head s = (s', r)"
  shows "advances ds s s' (Writing v []) 0 (case r of Inr head \<Rightarrow> if v \<le> head \<and> ci_published_version s = None then Some Over else Some (Writing v []) | _ \<Rightarrow> Some Over)"
proof (cases "ci_published_version s")
  case (Some head)
  then show ?thesis using assms advances_refl by (auto simp: published_head_def)
next
  case None
  obtain w r0 where h: "cw_last_published_version (ci_writer s) (ci_state s) = (w, r0)" by fastforce
  have s': "ci_calls s' = ci_calls s @ [CHead r0]" "ci_writer s' = ci_writer s" "ci_config s' = ci_config s" "r = r0"
    using assms None h by (auto simp: published_head_def split: sum.splits)
  from advances_one [OF s'(1-3), of ds "Writing v []"] show ?thesis
    using None s'(4) by (cases r0) (auto simp: is_publish_def)
qed

lemma allocate_version_advances:
  assumes "allocate_version s = (s', r)"
  shows "advances ds s s' Resting 0 (case r of Inl _ \<Rightarrow> None | Inr v \<Rightarrow> Some (Writing v []))"
proof -
  obtain w r0 where h: "cw_allocate_version (ci_writer s) (ci_state s) = (w, r0)" by fastforce
  let ?s1 = "logged w (CAllocate r0) s"
  have one: "phase_step ds Resting (CAllocate r0) = Some ph \<Longrightarrow> advances ds s ?s1 Resting 0 (Some ph)" for ph
    using advances_one [of ?s1 s "CAllocate r0" ds Resting ph] by (simp add: is_publish_def)
  show ?thesis
  proof (cases "\<exists>v. r0 = Inr v \<and> 1 \<le> v")
    case False
    then have "s' = ?s1" "\<exists>e. r = Inl e" using assms h by (auto simp: allocate_version_def Let_def split: sum.splits if_splits)
    moreover have "phase_step ds Resting (CAllocate r0) = Some Over" using False by (cases r0) auto
    from advances_weaken [OF one [OF this], of 0 None] have "advances ds s ?s1 Resting 0 None" by simp
    ultimately show ?thesis by auto
  next
    case True
    then obtain v where v: "r0 = Inr v" "1 \<le> v" by blast
    obtain s2 r2 where p: "published_head ?s1 = (s2, r2)" by fastforce
    note a = published_head_advances [OF p, of ds v]
    have w: "advances ds s ?s1 Resting 0 (Some (Writing v []))" using one v by simp
    have s': "s' = s2" using assms h v p by (auto simp: allocate_version_def Let_def split: sum.splits if_splits)
    show ?thesis
    proof (cases "\<exists>head. r2 = Inr head \<and> head < v")
      case True
      then have "r = Inr v" "advances ds ?s1 s2 (Writing v []) 0 (Some (Writing v []))"
        using assms h v p a by (auto simp: allocate_version_def Let_def)
      with advances_trans [OF w] s' show ?thesis by fastforce
    next
      case False
      then have "\<exists>e. r = Inl e" using assms h v p by (auto simp: allocate_version_def Let_def split: sum.splits if_splits)
      moreover have "advances ds ?s1 s2 (Writing v []) 0 None" using a by (rule advances_weaken) auto
      ultimately show ?thesis using advances_trans [OF w] s' by fastforce
    qed
  qed
qed


lemma write_batches_advances:
  "write_batches step rows v s = (s', r)
   \<Longrightarrow> advances ds s s' (Writing v written) 0 (case r of Inl _ \<Rightarrow> None | Inr _ \<Rightarrow> Some (Writing v (written @ rows)))"
proof (induction step rows v s arbitrary: written s' r rule: write_batches.induct)
  case (1 step version s)
  then show ?case using advances_refl by auto
next
  case (2 step d rows version s)
  let ?batch = "d # take (step - 1) rows"
  obtain w r1 where h: "cw_write_descriptors (ci_writer s) ?batch version (ci_state s) = (w, r1)" by fastforce
  let ?s1 = "logged w (CWrite ?batch version r1) s"
  have wd: "write_descriptors ?batch version s = (?s1, r1)" by (simp only: write_descriptors_def h prod.case)
  have one: "advances ds s ?s1 (Writing version written) 0 (Some (case r1 of Inl _ \<Rightarrow> Over | Inr _ \<Rightarrow> Writing version (written @ ?batch)))"
    using advances_one [of ?s1 s "CWrite ?batch version r1" ds "Writing version written"]
    by (cases written; cases r1) (simp_all add: is_publish_def)
  show ?case
  proof (cases r1)
    case (Inl e)
    then have "s' = ?s1" "r = Inl e" using "2.prems" wd by auto
    then show ?thesis using advances_weaken [OF one, of 0 None] by simp
  next
    case (Inr u)
    obtain s2 r2 where w2: "write_batches step (drop (step - 1) rows) version ?s1 = (s2, r2)" by fastforce
    from Inr have "(?s1, Inr u) = write_descriptors ?batch version s" using wd by simp
    from "2.IH" [OF this [symmetric, symmetric] refl w2, of "written @ ?batch"]
    have "advances ds ?s1 s2 (Writing version (written @ ?batch)) 0
        (case r2 of Inl _ \<Rightarrow> None | Inr _ \<Rightarrow> Some (Writing version (written @ d # rows)))" by (cases r2) simp_all
    moreover have "advances ds s ?s1 (Writing version written) 0 (Some (Writing version (written @ ?batch)))"
      using one by (simp add: Inr)
    ultimately have "advances ds s s2 (Writing version written) (0 + 0)
        (case r2 of Inl _ \<Rightarrow> None | Inr _ \<Rightarrow> Some (Writing version (written @ d # rows)))" by (rule advances_trans [rotated])
    then show ?thesis using "2.prems" wd Inr w2 by (cases r2) auto
  qed
qed

lemma commit_packs_advances:
  assumes "commit_packs refs v s = (s', r)"
  shows "advances ds s s' (Shown v refs) 0 (Some Over)"
proof -
  obtain w r0 where h: "cw_commit_packs (ci_writer s) refs v (ci_state s) = (w, r0)" by fastforce
  then have s': "s' = logged w (CCommit refs v r0) s" using assms by (auto simp: commit_packs_def)
  show ?thesis using advances_one [of s' s "CCommit refs v r0" ds "Shown v refs" Over] by (simp add: s' is_publish_def)
qed

lemma record_conflict_advances: "advances ds s (record_conflict refs v s) (Shown v refs) 0 None"
proof (cases "refs = []")
  case True
  then show ?thesis using advances_weaken [OF advances_refl [of ds s "Shown v refs"], of 0 None] by (simp add: record_conflict_def)
next
  case False
  obtain s' r where c: "commit_packs refs v s = (s', r)" by fastforce
  from advances_weaken [OF commit_packs_advances [OF c], of 0 None] False c show ?thesis by (simp add: record_conflict_def)
qed


lemma publish_loop_advances:
  "publish_loop n v refs ds rewrites s = (s', r)
   \<Longrightarrow> advances ds s s' (Writing v ds) n (case r of Inl _ \<Rightarrow> None | Inr (v', _) \<Rightarrow> Some (Shown v' refs))"
proof (induction n arbitrary: v "rewrites" s)
  case 0
  then show ?case using advances_weaken [OF advances_refl [of ds s "Writing v ds"], of 0 None] by auto
next
  case (Suc n)
  let ?s0 = "s\<lparr>ci_clock_reads := Suc (ci_clock_reads s)\<rparr>" and ?t = "ci_clock_ns s (ci_clock_reads s)"
  have cong: "advances ds s x ph k goal = advances ds ?s0 x ph k goal" for x :: "'a indexer" and ph k goal by (simp add: advances_def)
  show ?case
  proof (cases "?t < 0")
    case True
    then show ?thesis using Suc.prems advances_weaken [OF advances_refl [of ds s "Writing v ds"], of "Suc n" None]
      by (auto simp: advances_def)
  next
    case False
    obtain w r1 where h: "cw_publish_snapshot (ci_writer s) v refs ?t (int (length ds)) (int (length refs)) (ci_state s) = (w, r1)" by fastforce
    let ?s1 = "logged w (CPublish v refs r1) ?s0"
    have ps: "publish_snapshot v refs ?t (int (length ds)) (int (length refs)) ?s0 = (?s1, r1)"
      by (simp add: publish_snapshot_def h)
    have one: "phase_step ds (Writing v ds) (CPublish v refs r1) = Some ph \<Longrightarrow> advances ds s ?s1 (Writing v ds) 1 (Some ph)" for ph
      using advances_one [of ?s1 s "CPublish v refs r1" ds "Writing v ds" ph] by (simp add: is_publish_def)
    consider (ok) "r1 = Inr ()" | (conflict) e where "r1 = Inl e" "is_instance e SnapshotPublishConflictError"
      | (race) e where "r1 = Inl e" "\<not> is_instance e SnapshotPublishConflictError" "is_instance e SnapshotPublishRaceError"
      | (other) e where "r1 = Inl e" "\<not> is_instance e SnapshotPublishConflictError" "\<not> is_instance e SnapshotPublishRaceError"
      by (cases r1) auto
    then show ?thesis
    proof cases
      case ok
      have "advances ds s ?s1 (Writing v ds) 1 (Some (Shown v refs))" using one ok by (cases ds) simp_all
      then have "advances ds s ?s1 (Writing v ds) (Suc n) (Some (Shown v refs))" by (rule advances_weaken) simp_all
      then show ?thesis using Suc.prems False ps ok by (auto simp: Let_def advances_def)
    next
      case conflict
      have "advances ds s ?s1 (Writing v ds) 1 (Some (Shown v refs))" using one conflict by (cases ds) simp_all
      from advances_trans [OF this record_conflict_advances]
      have "advances ds s (record_conflict refs v ?s1) (Writing v ds) (Suc n) None" by (rule advances_weaken) simp_all
      then show ?thesis using Suc.prems False ps conflict by (auto simp: Let_def)
    next
      case other
      have "advances ds s ?s1 (Writing v ds) 1 (Some Over)" using one other by (cases ds) simp_all
      then have "advances ds s ?s1 (Writing v ds) (Suc n) None" by (rule advances_weaken) simp_all
      then show ?thesis using Suc.prems False ps other by (auto simp: Let_def)
    next
      case race
      have a1: "advances ds s ?s1 (Writing v ds) 1 (Some Resting)" using one race by (cases ds) simp_all
      show ?thesis
      proof (cases "n = 0")
        case True
        have "advances ds s ?s1 (Writing v ds) (Suc n) None" using a1 by (rule advances_weaken) simp_all
        then show ?thesis using Suc.prems False ps race True by (auto simp: Let_def)
      next
        case n: False
        let ?s1' = "?s1\<lparr>ci_published_version := None\<rparr>"
        have a1': "advances ds s ?s1' (Writing v ds) 1 (Some Resting)" using a1 by (simp add: advances_def)
        obtain s2 r2 where al: "allocate_version ?s1' = (s2, r2)" by fastforce
        note a2 = advances_trans [OF a1' allocate_version_advances [OF al, of ds]]
        show ?thesis
        proof (cases r2)
          case (Inl e')
          have "advances ds s s2 (Writing v ds) (Suc n) None" using a2 by (rule advances_weaken) (simp_all add: Inl)
          then show ?thesis using Suc.prems False ps race n al Inl by (auto simp: Let_def)
        next
          case (Inr v')
          obtain s3 r3 where wr: "write_descriptor_batches ds v' s2 = (s3, r3)" by fastforce
          note a3 = advances_trans [OF a2 [unfolded Inr sum.case]
              write_batches_advances [OF wr [unfolded write_descriptor_batches_def], of ds "[]"]]
          show ?thesis
          proof (cases r3)
            case (Inl e')
            have "advances ds s s3 (Writing v ds) (Suc n) None" using a3 by (rule advances_weaken) (simp_all add: Inl)
            then show ?thesis using Suc.prems False ps race n al wr Inl Inr by (auto simp: Let_def)
          next
            case ins: (Inr inserts)
            have "publish_loop n v' refs ds (rewrites + inserts) s3 = (s', r)"
              using Suc.prems False ps race n al wr Inr ins by (auto simp: Let_def)
            from advances_trans [OF a3 [unfolded ins, simplified] Suc.IH [OF this]] show ?thesis
              by (rule advances_weaken) (simp_all split: sum.split)
          qed
        qed
      qed
    qed
  qed
qed

lemma write_and_publish_advances:
  assumes "write_and_publish ds refs s = (s', r)"
  shows "advances ds s s' Resting (nat (cfg_max_publish_attempts (ci_config s)))
    (if r \<in> range Inr \<and> refs \<noteq> [] then Some Over else None)"
proof (cases "reject_a_writer_that_cannot_publish s")
  case (Inl e)
  then show ?thesis using assms advances_weaken [OF advances_refl [of ds s Resting], of _ None] by (auto simp: write_and_publish_def)
next
  case (Inr u)
  let ?n = "nat (cfg_max_publish_attempts (ci_config s))"
  obtain s1 r1 where al: "allocate_version s = (s1, r1)" by fastforce
  note a1 = allocate_version_advances [OF al, of ds]
  show ?thesis
  proof (cases r1)
    case (Inl e)
    have "advances ds s s1 Resting ?n None" using a1 by (rule advances_weaken) (simp_all add: Inl)
    then show ?thesis using assms \<open>reject_a_writer_that_cannot_publish s = Inr u\<close> al Inl by (auto simp: write_and_publish_def)
  next
    case v: (Inr v)
    obtain s2 r2 where wr: "write_descriptor_batches ds v s1 = (s2, r2)" by fastforce
    note a2 = advances_trans [OF a1 [unfolded v sum.case] write_batches_advances [OF wr [unfolded write_descriptor_batches_def], of ds "[]"]]
    show ?thesis
    proof (cases r2)
      case (Inl e)
      have "advances ds s s2 Resting ?n None" using a2 by (rule advances_weaken) (simp_all add: Inl)
      then show ?thesis using assms \<open>reject_a_writer_that_cannot_publish s = Inr u\<close> al v wr Inl by (auto simp: write_and_publish_def)
    next
      case ins: (Inr inserts)
      have cfg: "ci_config s2 = ci_config s" using a2 by (simp add: advances_def)
      obtain s3 r3 where pu: "publish v refs ds s2 = (s3, r3)" by fastforce
      note a3 = advances_trans [OF a2 [unfolded ins, simplified] publish_loop_advances [OF pu [unfolded publish_def cfg]]]
      show ?thesis
      proof (cases r3)
        case (Inl e)
        have "advances ds s s3 Resting ?n None" using a3 by (rule advances_weaken) (simp_all add: Inl)
        then show ?thesis using assms \<open>reject_a_writer_that_cannot_publish s = Inr u\<close> al v wr ins pu Inl by (auto simp: write_and_publish_def)
      next
        case sh: (Inr vr)
        obtain v' rw where vr: "vr = (v', rw)" by (cases vr)
        have a3': "advances ds s s3 Resting ?n (Some (Shown v' refs))" using a3 by (simp add: sh vr)
        show ?thesis
        proof (cases "refs = []")
          case True
          have "advances ds s s3 Resting ?n None" using a3' by (rule advances_weaken) simp_all
          then show ?thesis using assms \<open>reject_a_writer_that_cannot_publish s = Inr u\<close> al v wr ins pu sh vr True by (simp add: write_and_publish_def)
        next
          case False
          obtain s4 r4 where co: "commit_packs refs v' s3 = (s4, r4)" by fastforce
          have "advances ds s s4 Resting ?n (Some Over)" using advances_trans [OF a3' commit_packs_advances [OF co]] by simp
          then have "advances ds s s4 Resting ?n (if r \<in> range Inr \<and> refs \<noteq> [] then Some Over else None)" by (rule advances_weaken) simp_all
          then show ?thesis using assms \<open>reject_a_writer_that_cannot_publish s = Inr u\<close> al v wr ins pu sh vr False co
            by (cases r4) (auto simp: write_and_publish_def)
        qed
      qed
    qed
  qed
qed

lemma committed_among_advances:
  assumes "committed_among ids s = (s', r)"
  shows "advances ds s s' Resting 0 (Some Resting)"
proof (cases "ids = []")
  case False
  obtain w r0 where h: "cw_committed_pack_ids (ci_writer s) ids (ci_state s) = (w, r0)" by fastforce
  then have s': "s' = logged w (CCommitted ids) s" using assms False by (auto simp: committed_among_def committed_pack_ids_def)
  show ?thesis using advances_one [of s' s "CCommitted ids" ds Resting Resting] by (simp add: s' is_publish_def)
qed (use assms advances_refl in \<open>auto simp: committed_among_def\<close>)

text \<open>What a pass gathers: the packs it could read with their rows, and a failure for each of the others.\<close>

lemma gather_spec:
  "gather store max_bytes refs g = Inr g'
   \<Longrightarrow> length (ga_valid_refs g') + length (ga_failures g') = length refs + length (ga_valid_refs g) + length (ga_failures g)"
  by (induction store max_bytes refs g rule: gather.induct) (auto split: sum.splits if_splits)

text \<open>The shape of a run of \<^verbatim>\<open>index\<close> up to its last writer call.\<close>

lemma index_cases:
  assumes "index refs s = (s', r)"
  defines "s0 \<equiv> s\<lparr>ci_timer_reads := Suc (ci_timer_reads s)\<rparr>"
  obtains (refused) e where "r = Inl e" "s' = s0"
  | (unread) ids s1 r1 e where "committed_among ids s0 = (s1, r1)" "s' = s1" "r = Inl e"
  | (idle) ids s1 r1 res where "committed_among ids s0 = (s1, r1)" "ci_calls s' = ci_calls s1" "r = Inr res"
      "ir_indexed_packs res = 0" "ir_indexed_rows res = 0"
  | (wrote) ids s1 r1 ds vs s2 r2 where "committed_among ids s0 = (s1, r1)" "write_and_publish ds vs s1 = (s2, r2)"
      "ci_calls s' = ci_calls s2" "r \<in> range Inr \<longleftrightarrow> r2 \<in> range Inr" "ds \<noteq> [] \<or> vs \<noteq> []"
      "\<forall>res. r = Inr res \<longrightarrow> ir_indexed_packs res = int (length vs) \<and> ir_indexed_rows res = int (length ds)"
proof (cases "cfg_max_packs (ci_config s) < int (length refs)")
  case True
  then show ?thesis using assms refused by (auto simp: index_def Let_def)
next
  case False
  obtain unique conf where p: "partition_refs refs = (unique, conf)" by fastforce
  obtain s1 r1 where c: "committed_among (map identity unique) s0 = (s1, r1)" by fastforce
  note eq = assms(1) [unfolded index_def Let_def, folded s0_def, unfolded if_not_P [OF False] p prod.case c]
  show ?thesis
  proof (cases r1)
    case (Inl e)
    then have "s' = s1" "r = Inl e" using eq by simp_all
    then show ?thesis using c unread by blast
  next
    case (Inr committed)
    define pending where "pending = filter (\<lambda>ref. identity ref \<notin> set committed) unique"
    note eq1 = eq [unfolded Inr sum.case, folded pending_def]
    show ?thesis
    proof (cases "gather (ci_store s) (cfg_max_estimated_bytes (ci_config s)) pending
        \<lparr>ga_descriptors = [], ga_valid_refs = [], ga_failures = conf, ga_estimated_bytes = 0\<rparr>")
      case (Inl e)
      then have "s' = s1" "r = Inl e" using eq1 by simp_all
      then show ?thesis using c unread by blast
    next
      case g: (Inr g)
      note eq2 = eq1 [unfolded g sum.case]
      show ?thesis
      proof (cases "ga_descriptors g = [] \<and> ga_valid_refs g = []")
        case True
        then show ?thesis using eq2 c idle by (auto simp: emit_event_def split: option.splits sum.splits)
      next
        case False
        obtain s2 r2 where w: "write_and_publish (ga_descriptors g) (ga_valid_refs g) s1 = (s2, r2)" by fastforce
        note eq3 = eq2 [unfolded if_not_P [OF False] w prod.case]
        show ?thesis
          by (rule wrote [OF c w]) (use eq3 False in \<open>auto simp: emit_event_def split: option.splits sum.splits\<close>)
      qed
    qed
  qed
qed

lemma emit_event_keeps: "ci_calls (emit_event res s) = ci_calls s"
  by (simp add: emit_event_def split: option.split sum.split)

lemma advances_from: "advances ds (s\<lparr>ci_timer_reads := n\<rparr>) s' ph k goal = advances ds s s' ph k goal"
  by (simp add: advances_def)


lemma index_Inr:
  assumes "index refs s = (s', Inr res)"
  obtains unique conf committed g where "partition_refs refs = (unique, conf)"
    "gather (ci_store s) (cfg_max_estimated_bytes (ci_config s)) (filter (\<lambda>ref. identity ref \<notin> set committed) unique)
        \<lparr>ga_descriptors = [], ga_valid_refs = [], ga_failures = conf, ga_estimated_bytes = 0\<rparr> = Inr g"
    "ir_requested_packs res = int (length unique) + int (length conf)"
    "ir_skipped_packs res = int (length unique) - int (length (filter (\<lambda>ref. identity ref \<notin> set committed) unique))"
    "ir_indexed_packs res = int (length (ga_valid_refs g))" "ir_failed_packs res = int (length (ga_failures g))"
    "ir_failures res = ga_failures g"
proof -
  obtain unique conf where p: "partition_refs refs = (unique, conf)" by fastforce
  show ?thesis
    using assms by (auto simp: index_def Let_def p split: if_splits prod.splits sum.splits intro: that [OF p])
qed

lemma index_counts:
  assumes "index refs s = (s', Inr res)"
  shows "ir_requested_packs res = int (card (set refs)) \<and> ir_requested_packs res = ir_skipped_packs res + ir_indexed_packs res + ir_failed_packs res
    \<and> int (length (ir_failures res)) = ir_failed_packs res \<and> 0 \<le> ir_skipped_packs res"
  using assms
proof (rule index_Inr)
  fix unique conf committed g
  assume p: "partition_refs refs = (unique, conf)"
    and g: "gather (ci_store s) (cfg_max_estimated_bytes (ci_config s)) (filter (\<lambda>ref. identity ref \<notin> set committed) unique)
        \<lparr>ga_descriptors = [], ga_valid_refs = [], ga_failures = conf, ga_estimated_bytes = 0\<rparr> = Inr g"
    and r: "ir_requested_packs res = int (length unique) + int (length conf)"
    "ir_skipped_packs res = int (length unique) - int (length (filter (\<lambda>ref. identity ref \<notin> set committed) unique))"
    "ir_indexed_packs res = int (length (ga_valid_refs g))" "ir_failed_packs res = int (length (ga_failures g))"
    "ir_failures res = ga_failures g"
  have "length unique + length conf = card (set refs)" using partition_refs_spec [OF p] by simp
  moreover have "length (filter (\<lambda>ref. identity ref \<notin> set committed) unique) \<le> length unique" by (rule length_filter_le)
  ultimately show ?thesis using gather_spec [OF g] r by simp
qed

section \<open>Rebuilding\<close>

definition balanced :: "index_result \<Rightarrow> bool" where
  "balanced r \<longleftrightarrow> ir_requested_packs r = ir_skipped_packs r + ir_indexed_packs r + ir_failed_packs r"

lemma merge_balanced: "balanced a \<Longrightarrow> balanced b \<Longrightarrow> balanced (merge_results a b n)"
  by (simp add: balanced_def merge_results_def Let_def)

lemma merge_requested: "ir_requested_packs (merge_results a b n) = ir_requested_packs a + ir_requested_packs b"
  by (simp add: merge_results_def Let_def)

lemma merge_failures: "length (ir_failures (merge_results a b (Some n))) \<le> nat n"
  by (simp add: merge_results_def Let_def)

lemma index_config:
  assumes "index refs s = (s', r)"
  shows "ci_config s' = ci_config s"
proof -
  have a: "ci_config s1 = ci_config s" if "committed_among ids (s\<lparr>ci_timer_reads := n\<rparr>) = (s1, r1)" for ids s1 r1 n
    using committed_among_advances [OF that, of "[]"] by (simp add: advances_def)
  have b: "ci_config s2 = ci_config s1" if "write_and_publish ds vs s1 = (s2, r2)" for ds vs s1 s2 r2
    using write_and_publish_advances [OF that] by (simp add: advances_def)
  have c: "ci_config (emit_event res s) = ci_config s" for res and s :: "'a indexer"
    by (simp add: emit_event_def split: option.split sum.split)
  show ?thesis
    using assms by (auto simp: index_def Let_def c split: if_splits prod.splits sum.splits dest!: a b)
qed

lemma inspect_all_counts: "inspect_all inventory keys = (refs, failures) \<Longrightarrow> length refs + length failures = length keys"
  by (induction keys arbitrary: refs failures) (auto split: prod.splits sum.splits)

lemma index_object_keys_Inr:
  assumes "index_object_keys inventory keys s = (s', Inr res)"
  shows "balanced res \<and> ir_requested_packs res \<le> int (card (set keys))"
proof -
  obtain refs failures where i: "inspect_all inventory (fromkeys keys) = (refs, failures)" by fastforce
  obtain s1 r1 where x: "index refs s = (s1, r1)" by fastforce
  obtain res1 where r1: "r1 = Inr res1" using assms i x by (cases r1) (auto simp: index_object_keys_def split: if_splits)
  note c = index_counts [OF x [unfolded r1]]
  have "length refs + length failures = card (set keys)"
    using inspect_all_counts [OF i] distinct_card [OF distinct_fromkeys [of keys]] by (simp add: set_fromkeys)
  moreover have "card (set refs) \<le> length refs" by (rule card_length)
  moreover have "res = res1 \<and> failures = [] \<or> (\<exists>n. res = merge_results res1
      (IndexResult\<lparr>ir_requested_packs := int (length failures), ir_failed_packs := int (length failures), ir_failures := failures\<rparr>) n)"
    using assms i x r1 by (auto simp: index_object_keys_def split: if_splits)
  ultimately show ?thesis
    using c by (auto simp: balanced_def merge_results_def Let_def IndexResult_def)
qed

text \<open>The pages of a listing from a cursor to its end.\<close>

fun listing :: "pack_inventory \<Rightarrow> pystr \<Rightarrow> int \<Rightarrow> pystr option \<Rightarrow> object_page list \<Rightarrow> bool" where
  "listing inventory prefix limit cursor [] = False"
| "listing inventory prefix limit cursor (p # ps) =
     (pv_list_objects inventory prefix cursor limit = Inr p
      \<and> (case pg_next_cursor p of None \<Rightarrow> ps = [] | Some c \<Rightarrow> listing inventory prefix limit (Some c) ps))"

definition page_keys :: "object_page list \<Rightarrow> int" where
  "page_keys ps = sum_list (map (\<lambda>p. int (card (set (pg_items p)))) ps)"

lemma rebuild_loop_Inr:
  assumes "rebuild_loop inventory prefix page_size n cursor acc s = (s', Inr res)" "balanced acc"
  shows "\<exists>ps. listing inventory prefix page_size cursor ps \<and> length ps \<le> n \<and> balanced res
    \<and> ir_requested_packs res \<le> ir_requested_packs acc + page_keys ps
    \<and> length (ir_failures res) \<le> nat (cfg_max_failure_details (ci_config s))"
  using assms(1,2)
proof (induction n arbitrary: cursor acc s)
  case (Suc n)
  obtain s1 r1 where rc: "reconcile_page inventory prefix cursor page_size s = (s1, r1)" by fastforce
  then obtain pr where pr: "r1 = Inr pr" using Suc.prems(1) by (cases r1) auto
  obtain page where pg: "pv_list_objects inventory prefix cursor page_size = Inr page" "rc_next_cursor pr = pg_next_cursor page"
    "index_object_keys inventory (pg_items page) s = (s1, Inr (rc_index pr))"
    using rc pr by (auto simp: reconcile_page_def split: if_splits sum.splits prod.splits)
  note k = index_object_keys_Inr [OF pg(3)]
  let ?acc = "merge_results acc (rc_index pr) (Some (cfg_max_failure_details (ci_config s)))"
  have acc: "balanced ?acc" "ir_requested_packs ?acc \<le> ir_requested_packs acc + int (card (set (pg_items page)))"
    using merge_balanced [OF Suc.prems(2)] k by (auto simp: merge_requested)
  show ?case
  proof (cases "pg_next_cursor page")
    case None
    then have "res = ?acc" using Suc.prems(1) rc pr pg(2) by (simp add: Let_def)
    then show ?thesis using None pg(1) acc merge_failures by (intro exI [of _ "[page]"]) (simp add: page_keys_def)
  next
    case (Some c)
    then have "rebuild_loop inventory prefix page_size n (Some c) ?acc s1 = (s', Inr res)"
      using Suc.prems(1) rc pr pg(2) by (simp add: Let_def)
    from Suc.IH [OF this acc(1)] obtain ps where "listing inventory prefix page_size (Some c) ps" "length ps \<le> n" "balanced res"
      "ir_requested_packs res \<le> ir_requested_packs ?acc + page_keys ps"
      "length (ir_failures res) \<le> nat (cfg_max_failure_details (ci_config s1))" by blast
    moreover have "ci_config s1 = ci_config s"
      using pg(3) by (auto simp: index_object_keys_def split: if_splits prod.splits sum.splits dest!: index_config)
    ultimately show ?thesis using Some pg(1) acc(2) by (intro exI [of _ "page # ps"]) (simp add: page_keys_def)
  qed
qed simp

end
