(* ===== verification/Hydration.thy ===== *)
theory Hydration
  imports Reader
begin

text \<open>
  What hydration promises: it returns what the stores hold, it returns on published packs whatever a full read of
  the packs would give, it stays within its limits, and its footer cache is bounded. A small store with one pack
  of one record shows that the hypotheses can be met.
\<close>

section \<open>A concrete hydration\<close>

definition demo_fs :: "bytes \<Rightarrow> fs_store" where
  "demo_fs data = \<lparr>fs_store_id = lit ''fs'', fs_tree = [[] \<mapsto> FDir, [lit ''a''] \<mapsto> FDir, [lit ''a'', lit ''b''] \<mapsto> FReg data]\<rparr>"

definition demo_catalog :: "capture_descriptor \<Rightarrow> catalog_handle" where
  "demo_catalog d = \<lparr>cat_search = (\<lambda>_. Inl (Error ValueError [])), cat_get_by_ids = (\<lambda>_ _ _. Inr [d])\<rparr>"

definition demo_selection :: capture_selection where
  "demo_selection = \<lparr>sel_selection_id = lit ''i'', sel_capture_ids = [lit ''c0''], sel_catalog_watermark = lit ''w'',
     sel_filter_hash = lit ''f'', sel_tenant_id = lit ''t''\<rparr>"

lemma demo_published:
  "\<exists>data rd d. from_bytes data = Inr rd \<and> intact (fs_holds (demo_fs data)) (\<lambda>_. rd) [d] \<and> desc_capture_id d = lit ''c0''
     \<and> read_payload rd d = Inr [7, 9] \<and> length (rd_records rd) = 1 \<and> d_ref d = reader_ref rd (lit ''fs'') (lit ''a/b'')"
proof -
  obtain w where w: "append_all [demo_record] demo_writer = Inr w" using demo_append by blast
  have ok: "list_all record_ok [demo_record]" using demo_record_ok by simp
  obtain sp w' rd where h: "seal w = Inr (sp, w')" "from_bytes (sp_data sp) = Inr rd"
    "map ix_metadata (rd_records rd) = [demo_metadata]"
    "list_all2 (\<lambda>r i. read_payload rd (descriptor_of (reader_ref rd (lit ''fs'') (lit ''a/b'')) i) = Inr (rec_payload r)) [demo_record] (rd_records rd)"
    using sealed_readable [OF demo_writer _ _ ok _ w, of "lit ''fs''" "lit ''a/b''"]
    by (auto simp: pack_id_arg_ok_def demo_record_def)
  obtain i where i: "rd_records rd = [i]" "ix_metadata i = demo_metadata" using h(3) by auto
  let ?ref = "reader_ref rd (lit ''fs'') (lit ''a/b'')"
  let ?d = "descriptor_of ?ref i"
  have read: "read_payload rd ?d = Inr [7, 9]" using h(4) i(1) by (simp add: demo_record_def)
  have dat: "rd_data rd = sp_data sp" using h(2) by (rule from_bytes_Inr)
  have "fs_holds (demo_fs (sp_data sp)) ?ref (sp_data sp)"
    using demo_path by (simp add: fs_holds_def reader_ref_def dat demo_fs_def)
  moreover have "reject_a_foreign_tenant ?ref ts = Inr ()" for ts
    by (simp add: reject_a_foreign_tenant_def tenant_segment_def reader_ref_def lit_def startswith_def)
  ultimately have "published (fs_holds (demo_fs (sp_data sp))) ?ref rd"
    using h(2) by (auto simp: published_def descriptors_of_def reader_ref_def)
  then have "intact (fs_holds (demo_fs (sp_data sp))) (\<lambda>_. rd) [?d]"
    using read i(1) by (simp add: intact_def pack_ref_of_descriptor)
  moreover have "desc_capture_id ?d = lit ''c0''" by (simp add: desc_capture_id_def descriptor_of_def i(2) demo_metadata_def)
  moreover have "length (rd_records rd) = 1" "d_ref ?d = ?ref" using i(1) by (simp_all add: pack_ref_of_descriptor)
  ultimately show ?thesis using h(2) read by (intro exI conjI)
qed


lemma demo_reader:
  "\<exists>r. CaptureReader (demo_catalog d) [(lit ''fs'', fs_handle (demo_fs data))] 0 = Inr r"
  by (simp add: CaptureReader_def fs_handle_def handle_def demo_fs_def)

lemma CaptureReader_fields:
  assumes "CaptureReader catalog stores gap = Inr r"
  shows "r_catalog r = catalog" "r_stores r = stores" "r_gap r = gap" "fc_entries (r_cache r) = []"
    "fc_limit (r_cache r) = FOOTER_CACHE_PACKS" "fc_bytes_limit (r_cache r) = FOOTER_CACHE_BYTES" "fc_bytes (r_cache r) = 0"
  using assms by (auto simp: CaptureReader_def split: if_splits)

lemma demo_resolve:
  assumes "CaptureReader (demo_catalog d) stores gap = Inr r" "desc_capture_id d = lit ''c0''"
  shows "resolve r demo_selection = Inr [d]"
  using assms(2) by (simp add: resolve_def CaptureReader_fields [OF assms(1)] demo_catalog_def demo_selection_def)

lemma estimate_resolved: "resolve r sel = Inr ds \<Longrightarrow> \<exists>e. estimate r sel = Inr e"
  by (simp add: estimate_def Let_def)

lemma fs_read_range_Inr:
  assumes "fs_read_range st ref off len = Inr bs"
  obtains path data where "fs_path (ref_object_key ref) = Inr path" "fs_tree st path = Some (FReg data)" "0 \<le> off" "0 \<le> len"
    "off + len \<le> int (length data)" "bs = slice off (off + len) data"
  using assms that
  by (auto simp: fs_read_range_def fs_size_def fs_open_def require_def rbind_eq_Inr Let_def
      split: if_splits option.splits fnode.splits)

lemma verify_payload_Inr:
  "verify_payload d p = Inr () \<Longrightarrow> int (length p) = loc_stored_length (desc_locator d) \<and> crc32_hex p = loc_checksum (desc_locator d)"
  by (auto simp: verify_payload_def Let_def split: if_splits)

lemma fetched_fs:
  assumes "fetched (fs_handle st) ref d x"
  shows "\<exists>path data. fs_path (ref_object_key ref) = Inr path \<and> fs_tree st path = Some (FReg data) \<and> x = slice (d_off d) (d_end d) data
    \<and> int (length x) = loc_stored_length (desc_locator d) \<and> crc32_hex x = loc_checksum (desc_locator d)"
proof -
  obtain off len block where h: "fs_read_range st ref off len = Inr block" "off \<le> d_off d" "d_end d \<le> off + len"
    "x = payload_in d off block" "verify_payload d x = Inr ()"
    using assms by (auto simp: fetched_def fs_handle_def handle_def)
  note v = verify_payload_Inr [OF h(5)]
  from h(1) show ?thesis
  proof (rule fs_read_range_Inr)
    fix path data assume f: "fs_path (ref_object_key ref) = Inr path" "fs_tree st path = Some (FReg data)" "0 \<le> off" "0 \<le> len"
      "off + len \<le> int (length data)" "block = slice off (off + len) data"
    have "x = slice (d_off d) (d_end d) data" using payload_in_slice [of off d len data] f h v by auto
    with f(1,2) v show ?thesis by blast
  qed
qed

lemma footer_descriptors_limits:
  "footer_descriptors store ref c s = (c', s', res) \<Longrightarrow> fc_limit c' = fc_limit c \<and> fc_bytes_limit c' = fc_bytes_limit c"
  by (auto simp: footer_descriptors_def footer_keep_def move_to_end_def cache_insert_def Let_def
      split: option.splits sum.splits prod.splits if_splits)

lemma verify_plans_limits:
  "verify_plans ds stores ps c s = (c', s', res) \<Longrightarrow> fc_limit c' = fc_limit c \<and> fc_bytes_limit c' = fc_bytes_limit c"
proof (induction ps arbitrary: c s res)
  case (Cons p ps)
  show ?case
  proof (cases "map_of stores (op_store_id p)")
    case (Some store)
    obtain c1 s1 r1 where f: "footer_descriptors store (plan_ref ds p) c s = (c1, s1, r1)" by (metis prod_cases3)
    have "c' = c1 \<or> (\<exists>r2. verify_plans ds stores ps c1 s1 = (c', s', r2))"
      using Cons.prems Some f by (auto split: sum.splits prod.splits)
    then show ?thesis using footer_descriptors_limits [OF f] Cons.IH by metis
  qed (use Cons.prems in auto)
qed simp

lemma hydrate_cache_limits:
  "hydrate r sel bl rl = (r', trace, res)
   \<Longrightarrow> fc_limit (r_cache r') = fc_limit (r_cache r) \<and> fc_bytes_limit (r_cache r') = fc_bytes_limit (r_cache r)"
  by (erule hydrate_cases) (auto dest: verify_plans_limits)

lemma concat_concat_map: "concat (map f (concat (map g xs))) = concat (map (\<lambda>x. concat (map f (g x))) xs)"
  by (induction xs) auto

lemma hydrate_fresh:
  assumes "CaptureReader catalog stores gap = Inr r" "map_of stores (fs_store_id st) = Some (fs_handle st)"
    and "resolve r sel = Inr ds" "estimate r sel = Inr e" "intact (fs_holds st) rds ds"
    and "0 \<le> bl" "0 < rl" "he_request_count e \<le> rl" "he_request_bytes e \<le> bl"
  shows "\<exists>r' trace hs. hydrate r sel bl rl = (r', trace, Inr hs) \<and> map hc_descriptor hs = ds
    \<and> map desc_capture_id ds = sel_capture_ids sel
    \<and> (\<forall>h \<in> set hs. read_payload (rds (d_ref (hc_descriptor h))) (hc_descriptor h) = Inr (hc_payload h))"
proof -
  note f = CaptureReader_fields [OF assms(1)]
  have "map_of (r_stores r) (fs_store_id st) = Some (handle (fs_store_id st) (fs_read_range st))"
    using assms(2) f(2) by (simp add: fs_handle_def)
  from fs.hydrate_published [OF assms(3,4,6-9) this assms(5) f(4)] resolve_Inr [OF assms(3)] show ?thesis by blast
qed

lemma demo_hydration:
  "\<exists>data d r bl rl r' trace hs. CaptureReader (demo_catalog d) [(lit ''fs'', fs_handle (demo_fs data))] 0 = Inr r
     \<and> hydrate r demo_selection bl rl = (r', trace, Inr hs) \<and> map hc_payload hs = [[7, 9]]
     \<and> resolve r demo_selection = Inr [d] \<and> 0 \<le> loc_stored_length (desc_locator d)"
proof -
  obtain data rd d where h: "from_bytes data = Inr rd" "intact (fs_holds (demo_fs data)) (\<lambda>_. rd) [d]" "desc_capture_id d = lit ''c0''"
    "read_payload rd d = Inr [7, 9]" using demo_published by (elim exE conjE)
  obtain r where r: "CaptureReader (demo_catalog d) [(lit ''fs'', fs_handle (demo_fs data))] 0 = Inr r" using demo_reader by blast
  note res = demo_resolve [OF r h(3)]
  obtain e where e: "estimate r demo_selection = Inr e" using estimate_resolved [OF res] by blast
  have m: "map_of [(lit ''fs'', fs_handle (demo_fs data))] (fs_store_id (demo_fs data)) = Some (fs_handle (demo_fs data))"
    by (simp add: demo_fs_def)
  have pos: "0 < max 1 (he_request_count e)" by simp
  obtain r' trace hs where hs: "hydrate r demo_selection (max 0 (he_request_bytes e)) (max 1 (he_request_count e)) = (r', trace, Inr hs)"
    "map hc_descriptor hs = [d]" "\<forall>h \<in> set hs. read_payload rd (hc_descriptor h) = Inr (hc_payload h)"
    using hydrate_fresh [OF r m res e h(2) max.cobounded1 pos max.cobounded2 max.cobounded2] by auto
  have "map hc_payload hs = [[7, 9]]" using hs(2,3) h(4) by auto
  moreover have "0 \<le> loc_stored_length (desc_locator d)" using read_payload_slice [OF h(1,4)] by auto
  ultimately show ?thesis using r res hs(1) by (intro exI conjI)
qed

section \<open>Properties of the reader\<close>

text \<open>C21: a fresh reader hydrates every published capture. When the catalog's descriptors are the ones of packs
  that the filesystem store holds, and the limits are at least the reader's own estimate, hydration returns
  the captures in the order of the selection, each with exactly the payload that reading the whole pack gives:
  coalescing ranges, checking footers and caching them change nothing.\<close>

theorem hydrate_refines_pack_reader:
  assumes "CaptureReader catalog stores gap = Inr r" "map_of stores (fs_store_id st) = Some (fs_handle st)"
    and "resolve r sel = Inr ds" "estimate r sel = Inr e" "intact (fs_holds st) rds ds"
    and "0 \<le> bl" "0 < rl" "he_request_count e \<le> rl" "he_request_bytes e \<le> bl"
  shows "\<exists>r' trace hs. hydrate r sel bl rl = (r', trace, Inr hs) \<and> map hc_descriptor hs = ds
    \<and> map desc_capture_id ds = sel_capture_ids sel
    \<and> (\<forall>h \<in> set hs. read_payload (rds (d_ref (hc_descriptor h))) (hc_descriptor h) = Inr (hc_payload h))"
  using assms by (rule hydrate_fresh)

theorem hydrate_refines_pack_reader_witness:
  "\<exists>data d r bl rl r' trace hs. CaptureReader (demo_catalog d) [(lit ''fs'', fs_handle (demo_fs data))] 0 = Inr r
     \<and> hydrate r demo_selection bl rl = (r', trace, Inr hs) \<and> map hc_payload hs = [[7, 9]]"
proof -
  obtain data rd d where h: "intact (fs_holds (demo_fs data)) (\<lambda>_. rd) [d]" "desc_capture_id d = lit ''c0''"
    "read_payload rd d = Inr [7, 9]" using demo_published by (elim exE conjE)
  obtain r where r: "CaptureReader (demo_catalog d) [(lit ''fs'', fs_handle (demo_fs data))] 0 = Inr r" using demo_reader by blast
  note res = demo_resolve [OF r h(2)]
  obtain e where e: "estimate r demo_selection = Inr e" using estimate_resolved [OF res] by blast
  have m: "map_of [(lit ''fs'', fs_handle (demo_fs data))] (fs_store_id (demo_fs data)) = Some (fs_handle (demo_fs data))"
    by (simp add: demo_fs_def)
  have pos: "0 < max 1 (he_request_count e)" by simp
  obtain r' trace hs where hs: "hydrate r demo_selection (max 0 (he_request_bytes e)) (max 1 (he_request_count e)) = (r', trace, Inr hs)"
    "map hc_descriptor hs = [d]" "\<forall>h \<in> set hs. read_payload rd (hc_descriptor h) = Inr (hc_payload h)"
    using hydrate_refines_pack_reader [OF r m res e h(1) max.cobounded1 pos max.cobounded2 max.cobounded2] by auto
  have "map hc_payload hs = [[7, 9]]" using hs(2,3) h(3) by auto
  with r hs(1) show ?thesis by (intro exI conjI)
qed

text \<open>C22: what hydration returns is what the store holds. Whatever the catalog said and whatever was cached, the
  captures come back in the order of the selection, and each payload is the bytes of its object between the
  offsets of its descriptor, with the length and CRC-32 the descriptor records.\<close>

theorem hydrate_returns_stored_bytes:
  assumes "hydrate r sel bl rl = (r', trace, Inr hs)" "r_stores r = map (\<lambda>st. (fs_store_id st, fs_handle st)) sts"
  shows "map (desc_capture_id \<circ> hc_descriptor) hs = sel_capture_ids sel
    \<and> (\<forall>h \<in> set hs. let loc = desc_locator (hc_descriptor h) in
         \<exists>st \<in> set sts. \<exists>path data. fs_store_id st = loc_store_id loc \<and> fs_path (loc_object_key loc) = Inr path
           \<and> fs_tree st path = Some (FReg data)
           \<and> hc_payload h = slice (loc_offset loc) (loc_offset loc + loc_stored_length loc) data
           \<and> int (length (hc_payload h)) = loc_stored_length loc \<and> crc32_hex (hc_payload h) = loc_checksum loc)"
  using assms(1)
proof (rule hydrate_Inr)
  fix ds
  assume ds: "resolve r sel = Inr ds" "map hc_descriptor hs = ds"
    and each: "\<forall>h \<in> set hs. \<exists>store ref. map_of (r_stores r) (loc_store_id (desc_locator (hc_descriptor h))) = Some store
       \<and> (\<exists>d \<in> set ds. ref = pack_ref_of (desc_locator d) \<and> object_of d = object_of (hc_descriptor h))
       \<and> fetched store ref (hc_descriptor h) (hc_payload h)"
  have "map (desc_capture_id \<circ> hc_descriptor) hs = sel_capture_ids sel"
    using resolve_Inr [OF ds(1)] ds(2) by (metis map_map)
  moreover have "let loc = desc_locator (hc_descriptor h) in
         \<exists>st \<in> set sts. \<exists>path data. fs_store_id st = loc_store_id loc \<and> fs_path (loc_object_key loc) = Inr path
           \<and> fs_tree st path = Some (FReg data)
           \<and> hc_payload h = slice (loc_offset loc) (loc_offset loc + loc_stored_length loc) data
           \<and> int (length (hc_payload h)) = loc_stored_length loc \<and> crc32_hex (hc_payload h) = loc_checksum loc"
    if h: "h \<in> set hs" for h
  proof -
    obtain store ref d where s: "map_of (r_stores r) (loc_store_id (desc_locator (hc_descriptor h))) = Some store"
      "ref = pack_ref_of (desc_locator d)" "object_of d = object_of (hc_descriptor h)"
      "fetched store ref (hc_descriptor h) (hc_payload h)" using each h by blast
    obtain st where st: "st \<in> set sts" "store = fs_handle st" "fs_store_id st = loc_store_id (desc_locator (hc_descriptor h))"
      using map_of_SomeD [OF s(1)] assms(2) by auto
    have key: "ref_object_key ref = loc_object_key (desc_locator (hc_descriptor h))"
      using s(2,3) by (simp add: object_of_def Let_def pack_ref_of_def)
    from fetched_fs [OF s(4) [unfolded st(2)]] st(1,3) show ?thesis unfolding key Let_def by blast
  qed
  ultimately show ?thesis by blast
qed


theorem hydrate_returns_stored_bytes_witness:
  "\<exists>data d r bl rl r' trace hs. CaptureReader (demo_catalog d) [(lit ''fs'', fs_handle (demo_fs data))] 0 = Inr r
     \<and> hydrate r demo_selection bl rl = (r', trace, Inr hs) \<and> map (desc_capture_id \<circ> hc_descriptor) hs = [lit ''c0'']"
proof -
  obtain data d r bl rl r' trace hs where h: "CaptureReader (demo_catalog d) [(lit ''fs'', fs_handle (demo_fs data))] 0 = Inr r"
    "hydrate r demo_selection bl rl = (r', trace, Inr hs)" using demo_hydration by (elim exE conjE)
  have "r_stores r = map (\<lambda>st. (fs_store_id st, fs_handle st)) [demo_fs data]"
    by (simp add: CaptureReader_fields [OF h(1)] demo_fs_def)
  from hydrate_returns_stored_bytes [OF h(2) this]
  have "map (desc_capture_id \<circ> hc_descriptor) hs = [lit ''c0'']" by (simp add: demo_selection_def)
  with h show ?thesis by (intro exI conjI)
qed

text \<open>C23: a hydration stays within its limits, whether it returns or raises: the store gets at most
  \<^verbatim>\<open>request_limit\<close> range reads, and they ask for at most \<^verbatim>\<open>byte_limit\<close> bytes, footers included, when the
  catalog's lengths are not negative.\<close>

theorem hydrate_within_limits:
  assumes "hydrate r sel bl rl = (r', trace, res)"
    and "\<And>ds d. resolve r sel = Inr ds \<Longrightarrow> d \<in> set ds \<Longrightarrow> 0 \<le> loc_stored_length (desc_locator d)"
  shows "int (length trace) \<le> max 0 rl \<and> log_bytes trace \<le> max 0 bl"
proof (cases "trace = []")
  case False
  from hydrate_bounds [OF assms(1) this] assms(2) have "int (length trace) \<le> rl" "log_bytes trace \<le> bl" by blast+
  then show ?thesis by auto
qed (simp add: log_bytes_def)

theorem hydrate_within_limits_witness:
  "\<exists>d data r bl rl r' trace hs. CaptureReader (demo_catalog d) [(lit ''fs'', fs_handle (demo_fs data))] 0 = Inr r
     \<and> hydrate r demo_selection bl rl = (r', trace, Inr hs) \<and> hs \<noteq> [] \<and> log_bytes trace \<le> max 0 bl"
proof -
  obtain data d r bl rl r' trace hs where h: "CaptureReader (demo_catalog d) [(lit ''fs'', fs_handle (demo_fs data))] 0 = Inr r"
    "hydrate r demo_selection bl rl = (r', trace, Inr hs)" "map hc_payload hs = [[7, 9]]" "resolve r demo_selection = Inr [d]"
    "0 \<le> loc_stored_length (desc_locator d)" using demo_hydration by (elim exE conjE)
  have "0 \<le> loc_stored_length (desc_locator d')" if "resolve r demo_selection = Inr ds" "d' \<in> set ds" for ds d'
    using that h(4,5) by auto
  from hydrate_within_limits [OF h(2) this] have "log_bytes trace \<le> max 0 bl" by simp
  moreover have "hs \<noteq> []" using h(3) by auto
  ultimately show ?thesis using h(1,2) by (intro exI conjI)
qed

text \<open>C24: limits at or above the estimate never show. Two hydrations of one selection by the same reader whose
  limits both cover the estimate issue the same reads, cache the same footers and return or raise the same.\<close>

theorem limits_above_estimate_are_equivalent:
  assumes "estimate r sel = Inr e" "0 \<le> bl" "0 < rl" "he_request_count e \<le> rl" "he_request_bytes e \<le> bl"
    and "0 \<le> bl'" "0 < rl'" "he_request_count e \<le> rl'" "he_request_bytes e \<le> bl'"
  shows "hydrate r sel bl rl = hydrate r sel bl' rl'"
proof -
  obtain ds where "resolve r sel = Inr ds" using assms(1) by (auto simp: estimate_def rbind_eq_Inr)
  from hydrate_unmetered [OF this assms(1)] assms(2-9) show ?thesis by metis
qed

theorem limits_above_estimate_are_equivalent_witness:
  "\<exists>d data r e. CaptureReader (demo_catalog d) [(lit ''fs'', fs_handle (demo_fs data))] 0 = Inr r
     \<and> estimate r demo_selection = Inr e
     \<and> hydrate r demo_selection (max 0 (he_request_bytes e)) (max 1 (he_request_count e))
       = hydrate r demo_selection (max 1000 (he_request_bytes e)) (max 1000 (he_request_count e))"
proof -
  obtain data d r where h: "CaptureReader (demo_catalog d) [(lit ''fs'', fs_handle (demo_fs data))] 0 = Inr r"
    "resolve r demo_selection = Inr [d]" using demo_hydration by (elim exE conjE)
  obtain e where e: "estimate r demo_selection = Inr e" using estimate_resolved [OF h(2)] by blast
  show ?thesis
    by (intro exI conjI, rule h(1), rule e, rule limits_above_estimate_are_equivalent [OF e]) simp_all
qed

text \<open>C25: the plan reads every capture of the selection exactly once: the index of each capture occurs in one
  range of one object and nowhere else, the range belongs to the capture's own object, and it covers the
  capture's record.\<close>

theorem plan_covers_every_capture_once:
  "mset (concat (map rr_indexes (concat (map op_ranges (plan gap ds))))) = mset [0..<length ds]
   \<and> (\<forall>p \<in> set (plan gap ds). \<forall>rr \<in> set (op_ranges p). \<forall>i \<in> set (rr_indexes rr).
        object_of (ds ! i) = (op_store_id p, op_pack_id p, op_object_key p)
        \<and> rr_offset rr \<le> loc_offset (desc_locator (ds ! i))
        \<and> loc_offset (desc_locator (ds ! i)) + loc_stored_length (desc_locator (ds ! i)) \<le> rr_offset rr + rr_length rr)"
proof
  have "map (\<lambda>p. concat (map rr_indexes (op_ranges p))) (plan gap ds) = map op_indexes (plan gap ds)"
    using plan_all_ok by (intro map_cong) (auto simp: plan_ok_def)
  then have "concat (map rr_indexes (concat (map op_ranges (plan gap ds)))) = concat (map op_indexes (plan gap ds))"
    by (metis concat_concat_map)
  then show "mset (concat (map rr_indexes (concat (map op_ranges (plan gap ds))))) = mset [0..<length ds]"
    using plan_indexes [of gap ds] by simp
  show "\<forall>p \<in> set (plan gap ds). \<forall>rr \<in> set (op_ranges p). \<forall>i \<in> set (rr_indexes rr).
        object_of (ds ! i) = (op_store_id p, op_pack_id p, op_object_key p)
        \<and> rr_offset rr \<le> loc_offset (desc_locator (ds ! i))
        \<and> loc_offset (desc_locator (ds ! i)) + loc_stored_length (desc_locator (ds ! i)) \<le> rr_offset rr + rr_length rr"
  proof (intro ballI)
    fix p rr i assume a: "p \<in> set (plan gap ds)" "rr \<in> set (op_ranges p)" "i \<in> set (rr_indexes rr)"
    have ok: "plan_ok ds p" using plan_all_ok [OF a(1)] .
    have "i \<in> set (concat (map rr_indexes (op_ranges p)))" using a(2,3) by auto
    then have "i \<in> set (op_indexes p)" using ok unfolding plan_ok_def by metis
    moreover have "covers ds rr" using ok a(2) unfolding plan_ok_def by blast
    ultimately show "object_of (ds ! i) = (op_store_id p, op_pack_id p, op_object_key p)
        \<and> rr_offset rr \<le> d_off (ds ! i) \<and> d_end (ds ! i) \<le> rr_offset rr + rr_length rr"
      using ok a(3) unfolding plan_ok_def covers_def by blast
  qed
qed

definition demo_descriptor :: "int \<Rightarrow> int \<Rightarrow> capture_descriptor" where
  "demo_descriptor off len = descriptor_of
     \<lparr>ref_pack_id = lit ''p'', ref_store_id = lit ''fs'', ref_object_key = lit ''a/b'', ref_object_bytes = 4096, ref_checksum = lit ''c'',
      ref_record_count = 2\<rparr>
     \<lparr>ix_metadata = demo_metadata, ix_offset = off, ix_stored_length = len, ix_decoded_length = len, ix_codec = lit ''none'',
      ix_checksum = lit ''x''\<rparr>"

theorem plan_covers_every_capture_once_witness:
  "mset (concat (map rr_indexes (concat (map op_ranges (plan 0 [demo_descriptor 128 8, demo_descriptor 64 8]))))) = mset [0, 1]
   \<and> map op_ranges (plan 0 [demo_descriptor 128 8, demo_descriptor 64 8])
     = [[\<lparr>rr_indexes = [1], rr_offset = 64, rr_length = 8\<rparr>, \<lparr>rr_indexes = [0], rr_offset = 128, rr_length = 8\<rparr>]]"
proof
  show "mset (concat (map rr_indexes (concat (map op_ranges (plan 0 [demo_descriptor 128 8, demo_descriptor 64 8]))))) = mset [0, 1]"
    using conjunct1 [OF plan_covers_every_capture_once [of 0 "[demo_descriptor 128 8, demo_descriptor 64 8]"]]
    by (simp add: upt_conv_Cons)
qed (simp add: plan_def grouped_def plan_group_def object_of_def demo_descriptor_def descriptor_of_def upt_conv_Cons Let_def)

text \<open>C26: the footer cache is bounded. After any sequence of hydrations by a reader, whatever they returned, the
  cache holds at most 128 footers under distinct keys, its byte count is the sum of what its entries cost on
  the wire, and that sum is at most 64 MiB.\<close>

definition hydrations :: "reader \<Rightarrow> (capture_selection \<times> int \<times> int) list \<Rightarrow> reader" where
  "hydrations r calls = foldl (\<lambda>r (sel, bl, rl). fst (hydrate r sel bl rl)) r calls"

theorem footer_cache_is_bounded:
  assumes "CaptureReader catalog stores gap = Inr r"
  shows "let c = r_cache (hydrations r calls) in
     length (fc_entries c) \<le> 128 \<and> distinct (map fst (fc_entries c))
     \<and> fc_bytes c = sum_list (map (fe_wire_bytes \<circ> snd) (fc_entries c)) \<and> fc_bytes c \<le> 64 * 1024 * 1024"
proof -
  note f = CaptureReader_fields [OF assms]
  have "cache_ok (r_cache r) \<and> fc_limit (r_cache r) = FOOTER_CACHE_PACKS \<and> fc_bytes_limit (r_cache r) = FOOTER_CACHE_BYTES"
    by (simp add: cache_ok_def entries_ok_def f FOOTER_CACHE_PACKS_def FOOTER_CACHE_BYTES_def)
  then have "cache_ok (r_cache (hydrations r calls)) \<and> fc_limit (r_cache (hydrations r calls)) = FOOTER_CACHE_PACKS
      \<and> fc_bytes_limit (r_cache (hydrations r calls)) = FOOTER_CACHE_BYTES"
    unfolding hydrations_def
  proof (induction calls arbitrary: r)
    case (Cons call calls)
    obtain sel bl rl where c: "call = (sel, bl, rl)" by (cases call)
    obtain r' trace res where h: "hydrate r sel bl rl = (r', trace, res)" by (metis surj_pair)
    have "cache_ok (r_cache r') \<and> fc_limit (r_cache r') = FOOTER_CACHE_PACKS \<and> fc_bytes_limit (r_cache r') = FOOTER_CACHE_BYTES"
      using hydrate_cache_ok [OF h] hydrate_cache_limits [OF h] Cons.prems by simp
    from Cons.IH [OF this] show ?case by (simp add: c h)
  qed simp
  then show ?thesis
    by (simp add: Let_def cache_ok_def entries_ok_def wire_total_def comp_def FOOTER_CACHE_PACKS_def FOOTER_CACHE_BYTES_def)
qed

theorem footer_cache_is_bounded_witness:
  "\<exists>d data r. CaptureReader (demo_catalog d) [(lit ''fs'', fs_handle (demo_fs data))] 0 = Inr r
     \<and> length (fc_entries (r_cache (hydrations r [(demo_selection, 1000, 10)]))) \<le> 128"
  using demo_reader footer_cache_is_bounded [of _ _ _ _ "[(demo_selection, 1000, 10)]"] by (fastforce simp: Let_def)

end
