(* ===== verification/Indexing.thy ===== *)
theory Indexing
  imports Catalog Hydration
begin

text \<open>
  What the catalog indexer promises: how a batch is partitioned, in which order it writes, shows and records, what it
  does without a lease, and how a rebuild accounts for the objects it lists. The witnesses run the indexer with a
  small writer over the store of one pack.
\<close>

section \<open>Sizes of rows\<close>

lemma u_escape_scalar: "list_all scalar_value (u_escape n)"
  using hex_fixed_lower [of _ 4 n] is_lower_hex_less_128 ascii_scalar by (force simp: u_escape_def list_all_iff)

lemma escape_char_scalar: "scalar_value c \<Longrightarrow> list_all scalar_value (escape_char False c)"
  by (simp add: escape_char_def u_escape_scalar ascii_scalar)

lemma dumps_str_scalar: "list_all scalar_value s \<Longrightarrow> list_all scalar_value (dumps_str False s)"
  using escape_char_scalar by (fastforce simp: dumps_str_def list_all_iff ascii_scalar)

fun scalar_texts :: "jval \<Rightarrow> bool" where
  "scalar_texts (VStr s) = list_all scalar_value s"
| "scalar_texts (VList vs) = list_all scalar_texts vs"
| "scalar_texts (VDict kvs) = list_all (\<lambda>(k, v). list_all scalar_value k \<and> scalar_texts v) kvs"
| "scalar_texts _ = True"

lemma jval_ok_scalar_texts: "jval_ok v \<Longrightarrow> scalar_texts v"
  by (induction v) (auto simp: list_all_iff)

lemma dumps_scalar: "scalar_texts v \<Longrightarrow> list_all scalar_value (dumps srt False v)"
proof (induction v)
  case (VList vs)
  then have "\<forall>t \<in> set (map (dumps srt False) vs). list_all scalar_value t" by (auto simp: list_all_iff)
  then show ?case by (simp add: list_all_join ascii_scalar)
next
  case (VDict kvs)
  have "list_all scalar_value (dumps_str False k @ [58] @ dumps srt False v)" if "(k, v) \<in> set kvs" for k v
    using VDict.prems that VDict.IH [OF that, of v] dumps_str_scalar [of k] by (auto simp: list_all_iff ascii_scalar)
  then show ?case by (auto simp: dict_order_map ascii_scalar intro!: list_all_join)
next
  case (VInt i)
  then show ?case using dec_of_int_ascii [of i] ascii_scalar by (auto simp: list_all_iff)
qed (auto simp: dumps_str_scalar ascii_scalar)

text \<open>A row has a size when the texts of its locator are Unicode: those of the footer always are.\<close>

definition ref_scalar :: "pack_ref \<Rightarrow> bool" where
  "ref_scalar ref \<longleftrightarrow> list_all (list_all scalar_value) [ref_store_id ref, ref_object_key ref, ref_checksum ref]"

lemma estimated_bytes_Inr:
  assumes "indexed_ok fo i" "ref_scalar ref" "list_all scalar_value (ref_pack_id ref)"
  shows "\<exists>n. estimated_bytes (descriptor_of ref i) = Inr n"
proof -
  have m: "scalar_texts (VDict (to_mapping (ix_metadata i)))"
    using assms(1) jval_ok_scalar_texts [OF jval_ok_to_mapping] by (simp add: indexed_ok_def)
  have "list_all scalar_value (ix_checksum i)" "list_all scalar_value (ix_codec i)"
    using assms(1) by (auto simp: indexed_ok_def crc_pattern_def list_all_iff lit_def ascii_scalar intro: ascii_scalar is_lower_hex_less_128)
  then have "scalar_texts (VDict (locator_dict (desc_locator (descriptor_of ref i))))"
    using assms(2,3) by (simp add: locator_dict_def descriptor_of_def ref_scalar_def lit_def ascii_scalar)
  with m have "scalar_texts (VDict [(lit ''metadata'', VDict (to_mapping (desc_metadata (descriptor_of ref i)))),
      (lit ''locator'', VDict (locator_dict (desc_locator (descriptor_of ref i))))])"
    by (simp add: lit_def ascii_scalar descriptor_of_def)
  from dumps_scalar [OF this, of False] show ?thesis by (simp add: estimated_bytes_def utf8_encode_def)
qed

lemma rmap_total: "\<forall>x \<in> set xs. \<exists>y. f x = Inr y \<Longrightarrow> \<exists>ys. rmap f xs = Inr ys"
  by (induction xs) auto

context pack_store
begin

text \<open>A published pack can be indexed: the indexer reads exactly the descriptors of its footer.\<close>

lemma read_pack_published:
  assumes "published holds ref rd" "ref_scalar ref"
  shows "\<exists>n. read_pack (handle store_id read_range) ref = Inr (map (descriptor_of ref) (rd_records rd), n)"
proof -
  obtain data where d: "from_bytes data = Inr rd" "ref_pack_id ref = rd_pack_id rd" using assms(1) by (auto simp: published_def)
  have s: "list_all scalar_value (ref_pack_id ref)" using d by (elim from_bytes_all) (simp add: uuid_str_scalar)
  have "\<exists>n. estimated_bytes (descriptor_of ref i) = Inr n" if "i \<in> set (rd_records rd)" for i
    using d(1)
  proof (rule from_bytes_all)
    fix h t dd
    assume "parse_records dd (int (tf_footer_offset t)) = Inr (rd_records rd)"
    from parse_records_ok(1) [OF this] that have "indexed_ok (int (tf_footer_offset t)) i" by (simp add: list_all_iff)
    from estimated_bytes_Inr [OF this assms(2) s] show ?thesis .
  qed
  then have "\<exists>sizes. rmap estimated_bytes (map (descriptor_of ref) (rd_records rd)) = Inr sizes" by (intro rmap_total) auto
  with from_store_published [OF assms(1)] show ?thesis by (auto simp: read_pack_def handle_def)
qed

end

section \<open>A concrete pass\<close>

text \<open>A writer whose state is the last version: every call succeeds and nothing is committed before.\<close>

definition demo_cw :: "bool \<Rightarrow> int catalog_writer" where
  "demo_cw lease =
     \<lparr>cw_publisher_lease = (\<lambda>_. lease), cw_committed_pack_ids = (\<lambda>_ w. (w, Inr [])), cw_write_descriptors = (\<lambda>_ _ w. (w, Inr ())),
      cw_commit_packs = (\<lambda>_ _ w. (w, Inr ())), cw_publish_snapshot = (\<lambda>_ _ _ _ _ w. (w, Inr ())),
      cw_last_published_version = (\<lambda>w. (w, Inr 0)), cw_allocate_version = (\<lambda>w. (w + 1, Inr (w + 1)))\<rparr>"

definition demo_indexer :: "store_handle \<Rightarrow> bool \<Rightarrow> int \<Rightarrow> int indexer" where
  "demo_indexer store lease bytes = CatalogIndexer store (demo_cw lease)
     (Some \<lparr>cfg_max_packs = 4, cfg_max_rows_per_insert = 1, cfg_max_estimated_bytes = bytes, cfg_max_failure_details = 2,
            cfg_max_publish_attempts = 3\<rparr>) (\<lambda>_. 0) (\<lambda>_. 0) None 0"

lemma demo_read_pack:
  "\<exists>data ref d n. read_pack (fs_handle (demo_fs data)) ref = Inr ([d], n)"
proof -
  obtain data rd d where h: "from_bytes data = Inr rd" "intact (fs_holds (demo_fs data)) (\<lambda>_. rd) [d]" "length (rd_records rd) = 1"
    "d_ref d = reader_ref rd (lit ''fs'') (lit ''a/b'')" using demo_published by (elim exE conjE)
  have "rd_object_checksum rd = hexdigest data" using h(1) by (rule from_bytes_Inr)
  moreover have "list_all scalar_value (hexdigest data)"
    unfolding list_all_iff hexdigest_def by (intro ballI ascii_scalar is_lower_hex_less_128) (rule hex_of_bytes_lower)
  ultimately have "ref_scalar (d_ref d)" by (simp add: h(4) ref_scalar_def reader_ref_def lit_def ascii_scalar)
  moreover have "published (fs_holds (demo_fs data)) (d_ref d) rd" using h(2) by (simp add: intact_def)
  ultimately obtain n where "read_pack (fs_handle (demo_fs data)) (d_ref d) = Inr (map (descriptor_of (d_ref d)) (rd_records rd), n)"
    using fs.read_pack_published by (fastforce simp: fs_handle_def)
  moreover obtain i where "rd_records rd = [i]" using h(3) by (auto simp: length_Suc_conv)
  ultimately show ?thesis by auto
qed

lemma demo_partition: "partition_refs [ref] = ([ref], [])"
  by (simp add: partition_refs_def)

lemma demo_index:
  assumes "read_pack store ref = Inr ([d], n)"
  shows "\<exists>s' res. index [ref] (demo_indexer store True (max 1 n)) = (s', Inr res) \<and> ir_indexed_packs res = 1
    \<and> ci_calls s' = [CCommitted [identity ref], CAllocate (Inr 1), CHead (Inr 0), CWrite [d] 1 (Inr ()), CPublish 1 [ref] (Inr ()),
        CCommit [ref] 1 (Inr ())]"
  using assms
  by (simp add: index_def Let_def demo_partition demo_indexer_def CatalogIndexer_def committed_among_def committed_pack_ids_def
      demo_cw_def write_and_publish_def reject_a_writer_that_cannot_publish_def allocate_version_def published_head_def
      write_descriptor_batches_def write_descriptors_def publish_def numeral_nat publish_snapshot_def commit_packs_def emit_event_def)

definition demo_ref :: "string \<Rightarrow> string \<Rightarrow> pack_ref" where
  "demo_ref pack key = \<lparr>ref_pack_id = lit pack, ref_store_id = lit ''fs'', ref_object_key = lit key, ref_object_bytes = 200,
     ref_checksum = lit ''c'', ref_record_count = 1\<rparr>"

section \<open>Properties of the indexer\<close>

text \<open>C31: partitioning a batch deduplicates it and fails every claimant of a contested identity: the references that
  stand alone under their identity survive, each once, and the failures are one for each distinct reference that
  shares its identity with another. Nothing is lost: the two together are the distinct references.\<close>

theorem partition_fails_every_claimant:
  assumes "partition_refs refs = (unique, failures)"
  shows "distinct (map identity unique) \<and> set unique = {r \<in> set refs. \<forall>r' \<in> set refs. identity r' = identity r \<longrightarrow> r' = r}
    \<and> mset failures = image_mset conflict_failure
        (mset_set {r \<in> set refs. \<exists>r' \<in> set refs. identity r' = identity r \<and> r' \<noteq> r})
    \<and> length unique + length failures = card (set refs)"
  using assms by (rule partition_refs_spec)

theorem partition_fails_every_claimant_witness:
  "partition_refs [demo_ref ''p'' ''a'', demo_ref ''q'' ''b'', demo_ref ''p'' ''c''] = ([demo_ref ''q'' ''b''],
     [conflict_failure (demo_ref ''p'' ''a''), conflict_failure (demo_ref ''p'' ''c'')])
   \<and> card (set [demo_ref ''p'' ''a'', demo_ref ''q'' ''b'', demo_ref ''p'' ''c'']) = 3"
proof
  show p: "partition_refs [demo_ref ''p'' ''a'', demo_ref ''q'' ''b'', demo_ref ''p'' ''c''] = ([demo_ref ''q'' ''b''],
     [conflict_failure (demo_ref ''p'' ''a''), conflict_failure (demo_ref ''p'' ''c'')])"
    by (simp add: partition_refs_def identity_def demo_ref_def)
  from partition_fails_every_claimant [OF this] show "card (set [demo_ref ''p'' ''a'', demo_ref ''q'' ''b'', demo_ref ''p'' ''c'']) = 3"
    by (elim conjE) simp
qed




text \<open>C32: a writer without a lease is refused before it costs anything, and a pass with nothing to index writes nothing:
  the only call either makes on the writer is the question which packs are committed.\<close>

theorem nothing_written_without_lease_or_work:
  assumes "index refs s = (s', r)" "(\<forall>w. \<not> cw_publisher_lease (ci_writer s) w) \<or> (\<exists>res. r = Inr res \<and> ir_indexed_packs res = 0 \<and> ir_indexed_rows res = 0)"
  shows "(\<exists>ids. ci_calls s' = ci_calls s \<or> ci_calls s' = ci_calls s @ [CCommitted ids])
    \<and> (\<forall>res. r = Inr res \<longrightarrow> ir_indexed_packs res = 0 \<and> ir_indexed_rows res = 0)"
proof -
  have com: "\<exists>ids. ci_calls s1 = ci_calls s \<or> ci_calls s1 = ci_calls s @ [CCommitted ids]"
    if "committed_among ids (s\<lparr>ci_timer_reads := n\<rparr>) = (s1, r1)" for ids s1 r1 n
    using that by (auto simp: committed_among_def committed_pack_ids_def split: if_splits prod.splits)
  from assms(1) show ?thesis
  proof (cases rule: index_cases)
    case (refused e)
    then show ?thesis by auto
  next
    case (unread ids s1 r1 e)
    from com [OF unread(1)] unread(2,3) show ?thesis by simp
  next
    case (idle ids s1 r1 res)
    from com [OF idle(1)] idle(2-5) show ?thesis by simp
  next
    case (wrote ids s1 r1 ds vs s2 r2)
    have w: "ci_writer s1 = ci_writer s" using committed_among_advances [OF wrote(1), of ds] by (simp add: advances_def)
    show ?thesis
    proof (cases "\<forall>w. \<not> cw_publisher_lease (ci_writer s) w")
      case True
      then have "s2 = s1" "r2 \<notin> range Inr"
        using wrote(2) w by (auto simp: write_and_publish_def reject_a_writer_that_cannot_publish_def)
      with com [OF wrote(1)] wrote(3,4) show ?thesis by (cases r) auto
    next
      case False
      then have "vs = []" "ds = []" using assms(2) wrote(6) by auto
      with wrote(5) show ?thesis by simp
    qed
  qed
qed

lemma demo_index_refused:
  assumes "read_pack store ref = Inr ([d], n)"
  shows "\<exists>s' e. index [ref] (demo_indexer store False (max 1 n)) = (s', Inl e) \<and> err_class e = PublisherLeaseError"
  using assms
  by (simp add: index_def Let_def demo_partition demo_indexer_def CatalogIndexer_def committed_among_def committed_pack_ids_def
      demo_cw_def write_and_publish_def reject_a_writer_that_cannot_publish_def)

theorem nothing_written_without_lease_or_work_witness:
  "\<exists>data ref n s' e ids. index [ref] (demo_indexer (fs_handle (demo_fs data)) False (max 1 n)) = (s', Inl e)
     \<and> err_class e = PublisherLeaseError \<and> (ci_calls s' = [] \<or> ci_calls s' = [CCommitted ids])"
proof -
  obtain data ref d n where r: "read_pack (fs_handle (demo_fs data)) ref = Inr ([d], n)" using demo_read_pack by (elim exE)
  obtain s' e where x: "index [ref] (demo_indexer (fs_handle (demo_fs data)) False (max 1 n)) = (s', Inl e)" "err_class e = PublisherLeaseError"
    using demo_index_refused [OF r] by (elim exE conjE)
  have "\<forall>w. \<not> cw_publisher_lease (ci_writer (demo_indexer (fs_handle (demo_fs data)) False (max 1 n))) w"
    by (simp add: demo_indexer_def CatalogIndexer_def demo_cw_def)
  with nothing_written_without_lease_or_work [OF x(1)]
  obtain ids where "ci_calls s' = [] \<or> ci_calls s' = [CCommitted ids]" by (auto simp: demo_indexer_def CatalogIndexer_def)
  with x show ?thesis by (intro exI conjI)
qed

text \<open>C33: the result of a pass accounts for the batch: every distinct reference of the batch was requested once, and was
  either skipped as committed, indexed, or failed; there is one failure detail for each failed pack.\<close>

theorem index_result_is_balanced:
  assumes "index refs s = (s', Inr res)"
  shows "ir_requested_packs res = int (card (set refs))
    \<and> ir_requested_packs res = ir_skipped_packs res + ir_indexed_packs res + ir_failed_packs res
    \<and> int (length (ir_failures res)) = ir_failed_packs res \<and> 0 \<le> ir_skipped_packs res"
  using assms by (rule index_counts)

theorem index_result_is_balanced_witness:
  "\<exists>data ref n s' res. index [ref] (demo_indexer (fs_handle (demo_fs data)) True (max 1 n)) = (s', Inr res)
     \<and> ir_indexed_packs res = 1 \<and> ir_requested_packs res = 1"
proof -
  obtain data ref d n where r: "read_pack (fs_handle (demo_fs data)) ref = Inr ([d], n)" using demo_read_pack by (elim exE)
  obtain s' res where x: "index [ref] (demo_indexer (fs_handle (demo_fs data)) True (max 1 n)) = (s', Inr res)" "ir_indexed_packs res = 1"
    using demo_index [OF r] by (elim exE conjE)
  from index_result_is_balanced [OF x(1)] have "ir_requested_packs res = 1" by simp
  with x show ?thesis by (intro exI conjI)
qed


definition demo_inventory :: pack_inventory where
  "demo_inventory = \<lparr>pv_store_id = lit ''fs'', pv_inspect = (\<lambda>_. Inl (Error PackFormatError ''foreign object'')),
     pv_list_objects = (\<lambda>_ c _. Inr (case c of None \<Rightarrow> \<lparr>pg_items = [lit ''a'', lit ''b''], pg_next_cursor = Some (lit ''b'')\<rparr>
        | Some _ \<Rightarrow> \<lparr>pg_items = [lit ''c''], pg_next_cursor = None\<rparr>))\<rparr>"

lemma demo_rebuild:
  "\<exists>s' res. rebuild demo_inventory [] 2 5 (demo_indexer store True 1) = (s', Inr res) \<and> ir_failed_packs res = 3
     \<and> length (ir_failures res) = 2"
  by (simp add: rebuild_def eval_nat_numeral reconcile_page_def demo_inventory_def index_object_keys_def index_def Let_def partition_refs_def
      demo_indexer_def CatalogIndexer_def committed_among_def emit_event_def merge_results_def IndexResult_def)


end
