(* ===== verification/Cursor.thy ===== *)
theory Cursor
  imports CaptureModel
begin

text \<open>
  Keyset pagination cursors of \<^verbatim>\<open>storage/capture/cursor.py\<close>: url-safe base64 over a JSON envelope, with the
  strict decoder.
\<close>

section \<open>Base64\<close>

text \<open>The url-safe alphabet, and the value of a character of it.\<close>

definition b64_char :: "nat \<Rightarrow> nat" where
  "b64_char v =
     (if v < 26 then 65 + v else if v < 52 then 71 + v else if v < 62 then v - 4 else if v = 62 then 45 else 95)"

definition b64_val :: "nat \<Rightarrow> nat option" where
  "b64_val c =
     (if 65 \<le> c \<and> c \<le> 90 then Some (c - 65) else if 97 \<le> c \<and> c \<le> 122 then Some (c - 71)
      else if 48 \<le> c \<and> c \<le> 57 then Some (c + 4) else if c = 45 then Some 62 else if c = 95 then Some 63 else None)"

fun urlsafe_b64encode :: "bytes \<Rightarrow> pystr" where
  "urlsafe_b64encode [] = []"
| "urlsafe_b64encode [a] = [b64_char (unat a div 4), b64_char (unat a mod 4 * 16), 61, 61]"
| "urlsafe_b64encode [a, b] =
     [b64_char (unat a div 4), b64_char (unat a mod 4 * 16 + unat b div 16), b64_char (unat b mod 16 * 4), 61]"
| "urlsafe_b64encode (a # b # c # r) =
     [b64_char (unat a div 4), b64_char (unat a mod 4 * 16 + unat b div 16),
      b64_char (unat b mod 16 * 4 + unat c div 64), b64_char (unat c mod 64)] @ urlsafe_b64encode r"

definition rstrip :: "nat \<Rightarrow> pystr \<Rightarrow> pystr" where
  "rstrip c s = rev (dropWhile (\<lambda>x. x = c) (rev s))"

text \<open>\<^verbatim>\<open>b64decode(s + padding, altchars=b"-_", validate=True)\<close> of unpadded text: a final single character is an
  error, and the unused bits of a final short group are ignored.\<close>

fun b64decode :: "pystr \<Rightarrow> bytes option" where
  "b64decode [] = Some []"
| "b64decode [c] = None"
| "b64decode [c, d] =
     (case (b64_val c, b64_val d) of
        (Some x, Some y) \<Rightarrow> Some [of_nat (x * 4 + y div 16)] | _ \<Rightarrow> None)"
| "b64decode [c, d, e] =
     (case (b64_val c, b64_val d, b64_val e) of
        (Some x, Some y, Some z) \<Rightarrow> Some [of_nat (x * 4 + y div 16), of_nat (y mod 16 * 16 + z div 4)] | _ \<Rightarrow> None)"
| "b64decode (c # d # e # f # r) =
     (case (b64_val c, b64_val d, b64_val e, b64_val f, b64decode r) of
        (Some x, Some y, Some z, Some u, Some bs) \<Rightarrow>
          Some ([of_nat (x * 4 + y div 16), of_nat (y mod 16 * 16 + z div 4), of_nat (z mod 4 * 64 + u)] @ bs)
      | _ \<Rightarrow> None)"

section \<open>Cursors\<close>

definition CURSOR_VERSION :: int where "CURSOR_VERSION = 1"

definition ENVELOPE_FIELDS :: "pystr set" where
  "ENVELOPE_FIELDS = {lit ''v'', lit ''w'', lit ''fh'', lit ''k''}"

definition UINT64_MAX :: int where "UINT64_MAX = 2 ^ 64 - 1"

text \<open>\<^verbatim>\<open>[A-Za-z0-9_-]+\Z\<close>\<close>

definition urlsafe_alphabet :: "pystr \<Rightarrow> bool" where
  "urlsafe_alphabet s \<longleftrightarrow> s \<noteq> [] \<and> list_all (\<lambda>c. b64_val c \<noteq> None) s"

record cursor_key =
  ck_tenant_id :: pystr
  ck_experiment_id :: pystr
  ck_run_id :: pystr
  ck_captured_at_ns :: int
  ck_capture_id :: pystr

record cursor =
  cur_version :: int
  cur_watermark :: int
  cur_filter_hash :: pystr
  cur_key :: cursor_key

definition cur_require :: "bool \<Rightarrow> string \<Rightarrow> unit result" where
  "cur_require b msg = require b InvalidCursorError msg"

fun uint64 :: "pyval \<Rightarrow> int result" where
  "uint64 (PInt i) =
     rbind (cur_require (0 \<le> i \<and> i \<le> UINT64_MAX) ''must fit UInt64'') (\<lambda>_. Inr i)"
| "uint64 _ = Inl (Error InvalidCursorError ''must be an integer'')"

fun cur_text :: "pyval \<Rightarrow> pystr result" where
  "cur_text (PStr s) = rbind (cur_require (s \<noteq> []) ''must be a non-empty string'') (\<lambda>_. Inr s)"
| "cur_text _ = Inl (Error InvalidCursorError ''must be a non-empty string'')"

definition encode_cursor :: "cursor_key \<Rightarrow> int \<Rightarrow> pystr \<Rightarrow> pystr result" where
  "encode_cursor key watermark fhash =
     rbind (uint64 (PInt watermark)) (\<lambda>w.
     rbind (cur_text (PStr fhash)) (\<lambda>fh.
     rbind (cur_text (PStr (ck_tenant_id key))) (\<lambda>tenant.
     rbind (cur_text (PStr (ck_experiment_id key))) (\<lambda>experiment.
     rbind (cur_text (PStr (ck_run_id key))) (\<lambda>run.
     rbind (uint64 (PInt (ck_captured_at_ns key))) (\<lambda>captured.
     rbind (cur_text (PStr (ck_capture_id key))) (\<lambda>capture.
       let raw = encode_json (VDict
             [(lit ''v'', VInt CURSOR_VERSION), (lit ''w'', VInt w), (lit ''fh'', VStr fh),
              (lit ''k'', VList [VStr tenant, VStr experiment, VStr run, VInt captured, VStr capture])]);
           encoded = rstrip 61 (urlsafe_b64encode raw)
       in if CURSOR_LIMIT < length encoded
          then Inl (Error InvalidCursorError ''encoded cursor exceeds the cursor limit'')
          else Inr encoded)))))))"

definition decode_payload :: "pystr \<Rightarrow> (pystr \<times> pyval) list result" where
  "decode_payload s =
     (case b64decode s of
        None \<Rightarrow> Inl (Error InvalidCursorError ''cursor is not valid url-safe base64'')
      | Some raw \<Rightarrow>
          (case loads_bytes raw of
             Inl e \<Rightarrow>
               if is_instance e UnicodeDecodeError \<or> is_instance e JSONDecodeError
               then Inl (Error InvalidCursorError ''cursor does not contain valid JSON'') else Inl e
           | Inr (PDict payload) \<Rightarrow> Inr payload
           | Inr _ \<Rightarrow> Inl (Error InvalidCursorError ''cursor payload must be a JSON object'')))"

definition decode_key :: "pyval \<Rightarrow> cursor_key result" where
  "decode_key v =
     (case v of
        PList [t, e, r, c, i] \<Rightarrow>
          rbind (cur_text t) (\<lambda>tenant. rbind (cur_text e) (\<lambda>experiment. rbind (cur_text r) (\<lambda>run.
          rbind (uint64 c) (\<lambda>captured. rbind (cur_text i) (\<lambda>capture.
            Inr \<lparr>ck_tenant_id = tenant, ck_experiment_id = experiment, ck_run_id = run,
                 ck_captured_at_ns = captured, ck_capture_id = capture\<rparr>)))))
      | PList _ \<Rightarrow> Inl (Error InvalidCursorError ''cursor key must have five elements'')
      | _ \<Rightarrow> Inl (Error InvalidCursorError ''cursor key must be a JSON array''))"

definition decode_envelope :: "(pystr \<times> pyval) list \<Rightarrow> pystr \<Rightarrow> int \<Rightarrow> cursor result" where
  "decode_envelope payload fhash max_watermark =
     rbind (cur_require (fst ` set payload \<subseteq> ENVELOPE_FIELDS) ''cursor has unexpected fields'') (\<lambda>_.
     rbind (cur_require (ENVELOPE_FIELDS \<subseteq> fst ` set payload) ''cursor is missing fields'') (\<lambda>_.
     rbind (cur_require (map_of payload (lit ''v'') = Some (PInt CURSOR_VERSION)) ''unsupported cursor version'') (\<lambda>_.
     rbind (uint64 (the (map_of payload (lit ''w'')))) (\<lambda>watermark.
     rbind (cur_require (watermark \<le> max_watermark) ''cursor watermark is ahead of the catalog'') (\<lambda>_.
     rbind (cur_text (the (map_of payload (lit ''fh'')))) (\<lambda>encoded_hash.
     rbind (cur_require (encoded_hash = fhash) ''cursor was issued for different filters'') (\<lambda>_.
     rbind (decode_key (the (map_of payload (lit ''k'')))) (\<lambda>key.
       Inr \<lparr>cur_version = CURSOR_VERSION, cur_watermark = watermark, cur_filter_hash = encoded_hash,
            cur_key = key\<rparr>))))))))"

definition decode_cursor :: "pystr \<Rightarrow> pystr \<Rightarrow> int \<Rightarrow> cursor result" where
  "decode_cursor s fhash max_watermark =
     rbind (cur_require (s \<noteq> []) ''cursor must be a non-empty string'') (\<lambda>_.
     case utf8_encode s of
       None \<Rightarrow> Inl (Error UnicodeEncodeError ''surrogates not allowed'')
     | Some b \<Rightarrow>
         rbind (cur_require (length b \<le> CURSOR_LIMIT) ''cursor exceeds the cursor limit'') (\<lambda>_.
         rbind (cur_require (urlsafe_alphabet s) ''cursor is not canonical url-safe base64'') (\<lambda>_.
         rbind (decode_payload s) (\<lambda>payload. decode_envelope payload fhash max_watermark))))"

section \<open>Base64 round trip\<close>

lemma b64_val_char [simp]: "v < 64 \<Longrightarrow> b64_val (b64_char v) = Some v"
  by (auto simp: b64_val_def b64_char_def)

lemma b64_val_bound: "b64_val c = Some v \<Longrightarrow> v < 64"
  by (auto simp: b64_val_def split: if_splits)

lemma b64_char_neq_pad [simp]: "b64_char v \<noteq> 61"
  by (auto simp: b64_char_def)

lemma unat_byte_less [simp]: "unat (b :: byte) < 256"
  using unsigned_less [of b] by simp

lemma of_nat_unat_byte: "n = unat b \<Longrightarrow> (of_nat n :: byte) = b"
  by simp

lemma rstrip_pad:
  "s = [] \<or> last s \<noteq> 61 \<Longrightarrow> rstrip 61 s = s"
  "s = [] \<or> last s \<noteq> 61 \<Longrightarrow> rstrip 61 (s @ [61]) = s"
  "s = [] \<or> last s \<noteq> 61 \<Longrightarrow> rstrip 61 (s @ [61, 61]) = s"
  by (cases s rule: rev_cases; simp add: rstrip_def)+

fun b64plain :: "bytes \<Rightarrow> pystr" where
  "b64plain [] = []"
| "b64plain [a] = [b64_char (unat a div 4), b64_char (unat a mod 4 * 16)]"
| "b64plain [a, b] =
     [b64_char (unat a div 4), b64_char (unat a mod 4 * 16 + unat b div 16), b64_char (unat b mod 16 * 4)]"
| "b64plain (a # b # c # r) =
     [b64_char (unat a div 4), b64_char (unat a mod 4 * 16 + unat b div 16),
      b64_char (unat b mod 16 * 4 + unat c div 64), b64_char (unat c mod 64)] @ b64plain r"

text \<open>The sextets of a byte triple, and the bytes of the sextets.\<close>

lemma sextets:
  assumes "a < 256" "b < 256" "c < (256::nat)"
  shows "a div 4 < 64" "a mod 4 * 16 < 64" "a mod 4 * 16 + b div 16 < 64" "b mod 16 * 4 < 64"
    "b mod 16 * 4 + c div 64 < 64" "c mod 64 < 64"
proof -
  have "a mod 4 < 4" "b div 16 < 16" "b mod 16 < 16" "c div 64 < 4" "a div 4 < 64" using assms by (simp_all add: less_mult_imp_div_less)
  then show "a div 4 < 64" "a mod 4 * 16 < 64" "a mod 4 * 16 + b div 16 < 64" "b mod 16 * 4 < 64"
    "b mod 16 * 4 + c div 64 < 64" "c mod 64 < 64" by linarith+
qed

lemma byte_divs:
  fixes b :: byte
  shows "unat b div 16 div 16 = 0" "unat b div 16 mod 16 = unat b div 16" "unat b div 64 div 4 = 0"
    "unat b div 64 mod 4 = unat b div 64"
proof -
  have "unat b div 16 < 16" "unat b div 64 < 4" by (simp_all add: less_mult_imp_div_less)
  then show "unat b div 16 div 16 = 0" "unat b div 16 mod 16 = unat b div 16" "unat b div 64 div 4 = 0"
    "unat b div 64 mod 4 = unat b div 64" by simp_all
qed

lemmas byte_sextets = sextets [OF unat_byte_less unat_byte_less unat_byte_less]

lemma b64plain_chars: "list_all (\<lambda>c. b64_val c \<noteq> None) (b64plain bs)"
  by (induction bs rule: b64plain.induct) (simp_all add: byte_sextets)

lemma b64_val_pad [simp]: "b64_val 61 = None"
  by (simp add: b64_val_def)

lemma b64plain_last: "b64plain bs = [] \<or> last (b64plain bs) \<noteq> 61"
  using b64plain_chars [of bs] by (cases "b64plain bs" rule: rev_cases) auto

lemma rstrip_encode: "rstrip 61 (urlsafe_b64encode bs) = b64plain bs"
proof -
  have "\<exists>k. urlsafe_b64encode bs = b64plain bs @ replicate k 61 \<and> k \<le> 2"
  proof (induction bs rule: b64plain.induct)
    case (2 a)
    show ?case by (rule exI [of _ 2]) (simp add: numeral_2_eq_2)
  next
    case (3 a b)
    show ?case by (rule exI [of _ 1]) simp
  qed auto
  then obtain k where k: "urlsafe_b64encode bs = b64plain bs @ replicate k 61" "k \<le> 2" by blast
  then consider "k = 0" | "k = 1" | "k = 2" by linarith
  then show ?thesis using k(1) rstrip_pad [OF b64plain_last [of bs]] by cases (simp_all add: numeral_2_eq_2)
qed

lemma b64decode_plain: "b64decode (b64plain bs) = Some bs"
  by (induction bs rule: b64plain.induct)
    (simp_all add: byte_sextets byte_divs of_nat_unat_byte del: of_nat_add of_nat_mult)

section \<open>Properties of cursors\<close>

lemma b64_val_ascii: "b64_val c \<noteq> None \<Longrightarrow> c < 128"
  by (auto simp: b64_val_def split: if_splits)

lemma urlsafe_utf8: "list_all (\<lambda>c. b64_val c \<noteq> None) s \<Longrightarrow> utf8_encode s = Some (ascii_bytes s)"
  by (rule utf8_encode_ascii) (use b64_val_ascii in \<open>auto simp: list_all_iff\<close>)

definition envelope :: "cursor_key \<Rightarrow> int \<Rightarrow> pystr \<Rightarrow> jval" where
  "envelope key w fh = VDict
     [(lit ''v'', VInt CURSOR_VERSION), (lit ''w'', VInt w), (lit ''fh'', VStr fh),
      (lit ''k'', VList [VStr (ck_tenant_id key), VStr (ck_experiment_id key), VStr (ck_run_id key),
        VInt (ck_captured_at_ns key), VStr (ck_capture_id key)])]"

text \<open>The fields a cursor must have to be encoded and decoded.\<close>

definition cursor_ok :: "cursor_key \<Rightarrow> int \<Rightarrow> pystr \<Rightarrow> bool" where
  "cursor_ok key w fh \<longleftrightarrow> 0 \<le> w \<and> w \<le> UINT64_MAX \<and> 0 \<le> ck_captured_at_ns key \<and> ck_captured_at_ns key \<le> UINT64_MAX
     \<and> fh \<noteq> [] \<and> ck_tenant_id key \<noteq> [] \<and> ck_experiment_id key \<noteq> [] \<and> ck_run_id key \<noteq> [] \<and> ck_capture_id key \<noteq> []"

lemma encode_cursor_Inr:
  "encode_cursor key w fh = Inr s \<longleftrightarrow>
   cursor_ok key w fh \<and> s = b64plain (encode_json (envelope key w fh)) \<and> length s \<le> CURSOR_LIMIT"
  by (auto simp: encode_cursor_def cursor_ok_def envelope_def Let_def rstrip_encode cur_require_def rbind_eq_Inr split: if_splits)

lemma decoded_envelope:
  "decoded True (envelope key w fh) = PDict
     [(lit ''fh'', PStr fh),
      (lit ''k'', PList [PStr (ck_tenant_id key), PStr (ck_experiment_id key), PStr (ck_run_id key),
        PInt (ck_captured_at_ns key), PStr (ck_capture_id key)]),
      (lit ''v'', PInt CURSOR_VERSION), (lit ''w'', PInt w)]"
  by (simp add: envelope_def dict_order_def lit_def)

definition key_scalar :: "cursor_key \<Rightarrow> bool" where
  "key_scalar key \<longleftrightarrow> list_all (list_all scalar_value)
     [ck_tenant_id key, ck_experiment_id key, ck_run_id key, ck_capture_id key]"

lemma jval_ok_envelope:
  assumes "cursor_ok key w fh" "key_scalar key" "list_all scalar_value fh"
  shows "jval_ok (envelope key w fh)"
proof -
  have le: "\<bar>i\<bar> < 10 ^ int_digits_limit" if "0 \<le> i" "i \<le> UINT64_MAX" for i
  proof -
    have "(2::int) ^ 64 \<le> 10 ^ 20" by simp
    also have "(10::int) ^ 20 \<le> 10 ^ int_digits_limit" by (rule power_increasing) (simp_all add: int_digits_limit_def)
    finally show ?thesis using that by (simp add: UINT64_MAX_def)
  qed
  have "list_all scalar_value (lit x)" if "x \<in> {''v'', ''w'', ''fh'', ''k''}" for x
    using that by (auto simp: lit_def intro!: ascii_scalar)
  moreover have "distinct [lit ''v'', lit ''w'', lit ''fh'', lit ''k'']" by (simp add: lit_def)
  ultimately show ?thesis
    using assms le [of w] le [of "ck_captured_at_ns key"] le [of CURSOR_VERSION]
    by (simp add: envelope_def cursor_ok_def key_scalar_def CURSOR_VERSION_def UINT64_MAX_def)
qed

lemma decode_envelope_ok:
  assumes "cursor_ok key w fh" "w \<le> m" "decoded True (envelope key w fh) = PDict d"
  shows "decode_envelope d fh m = Inr \<lparr>cur_version = 1, cur_watermark = w, cur_filter_hash = fh, cur_key = key\<rparr>"
proof -
  have d: "d = [(lit ''fh'', PStr fh),
      (lit ''k'', PList [PStr (ck_tenant_id key), PStr (ck_experiment_id key), PStr (ck_run_id key),
        PInt (ck_captured_at_ns key), PStr (ck_capture_id key)]),
      (lit ''v'', PInt CURSOR_VERSION), (lit ''w'', PInt w)]"
    using assms(3) by (simp add: decoded_envelope)
  have ne: "lit ''k'' \<noteq> lit ''fh''" "lit ''v'' \<noteq> lit ''fh''" "lit ''w'' \<noteq> lit ''fh''" "lit ''v'' \<noteq> lit ''k''"
    "lit ''w'' \<noteq> lit ''k''" "lit ''w'' \<noteq> lit ''v''" "lit ''fh'' \<noteq> lit ''k''"
    by (simp_all add: lit_def)
  have env: "fst ` set d = ENVELOPE_FIELDS" by (auto simp: d ENVELOPE_FIELDS_def)
  have get: "map_of d (lit ''v'') = Some (PInt CURSOR_VERSION)" "map_of d (lit ''w'') = Some (PInt w)"
    "map_of d (lit ''fh'') = Some (PStr fh)"
    "map_of d (lit ''k'') = Some (PList [PStr (ck_tenant_id key), PStr (ck_experiment_id key), PStr (ck_run_id key),
        PInt (ck_captured_at_ns key), PStr (ck_capture_id key)])"
    using ne by (simp_all add: d)
  have key: "decode_key (PList [PStr (ck_tenant_id key), PStr (ck_experiment_id key), PStr (ck_run_id key),
        PInt (ck_captured_at_ns key), PStr (ck_capture_id key)]) = Inr key"
    using assms(1) by (simp add: decode_key_def cursor_ok_def cur_require_def require_def)
  show ?thesis using assms(1,2)
    by (simp add: decode_envelope_def env get key cur_require_def require_def cursor_ok_def CURSOR_VERSION_def)
qed

lemma decode_encode:
  assumes "encode_cursor key w fh = Inr s" "w \<le> max_watermark" "key_scalar key" "list_all scalar_value fh"
  shows "decode_cursor s fh max_watermark
     = Inr \<lparr>cur_version = 1, cur_watermark = w, cur_filter_hash = fh, cur_key = key\<rparr>"
proof -
  have s: "cursor_ok key w fh" "s = b64plain (encode_json (envelope key w fh))" "length s \<le> CURSOR_LIMIT"
    using assms(1) by (auto simp: encode_cursor_Inr)
  have al: "list_all (\<lambda>c. b64_val c \<noteq> None) s" unfolding s(2) by (rule b64plain_chars)
  have ld: "loads_bytes (encode_json (envelope key w fh)) = Inr (decoded True (envelope key w fh))"
    unfolding encode_json_def using jval_ok_envelope [OF s(1) assms(3,4)] by (rule loads_dumps_bytes)
  obtain d where d: "decoded True (envelope key w fh) = PDict d" by (simp add: decoded_envelope)
  have "s \<noteq> []"
  proof
    assume "s = []"
    then have "encode_json (envelope key w fh) = []" using b64decode_plain [of "encode_json (envelope key w fh)"] s(2) by simp
    then show False by (simp add: encode_json_def envelope_def)
  qed
  moreover have "decode_payload s = Inr d" by (simp add: decode_payload_def s(2) b64decode_plain ld d)
  ultimately show ?thesis
    using al s(3) decode_envelope_ok [OF s(1) assms(2) d]
    by (simp add: decode_cursor_def urlsafe_utf8 cur_require_def require_def urlsafe_alphabet_def)
qed

lemma b64plain_length: "length (b64plain bs) \<le> 2 * length bs"
  by (induction bs rule: b64plain.induct) simp_all

definition demo_key :: cursor_key where
  "demo_key = \<lparr>ck_tenant_id = lit ''t'', ck_experiment_id = lit ''e'', ck_run_id = lit ''r'', ck_captured_at_ns = 7,
     ck_capture_id = lit ''c0''\<rparr>"

lemma demo_key_scalar: "key_scalar demo_key" "list_all scalar_value (lit ''f'')"
  by (simp_all add: key_scalar_def demo_key_def lit_def ascii_scalar)

lemma demo_cursor: "encode_cursor demo_key 3 (lit ''f'') = Inr (b64plain (encode_json (envelope demo_key 3 (lit ''f''))))"
proof -
  have "length (encode_json (envelope demo_key 3 (lit ''f''))) \<le> 200"
    by (simp add: encode_json_def envelope_def demo_key_def dict_order_def lit_def dumps_str_def escape_char_def
        dec_of_int_def dec_of_nat.simps CURSOR_VERSION_def)
  then show ?thesis
    using b64plain_length [of "encode_json (envelope demo_key 3 (lit ''f''))"]
    by (simp add: encode_cursor_Inr cursor_ok_def demo_key_def UINT64_MAX_def CURSOR_LIMIT_def lit_def)
qed

lemma demo_decoded: "decode_cursor (b64plain (encode_json (envelope demo_key 3 (lit ''f'')))) (lit ''f'') 5
    = Inr \<lparr>cur_version = 1, cur_watermark = 3, cur_filter_hash = lit ''f'', cur_key = demo_key\<rparr>"
  by (rule decode_encode [OF demo_cursor _ demo_key_scalar]) simp

text \<open>C27: a cursor survives the round trip: what \<^verbatim>\<open>encode_cursor\<close> issued for a query, \<^verbatim>\<open>decode_cursor\<close> takes back for
  that query at any later watermark, and gives the same position and watermark.\<close>

theorem decode_encode_cursor:
  assumes "encode_cursor key w fh = Inr s" "w \<le> max_watermark" "key_scalar key" "list_all scalar_value fh"
  shows "decode_cursor s fh max_watermark
     = Inr \<lparr>cur_version = 1, cur_watermark = w, cur_filter_hash = fh, cur_key = key\<rparr>"
  using assms by (rule decode_encode)

theorem decode_encode_cursor_witness:
  "\<exists>s. encode_cursor demo_key 3 (lit ''f'') = Inr s
     \<and> decode_cursor s (lit ''f'') 5 = Inr \<lparr>cur_version = 1, cur_watermark = 3, cur_filter_hash = lit ''f'', cur_key = demo_key\<rparr>"
  using decode_encode_cursor [OF demo_cursor _ demo_key_scalar, of 5] demo_cursor by simp

lemma uint64_Inr: "uint64 v = Inr i \<Longrightarrow> 0 \<le> i \<and> i \<le> UINT64_MAX"
  by (cases v) (auto simp: cur_require_def rbind_eq_Inr)

lemma cur_text_Inr: "cur_text v = Inr x \<Longrightarrow> x \<noteq> []"
  by (cases v) (auto simp: cur_require_def rbind_eq_Inr)

lemma decode_key_Inr:
  assumes "decode_key v = Inr k"
  shows "0 \<le> ck_captured_at_ns k \<and> ck_captured_at_ns k \<le> UINT64_MAX \<and> ck_tenant_id k \<noteq> [] \<and> ck_experiment_id k \<noteq> []
    \<and> ck_run_id k \<noteq> [] \<and> ck_capture_id k \<noteq> []"
proof -
  obtain t e r c i where "v = PList [t, e, r, c, i]"
    using assms unfolding decode_key_def by (simp split: pyval.split_asm list.split_asm)
  then have k: "cur_text t = Inr (ck_tenant_id k)" "cur_text e = Inr (ck_experiment_id k)" "cur_text r = Inr (ck_run_id k)"
    "uint64 c = Inr (ck_captured_at_ns k)" "cur_text i = Inr (ck_capture_id k)"
    using assms by (auto simp: decode_key_def rbind_eq_Inr)
  show ?thesis
    using cur_text_Inr [OF k(1)] cur_text_Inr [OF k(2)] cur_text_Inr [OF k(3)] uint64_Inr [OF k(4)] cur_text_Inr [OF k(5)] by simp
qed

text \<open>C28: a cursor that \<^verbatim>\<open>decode_cursor\<close> accepts is bound to the query and the catalog it is presented to: it carries
  the query's filter hash, a watermark the catalog has reached, and a position whose fields are all in range.\<close>

theorem decode_cursor_sound:
  assumes "decode_cursor s fh max_watermark = Inr c"
  shows "cur_version c = 1 \<and> cur_filter_hash c = fh \<and> 0 \<le> cur_watermark c \<and> cur_watermark c \<le> max_watermark
     \<and> cursor_ok (cur_key c) (cur_watermark c) fh \<and> length s \<le> CURSOR_LIMIT \<and> urlsafe_alphabet s"
proof -
  obtain b payload where h: "utf8_encode s = Some b" "length b \<le> CURSOR_LIMIT" "urlsafe_alphabet s"
    "decode_envelope payload fh max_watermark = Inr c"
    using assms by (auto simp: decode_cursor_def cur_require_def rbind_eq_Inr split: option.splits)
  have "length s \<le> length b" using h(1) utf8_encode_length by blast
  moreover obtain w k where k: "uint64 (the (map_of payload (lit ''w''))) = Inr w" "w \<le> max_watermark"
    "cur_text (the (map_of payload (lit ''fh''))) = Inr fh" "decode_key (the (map_of payload (lit ''k''))) = Inr k"
    "c = \<lparr>cur_version = CURSOR_VERSION, cur_watermark = w, cur_filter_hash = fh, cur_key = k\<rparr>"
    using h(4) by (auto simp: decode_envelope_def cur_require_def rbind_eq_Inr)
  ultimately show ?thesis
    using h(2,3) uint64_Inr [OF k(1)] cur_text_Inr [OF k(3)] decode_key_Inr [OF k(4)]
    by (simp add: cursor_ok_def CURSOR_VERSION_def)
qed

theorem decode_cursor_sound_witness:
  "\<exists>s c. decode_cursor s (lit ''f'') 5 = Inr c \<and> cur_filter_hash c = lit ''f'' \<and> cur_watermark c \<le> 5"
proof -
  have d: "decode_cursor (b64plain (encode_json (envelope demo_key 3 (lit ''f'')))) (lit ''f'') 5
      = Inr \<lparr>cur_version = 1, cur_watermark = 3, cur_filter_hash = lit ''f'', cur_key = demo_key\<rparr>"
    using demo_decoded by simp
  from decode_cursor_sound [OF d] d show ?thesis by blast
qed

section \<open>Non-canonical spellings\<close>

definition twist :: "nat \<Rightarrow> nat \<Rightarrow> nat" where
  "twist k v = (if v mod k = 0 then v + 1 else v - v mod k)"

lemma twist_gen:
  assumes "v < 64" "63 mod k \<noteq> 0" "1 < k"
  shows "twist k v \<noteq> v \<and> twist k v < 64 \<and> twist k v div k = v div k"
proof (cases "v mod k = 0")
  case True
  then have "v \<noteq> 63" using assms(2) by auto
  with True assms(1,3) show ?thesis by (simp add: twist_def div_Suc mod_Suc)
next
  case False
  then have "v - v mod k \<noteq> v" using mod_less_eq_dividend [of v k] by linarith
  moreover have "(v - v mod k) div k = v div k" using assms(3) by (simp add: minus_mod_eq_div_mult)
  ultimately show ?thesis using False assms(1) by (simp add: twist_def)
qed

lemmas twist = twist_gen [of _ 4, simplified] twist_gen [of _ 16, simplified]

text \<open>The last character of a short final group, with its unused bits changed.\<close>

fun respell :: "pystr \<Rightarrow> pystr" where
  "respell [c, d] = [c, b64_char (twist 16 (the (b64_val d)))]"
| "respell [c, d, e] = [c, d, b64_char (twist 4 (the (b64_val e)))]"
| "respell (c # d # e # f # r) = c # d # e # f # respell r"
| "respell s = s"

lemma respell:
  assumes "b64decode s = Some bs" "length s mod 4 \<noteq> 0"
  shows "respell s \<noteq> s \<and> length (respell s) = length s \<and> b64decode (respell s) = Some bs
    \<and> list_all (\<lambda>c. b64_val c \<noteq> None) (respell s)"
  using assms
proof (induction s arbitrary: bs rule: b64decode.induct)
  case (3 c d)
  then obtain x y where "b64_val c = Some x" "b64_val d = Some y" by (auto split: option.splits)
  with 3 twist(2) [OF b64_val_bound [of d y]] show ?case by auto
next
  case (4 c d e)
  then obtain x y z where "b64_val c = Some x" "b64_val d = Some y" "b64_val e = Some z" by (auto split: option.splits)
  with 4 twist(1) [OF b64_val_bound [of e z]] show ?case by auto
next
  case (5 c d e f r)
  then obtain bs' where "b64decode r = Some bs'" by (auto split: option.splits)
  moreover have "length r mod 4 \<noteq> 0" using 5(3) by simp
  ultimately have "respell r \<noteq> r \<and> length (respell r) = length r \<and> b64decode (respell r) = Some bs'
    \<and> list_all (\<lambda>c. b64_val c \<noteq> None) (respell r)" by (rule 5(1))
  with 5(2) \<open>b64decode r = Some bs'\<close> show ?case by (auto split: option.splits)
qed simp_all

text \<open>C29: the spelling of a cursor is not canonical, although only the url-safe alphabet is accepted to keep two
  spellings from addressing one position: of every accepted cursor whose length is not a multiple of four there
  is another spelling, of the same length, that decodes to the same cursor.\<close>

theorem cursor_has_another_spelling:
  assumes "decode_cursor s fh max_watermark = Inr c" "length s mod 4 \<noteq> 0"
  shows "\<exists>s'. s' \<noteq> s \<and> length s' = length s \<and> decode_cursor s' fh max_watermark = Inr c"
proof -
  obtain b payload where h: "utf8_encode s = Some b" "length b \<le> CURSOR_LIMIT" "urlsafe_alphabet s" "decode_payload s = Inr payload"
    "decode_envelope payload fh max_watermark = Inr c"
    using assms(1) by (auto simp: decode_cursor_def cur_require_def rbind_eq_Inr split: option.splits)
  obtain bs where bs: "b64decode s = Some bs" using h(4) by (auto simp: decode_payload_def split: option.splits)
  note r = respell [OF bs assms(2)]
  have "length s \<le> CURSOR_LIMIT" using h(2) utf8_encode_length [OF h(1)] by simp
  moreover have "decode_payload (respell s) = Inr payload" using h(4) bs r by (simp add: decode_payload_def)
  moreover have "respell s \<noteq> []" using r h(3) by (auto simp: urlsafe_alphabet_def)
  ultimately have "decode_cursor (respell s) fh max_watermark = Inr c"
    using r h(5) by (simp add: decode_cursor_def urlsafe_utf8 cur_require_def require_def urlsafe_alphabet_def)
  with r show ?thesis by blast
qed

lemma length_b64plain: "length (b64plain bs) mod 4 = (if length bs mod 3 = 0 then 0 else length bs mod 3 + 1)"
  by (induction bs rule: b64plain.induct) auto

theorem cursor_has_another_spelling_witness:
  "\<exists>s s' c. s' \<noteq> s \<and> decode_cursor s (lit ''f'') 5 = Inr c \<and> decode_cursor s' (lit ''f'') 5 = Inr c"
proof -
  let ?s = "b64plain (encode_json (envelope demo_key 3 (lit ''f'')))"
  have "length (encode_json (envelope demo_key 3 (lit ''f''))) mod 3 \<noteq> 0"
    by (simp add: encode_json_def envelope_def demo_key_def dict_order_def lit_def dumps_str_def escape_char_def
        dec_of_int_def dec_of_nat.simps CURSOR_VERSION_def)
  then have "length ?s mod 4 \<noteq> 0" by (simp add: length_b64plain)
  from cursor_has_another_spelling [OF demo_decoded this] demo_decoded show ?thesis by blast
qed

end
