(* ===== verification/EndToEnd.thy ===== *)
theory EndToEnd
  imports UploadRuns Indexing Cursor
begin

text \<open>
  The path of a capture across the components: what a sealed pack holds is what the spool writes, what the
  uploader copies into the filesystem store, what the indexer reads and what the reader hydrates. Each step is
  a lemma over the models of the two components that meet there.
\<close>

section \<open>From the writer to the store\<close>

lemma key_char_scalar: "list_all key_char s \<Longrightarrow> list_all scalar_value s"
  by (auto simp: list_all_iff key_char_def is_alnum_def intro!: ascii_scalar)

lemma object_key_scalar:
  assumes "validate_object_key (join [47] parts) = Inr parts"
  shows "list_all scalar_value (join [47] parts)"
proof -
  have "list_all scalar_value p" if "p \<in> set parts" for p
  proof -
    have "key_pattern p" using assms that by (auto simp: validate_object_key_def list_all_iff split: if_splits)
    then have "list_all key_char p" by (cases p) (auto simp: key_pattern_iff key_char_def)
    then show ?thesis by (rule key_char_scalar)
  qed
  moreover have "scalar_value 47" by (rule ascii_scalar) simp
  ultimately show ?thesis using set_join [of "[47]" parts] by (auto simp: list_all_iff)
qed

lemma drain_chunks: "length bs \<le> n \<Longrightarrow> drain_loop (int (length bs)) acc (chunks n bs) = Inr (acc @ bs)"
proof (induction n arbitrary: acc bs)
  case (Suc n)
  show ?case
  proof (cases "bs = []")
    case False
    define a b where "a = take (nat COPY_BYTES) bs" and "b = drop (nat COPY_BYTES) bs"
    have ab: "bs = a @ b" "a \<noteq> []" "int (length a) \<le> COPY_BYTES"
      using False by (auto simp: a_def b_def COPY_BYTES_def)
    have "length b \<le> n" using Suc.prems ab(1,2) by (cases a) auto
    then have d: "drain_loop (int (length b)) (acc @ a) (chunks n b) = Inr (acc @ bs)"
      using Suc.IH [of b "acc @ a"] ab(1) by simp
    have c: "chunks (Suc n) bs = a # chunks n b" using False by (simp add: a_def b_def)
    have "int (length bs) = int (length a) + int (length b)" using ab(1) by simp
    with d ab(2,3) show ?thesis unfolding c by (cases a) (auto simp: min_def)
  qed simp
qed simp

lemma staged_source_copies:
  assumes "node sp (stg_path e) = Some (FReg data)" "validate_pack_source (staged_source sp e) = Inr ()"
    "stg_object_bytes e = int (length data)" "hexdigest data = stg_checksum e"
  shows "copy_pack_source (staged_source sp e) = Inr data"
proof -
  have "drain_loop (stg_object_bytes e) [] (chunks (length data) data) = Inr data"
    unfolding assms(3) using drain_chunks [of data "length data" "[]"] by simp
  then show ?thesis using assms
    by (simp add: copy_pack_source_def drain_pack_source_def) (simp add: staged_source_def open_staged_def)
qed

lemma stage_writes:
  assumes "stage None p key sp = (sp', Inr staged)" "node sp (stg_path staged) = None" "source_honest p" "copy_pack_source p = Inr data"
  shows "node sp' (stg_path staged) = Some (FReg data)"
proof -
  from assms(1,3) obtain parts where st: "validate_object_key key = Inr parts" "staged = staged_of (dps_root sp) p parts"
    by (rule stage_Inr)
  from assms(1) show ?thesis
  proof (cases rule: stage_cases)
    case (exists ready parts')
    then show ?thesis using st assms(2) by (simp add: staged_of_def)
  next
    case (new ready parts')
    obtain s1 where m: "mkdir_spool ready sp = (s1, Inr ())" "link_ready None p key ready s1 = (sp', Inr staged)"
      using new(8) [symmetric] unfolding st_bind_eq_Inr by auto
    have "node s1 ready = None" using mkdir_spool_other [of ready sp] m(1) new(6) by simp
    then obtain u where f: "fsync_path_to_root (butlast ready) (account_ready ready (src_object_bytes p) (put_node ready (FReg data) s1)) = (sp', Inr u)"
      using m(2) assms(4) by (auto simp: link_ready_def st_bind_eq_Inr)
    have "dps_files sp' = dps_files (put_node ready (FReg data) s1)"
      using fsync_path_files(1) [of "butlast ready" "account_ready ready (src_object_bytes p) (put_node ready (FReg data) s1)"]
      unfolding f by simp
    then have "node sp' ready = Some (FReg data)" using node_cong [of sp' "put_node ready (FReg data) s1"] by simp
    then show ?thesis using st new(2,5) by (simp add: staged_of_def)
  qed auto
qed

lemma fs_put_writes:
  assumes "fs_put None p key st = (st', Inr ref)" "fs_path key = Inr path" "fs_tree st path = None" "copy_pack_source p = Inr data"
  shows "fs_tree st' path = Some (FReg data)" "ref = source_ref st p key" "fs_store_id st' = fs_store_id st"
proof -
  obtain st1 where v: "validate_pack_source p = Inr ()" "mkdir_parents st path = Inr st1"
    using assms(1,2) by (auto simp: fs_put_def rbind_eq_Inr split: sum.splits)
  note m = mkdir_parents_tree [OF v(2)]
  show "fs_tree st' path = Some (FReg data)" "ref = source_ref st p key" "fs_store_id st' = fs_store_id st"
    using assms v m(1,3) by (auto simp: fs_put_def Let_def source_ref_def)
qed

lemma read_payload_any_ref:
  assumes "ref_pack_id ref = ref_pack_id ref'"
  shows "read_payload rd (descriptor_of ref i) = read_payload rd (descriptor_of ref' i)"
proof -
  have v: "verify_payload (descriptor_of ref i) p = verify_payload (descriptor_of ref' i) p" for p
    by (simp add: verify_payload_def descriptor_of_def Let_def)
  have eq: "desc_metadata (descriptor_of ref i) = desc_metadata (descriptor_of ref' i)"
    "desc_capture_id (descriptor_of ref i) = desc_capture_id (descriptor_of ref' i)"
    "loc_pack_id (desc_locator (descriptor_of ref i)) = loc_pack_id (desc_locator (descriptor_of ref' i))"
    "loc_offset (desc_locator (descriptor_of ref i)) = loc_offset (desc_locator (descriptor_of ref' i))"
    "loc_stored_length (desc_locator (descriptor_of ref i)) = loc_stored_length (desc_locator (descriptor_of ref' i))"
    "loc_decoded_length (desc_locator (descriptor_of ref i)) = loc_decoded_length (desc_locator (descriptor_of ref' i))"
    "loc_codec (desc_locator (descriptor_of ref i)) = loc_codec (desc_locator (descriptor_of ref' i))"
    "loc_checksum (desc_locator (descriptor_of ref i)) = loc_checksum (desc_locator (descriptor_of ref' i))"
    using assms by (simp_all add: descriptor_of_def desc_capture_id_def)
  show ?thesis unfolding read_payload_def Let_def v eq ..
qed

lemma packed_published:
  assumes "PackWriter arg created max_bytes max_recs = Inr w0" "pack_id_arg_ok arg" "max_bytes < 2 ^ 64"
    "list_all record_ok rs" "rs \<noteq> []" "append_all rs w0 = Inr wr" "seal wr = Inr (pack, wr')"
    and tenants: "\<forall>r \<in> set rs. md_tenant_id (rec_metadata r) = md_tenant_id (rec_metadata (hd rs))"
    and key: "object_key_for \<lparr>rp_pack = pack, rp_first_metadata = rec_metadata (hd rs), rp_reason = reason\<rparr> = Inr key"
    and ref: "ref_pack_id ref = sp_pack_id pack" "ref_store_id ref = fs_store_id st" "ref_object_key ref = key"
      "ref_object_bytes ref = object_bytes pack" "ref_record_count ref = sp_record_count pack"
    and stored: "fs_path key = Inr path" "fs_tree st path = Some (FReg (sp_data pack))"
  obtains rd where "published (fs_holds st) ref rd" "map ix_metadata (rd_records rd) = map rec_metadata rs"
    "list_all2 (\<lambda>r i. read_payload rd (descriptor_of ref i) = Inr (rec_payload r)) rs (rd_records rd)"
proof -
  obtain rd where rd: "from_bytes (sp_data pack) = Inr rd" "rd_pack_id rd = sp_pack_id pack" "sp_record_count pack = int (length rs)"
    "map ix_metadata (rd_records rd) = map rec_metadata rs"
    "list_all2 (\<lambda>r i. read_payload rd (descriptor_of (reader_ref rd [] []) i) = Inr (rec_payload r)) rs (rd_records rd)"
    using sealed_readable [OF assms(1-6), of "[]" "[]"] assms(7) by auto
  obtain u where u: "sp_pack_id pack = uuid_str u" using from_bytes_all [OF rd(1)] rd(2) by metis
  have m: "metadata_ok (rec_metadata (hd rs))" using assms(4,5) by (cases rs) (auto simp: record_ok_def)
  let ?ready = "\<lparr>rp_pack = pack, rp_first_metadata = rec_metadata (hd rs), rp_reason = reason\<rparr>"
  let ?tenants = "map (\<lambda>i. md_tenant_id (ix_metadata i)) (rd_records rd)"
  have "?tenants = map (\<lambda>r. md_tenant_id (rec_metadata r)) rs"
    using arg_cong [OF rd(4), of "map md_tenant_id"] by (simp add: comp_def)
  moreover have "set (map (\<lambda>r. md_tenant_id (rec_metadata r)) rs) = {md_tenant_id (rec_metadata (hd rs))}"
    using tenants assms(5) by (cases rs) auto
  ultimately have t: "set ?tenants = {md_tenant_id (rp_first_metadata ?ready)}" by (simp only: ready_pack.select_convs)
  have "metadata_ok (rp_first_metadata ?ready)" "sp_pack_id (rp_pack ?ready) = uuid_str u" using m u by simp_all
  from object_key_for_own_tenant [OF this] key ref(3) t
  have rej: "reject_a_foreign_tenant ref ?tenants = Inr ()" by (metis Inr_inject)
  have len: "length (rd_records rd) = length rs" using rd(5) by (simp add: list_all2_lengthD)
  have "published (fs_holds st) ref rd"
    using rd(1,2,3) ref stored len rej by (auto simp: published_def fs_holds_def descriptors_of_def object_bytes_def)
  moreover have "read_payload rd (descriptor_of ref i) = read_payload rd (descriptor_of (reader_ref rd [] []) i)" for i
    using ref(1) rd(2) by (intro read_payload_any_ref) (simp add: reader_ref_def)
  ultimately show ?thesis using that rd(4,5) by simp
qed

lemma durable_persist_staged:
  assumes "sp_checksum (rp_pack ready) = hexdigest (sp_data (rp_pack ready))" "metadata_ok (rp_first_metadata ready)"
    "sp_pack_id (rp_pack ready) = uuid_str u" "durable_persist other sp ready = (sp1, Inr staged)"
  obtains parts where "object_key_for ready = Inr (stg_object_key staged)" "validate_object_key (stg_object_key staged) = Inr parts"
    "parts \<noteq> []" "list_all scalar_value (stg_object_key staged)" "staged = staged_of (dps_root sp) (sealed_source (rp_pack ready)) parts"
    "stage other (sealed_source (rp_pack ready)) (stg_object_key staged) sp = (sp1, Inr staged)"
    "validate_pack_source (sealed_source (rp_pack ready)) = Inr ()"
proof -
  obtain key parts where k: "object_key_for ready = Inr key" "validate_object_key key = Inr parts" "key = join [47] parts"
    using assms(2,3) by (elim object_key_for_parts) auto
  let ?p = "sealed_source (rp_pack ready)"
  have st: "stage other ?p key sp = (sp1, Inr staged)" using assms(4) k(1) by (simp add: durable_persist_def)
  obtain v: "validate_pack_source ?p = Inr ()" and s: "parts \<noteq> []" "last parts = src_pack_id ?p @ lit ''.dmi-pack''"
    "staged = staged_of (dps_root sp) ?p parts"
    using st sealed_source_honest [OF assms(1)] by (rule stage_Inr) (use k(2) in auto)
  have "stg_object_key staged = key" using s k(3) append_butlast_last_id [OF s(1)] by (simp add: staged_of_def)
  then show ?thesis using that k st v s(1,3) object_key_scalar [of parts] by simp
qed

lemma spooled_pack_reaches_the_store:
  assumes "sp_checksum (rp_pack ready) = hexdigest (sp_data (rp_pack ready))" "metadata_ok (rp_first_metadata ready)"
    "sp_pack_id (rp_pack ready) = uuid_str u"
    and persist: "durable_persist None sp ready = (sp1, Inr staged)" "node sp (stg_path staged) = None"
    and kept: "node sp2 (stg_path staged) = node sp1 (stg_path staged)"
    and up: "upload None calls staged (sp2, st) = (w, Inr ref)"
    and fresh: "fs_path (stg_object_key staged) = Inr path" "fs_tree st path = None"
  shows "object_key_for ready = Inr (stg_object_key staged)" "fs_tree (snd w) path = Some (FReg (sp_data (rp_pack ready)))"
    "fs_store_id (snd w) = fs_store_id st"
    "ref = \<lparr>ref_pack_id = sp_pack_id (rp_pack ready), ref_store_id = fs_store_id st, ref_object_key = stg_object_key staged,
       ref_object_bytes = object_bytes (rp_pack ready), ref_checksum = sp_checksum (rp_pack ready),
       ref_record_count = sp_record_count (rp_pack ready)\<rparr>"
    "list_all scalar_value (stg_object_key staged)"
proof -
  define pack where "pack = rp_pack ready"
  let ?p = "sealed_source pack"
  obtain parts where k: "object_key_for ready = Inr (stg_object_key staged)" "list_all scalar_value (stg_object_key staged)"
    and s: "staged = staged_of (dps_root sp) ?p parts" "stage None ?p (stg_object_key staged) sp = (sp1, Inr staged)"
    "validate_pack_source ?p = Inr ()"
    unfolding pack_def by (rule durable_persist_staged [OF assms(1-3) persist(1)])
  then show "object_key_for ready = Inr (stg_object_key staged)" "list_all scalar_value (stg_object_key staged)" by simp_all
  have h: "source_honest ?p" using assms(1) unfolding pack_def by (rule sealed_source_honest)
  have c: "copy_pack_source ?p = Inr (sp_data pack)" using s(3)
    by (simp add: copy_pack_source_def drain_pack_source_def) (simp add: sealed_source_def object_bytes_def)
  have n: "node sp2 (stg_path staged) = Some (FReg (sp_data pack))" using kept stage_writes [OF s(2) persist(2) h c] by simp
  obtain st' where put: "fs_put None (staged_source sp2 staged) (stg_object_key staged) st = (st', Inr ref)" "snd w = st'"
    using up by (auto simp: upload_def split: prod.splits sum.splits)
  have vs: "validate_pack_source (staged_source sp2 staged) = Inr ()" using put(1) by (rule fs_put_Inr)
  have e: "stg_pack_id staged = sp_pack_id pack" "stg_object_bytes staged = object_bytes pack" "stg_checksum staged = sp_checksum pack"
    "stg_record_count staged = sp_record_count pack" by (subst s(1), simp add: staged_of_def sealed_source_def)+
  have "copy_pack_source (staged_source sp2 staged) = Inr (sp_data pack)"
    using assms(1) e by (intro staged_source_copies [OF n vs]) (simp_all add: object_bytes_def pack_def)
  note w = fs_put_writes [OF put(1) fresh this]
  show "fs_tree (snd w) path = Some (FReg (sp_data (rp_pack ready)))" "fs_store_id (snd w) = fs_store_id st"
    using w put(2) by (simp_all add: pack_def)
  show "ref = \<lparr>ref_pack_id = sp_pack_id (rp_pack ready), ref_store_id = fs_store_id st, ref_object_key = stg_object_key staged,
       ref_object_bytes = object_bytes (rp_pack ready), ref_checksum = sp_checksum (rp_pack ready),
       ref_record_count = sp_record_count (rp_pack ready)\<rparr>"
    unfolding w(2) source_ref_def using e by (simp add: staged_source_def pack_def)
qed

section \<open>From the store to the reader\<close>

text \<open>A published pack is served: the indexer reads its descriptors, and a fresh reader hydrates any of them to the
  payload of the record it was made for.\<close>

lemma published_pack_serves:
  assumes "published (fs_holds st) ref rd" "ref_scalar ref"
    and recs: "map ix_metadata (rd_records rd) = map rec_metadata rs"
      "list_all2 (\<lambda>r i. read_payload rd (descriptor_of ref i) = Inr (rec_payload r)) rs (rd_records rd)"
  shows "\<exists>ds n. read_pack (fs_handle st) ref = Inr (ds, n) \<and> map desc_metadata ds = map rec_metadata rs
    \<and> (\<forall>catalog stores gap r sel found e bl rl.
         CaptureReader catalog stores gap = Inr r \<and> map_of stores (fs_store_id st) = Some (fs_handle st)
         \<and> resolve r sel = Inr found \<and> set found \<subseteq> set ds \<and> estimate r sel = Inr e
         \<and> 0 \<le> bl \<and> 0 < rl \<and> he_request_count e \<le> rl \<and> he_request_bytes e \<le> bl
         \<longrightarrow> (\<exists>r' trace hs. hydrate r sel bl rl = (r', trace, Inr hs) \<and> map hc_descriptor hs = found
               \<and> (\<forall>h \<in> set hs. \<exists>i < length rs. hc_descriptor h = ds ! i \<and> hc_payload h = rec_payload (rs ! i))))"
proof -
  obtain n where n: "read_pack (fs_handle st) ref = Inr (map (descriptor_of ref) (rd_records rd), n)"
    using fs.read_pack_published [OF assms(1,2)] by (auto simp: fs_handle_def)
  let ?ds = "map (descriptor_of ref) (rd_records rd)"
  have pay: "\<exists>i < length rs. d = ?ds ! i \<and> read_payload rd d = Inr (rec_payload (rs ! i))" if d: "d \<in> set ?ds" for d
  proof -
    obtain i where i: "i < length (rd_records rd)" "d = descriptor_of ref (rd_records rd ! i)"
      using d by (auto simp: in_set_conv_nth)
    then show ?thesis using recs(2) by (intro exI [of _ i]) (simp add: list_all2_conv_all_nth)
  qed
  have int: "intact (fs_holds st) (\<lambda>_. rd) found" if "set found \<subseteq> set ?ds" for found
  proof -
    have r: "d_ref d = ref" "d \<in> descriptor_of ref ` set (rd_records rd)" "\<exists>x. read_payload rd d = Inr x" if "d \<in> set found" for d
    proof -
      have d: "d \<in> set ?ds" using that \<open>set found \<subseteq> set ?ds\<close> by blast
      then show "d_ref d = ref" "d \<in> descriptor_of ref ` set (rd_records rd)" by (auto simp: pack_ref_of_descriptor)
      show "\<exists>x. read_payload rd d = Inr x" using pay [OF d] by blast
    qed
    then have "d_ref ` set found \<subseteq> {ref}" by blast
    then have "inj_on ref_pack_id (d_ref ` set found)" by (rule inj_on_subset [rotated]) simp
    with r assms(1) show ?thesis unfolding intact_def by simp
  qed
  have md: "map desc_metadata ?ds = map rec_metadata rs" using recs(1) by (simp add: descriptor_of_def comp_def)
  have "\<exists>r' trace hs. hydrate r sel bl rl = (r', trace, Inr hs) \<and> map hc_descriptor hs = found
      \<and> (\<forall>h \<in> set hs. \<exists>i < length rs. hc_descriptor h = ?ds ! i \<and> hc_payload h = rec_payload (rs ! i))"
    if h: "CaptureReader catalog stores gap = Inr r" "map_of stores (fs_store_id st) = Some (fs_handle st)"
      "resolve r sel = Inr found" "set found \<subseteq> set ?ds" "estimate r sel = Inr e"
      "0 \<le> bl" "0 < rl" "he_request_count e \<le> rl" "he_request_bytes e \<le> bl" for catalog stores gap r sel found e bl rl
  proof -
    obtain r' trace hs where hs: "hydrate r sel bl rl = (r', trace, Inr hs)" "map hc_descriptor hs = found"
      "\<forall>h \<in> set hs. read_payload rd (hc_descriptor h) = Inr (hc_payload h)"
      using hydrate_fresh [OF h(1,2,3,5) int [OF h(4)] h(6-9)] by blast
    have "\<exists>i < length rs. hc_descriptor x = ?ds ! i \<and> hc_payload x = rec_payload (rs ! i)" if x: "x \<in> set hs" for x
    proof -
      have "hc_descriptor x \<in> set ?ds" using x hs(2) h(4) by auto
      from pay [OF this] show ?thesis using hs(3) x by auto
    qed
    with hs(1,2) show ?thesis by blast
  qed
  with n md show ?thesis by blast
qed

section \<open>A concrete upload\<close>

lemma upload_fresh:
  assumes "ready_verdict sp (stg_path e) = Inr (Valid e)" "validate_pack_source (staged_source sp e) = Inr ()"
    "fs_path (stg_object_key e) = Inr path" "path \<noteq> []" "\<forall>q. q \<noteq> [] \<longrightarrow> fs_tree st q = None" "fs_tree st [] = Some FDir"
    "dps_sync_faults sp = []" "is_relative_to (dps_root sp) (stg_path e)"
  shows "\<exists>w ref. upload None [] e (sp, st) = (w, Inr ref)"
proof -
  from assms(1) obtain data where d: "node sp (stg_path e) = Some (FReg data)" "stg_object_bytes e = int (length data)" "hexdigest data = stg_checksum e"
    by (rule Valid_node)
  note c = staged_source_copies [OF d(1) assms(2) d(2,3)]
  have "list_all (\<lambda>a. fs_tree st a \<in> {None, Some FDir}) (ancestors path)"
    unfolding list_all_iff using assms(5,6) by (metis insertCI)
  then obtain st1 where m: "mkdir_parents st path = Inr st1" by (simp add: mkdir_parents_def)
  have n: "fs_tree st1 path = None" using mkdir_parents_tree(3) [OF m] assms(4,5) by simp
  obtain st' ref where p: "fs_put None (staged_source sp e) (stg_object_key e) st = (st', Inr ref)"
    using assms(2,3) m n c by (simp add: fs_put_def)
  have "dps_sync_faults (unaccount_ready (stg_path e) (unlink (stg_path e) sp)) = []"
    using assms(7) by (simp add: unaccount_ready_def unlink_def split: option.split)
  then obtain sp' where "remove_staged e sp = (sp', Inr ())"
    using d(1) ready_verdict_Valid [OF assms(1)] assms(8) by (simp add: remove_staged_def Let_def fsync_directory_def)
  with p show ?thesis by (simp add: upload_def)
qed

lemma demo_open_sealed: "\<exists>w'. seal demo_open = Inr (rp_pack demo_ready, w')"
proof -
  have "a_writer demo_asm_open = Some demo_open" by (simp add: demo_asm_open_def adopt_def demo_assembler_def)
  then show ?thesis using demo_ready(1) by (auto simp: flush_def split: sum.splits option.splits prod.splits) (metis ready_pack.select_convs(1))
qed

lemma demo_uploaded:
  obtains sp1 e w ref path where "durable_persist None demo_spool demo_ready = (sp1, Inr e)"
    "upload None [] e (sp1, demo_store) = (w, Inr ref)" "fs_path (stg_object_key e) = Inr path" "fs_tree demo_store path = None"
    "fs_store_id (snd w) = lit ''fs''"
proof -
  have md: "rp_first_metadata demo_ready = demo_metadata" using demo_ready(2) by (simp add: pack_of_def demo_record_def)
  have ready: "demo_ready_of demo_metadata = demo_ready" using md by (cases demo_ready) (simp add: demo_ready_of_def)
  have ck: "sp_checksum (rp_pack demo_ready) = hexdigest (sp_data (rp_pack demo_ready))" using demo_ready(2) by (simp add: pack_of_def)
  obtain sp1 e where p: "durable_persist None demo_spool demo_ready = (sp1, Inr e)" "dps_sync_faults sp1 = []"
    by (rule demo_durable_persist [OF demo_metadata_ok, unfolded ready])
  note v = durable_persist_Inr [OF p(1) ck]
  have m: "metadata_ok (rp_first_metadata demo_ready)" using md demo_metadata_ok by simp
  obtain parts where k: "validate_object_key (stg_object_key e) = Inr parts" "parts \<noteq> []"
    "e = staged_of (dps_root demo_spool) (sealed_source (rp_pack demo_ready)) parts"
    by (rule durable_persist_staged [OF ck m demo_ready(3) p(1)])
  have valid: "validate_pack_source (staged_source sp1 e) = Inr ()"
    unfolding k(3) by (rule trans [OF validate_pack_source_cong demo_sealed_source(1)])
      (simp_all add: staged_source_def staged_of_def sealed_source_def)
  have path: "fs_path (stg_object_key e) = Inr parts" using k(1,2) by (simp add: fs_path_def)
  have rel: "is_relative_to (dps_root sp1) (stg_path e)" using v(6) k(3) by (simp add: staged_of_def is_relative_to_def)
  have tree: "\<forall>q. q \<noteq> [] \<longrightarrow> fs_tree demo_store q = None" "fs_tree demo_store [] = Some FDir" by (simp_all add: demo_store_def)
  obtain w ref where u: "upload None [] e (sp1, demo_store) = (w, Inr ref)"
    using upload_fresh [OF v(1) valid path k(2) tree p(2) rel] by blast
  have "fs_store_id (snd w) = fs_store_id demo_store"
    using u by (auto simp: upload_def split: prod.splits sum.splits elim!: fs_put_Inr)
  then show ?thesis using that [OF p(1) u path] tree(1) k(2) by (simp add: demo_store_def)
qed

end
