(* ===== verification/Spec2Isabelle.thy ===== *)
theory Spec2Isabelle
  imports PipelineRuns EndToEnd
begin

text \<open>
  Verification of the capture-storage subsystem of DMI, the Python code under
  \<^verbatim>\<open>src/src/dmi/storage/capture/\<close>.

  \<^bold>\<open>The program.\<close> An inference process captures tensors. \<^verbatim>\<open>HostCapturePipeline\<close> admits capture records into a
  bounded queue; one worker thread assembles them into packs, immutable binary objects with a JSON footer and
  a trailer, and hands every sealed pack to a sink. The sink is either a pack store
  (\<^verbatim>\<open>DirectObjectStoreSink\<close> over \<^verbatim>\<open>FilesystemPackStore\<close>) or a local spool (\<^verbatim>\<open>DurablePackSink\<close> over
  \<^verbatim>\<open>DurablePackSpool\<close>), from which \<^verbatim>\<open>SpoolUploader\<close> or \<^verbatim>\<open>ParallelSpoolUploader\<close> later moves packs into the store.
  \<^verbatim>\<open>CatalogIndexer\<close> reads the footers of stored packs and publishes their descriptors in a catalog;
  \<^verbatim>\<open>CatalogReconciler\<close> feeds it from an inventory. \<^verbatim>\<open>CaptureReader\<close> searches the catalog page by page with opaque
  cursors, and hydrates selected captures by coalesced range reads of the store, checking every byte against
  the footer.

  \<^bold>\<open>Theories and sources.\<close>
  \<^item> \<open>Prelude\<close>, \<open>PyText\<close>, \<open>Json\<close>, \<open>Digest\<close>: what the code uses of Python. Results are \<open>error + 'a\<close> with the
    exception class as a value, \<open>rbind\<close> and \<open>rmap\<close> sequence them; \<open>str\<close> is a list of code points, \<open>bytes\<close> a list of
    8-bit words; UTF-8, \<^verbatim>\<open>json.dumps\<close> and \<^verbatim>\<open>json.loads\<close>, base64, UUIDs, CRC-32 and SHA-256 are executable
    definitions. \<open>Json\<close> proves that decoding what was encoded gives the value back.
  \<^item> \<open>CaptureModel\<close>: \<^verbatim>\<open>model.py\<close>. The dataclasses are records, and each validating constructor
    (\<^verbatim>\<open>__post_init__\<close>) is a function into \<open>result\<close>.
  \<^item> \<open>Pack\<close>: \<^verbatim>\<open>pack.py\<close>. \<open>PackWriter\<close>, \<open>pack_append\<close>, \<open>seal\<close>, \<open>from_bytes\<close>, \<open>from_store\<close>, \<open>read_payload\<close>, the tenant
    segment of object keys.
  \<^item> \<open>PackStore\<close>: \<^verbatim>\<open>filesystem.py\<close> and the \<^verbatim>\<open>PackSource\<close> protocol. A store is a map from path components to nodes;
    \<open>fs_put\<close> takes as an argument what a concurrent writer publishes before \<^verbatim>\<open>os.link\<close>. The locale \<open>pack_store\<close> states what
    clients rely on, and is interpreted on this store.
  \<^item> \<open>Pipeline\<close>, \<open>PipelineRuns\<close>: \<^verbatim>\<open>pipeline.py\<close>. Queue, assembler, histogram, counters and pipeline are records; every
    critical section of the code is one function, and \<open>pl_run\<close> is the inductive relation of all their
    interleavings. The locale \<open>pack_sink\<close> is interpreted on the direct and on the durable sink.
  \<^item> \<open>Spool\<close>, \<open>SpoolAccounting\<close>, \<open>SpoolRecovery\<close>, \<open>SpoolRuns\<close>: the spool of \<^verbatim>\<open>spool.py\<close>. The directory tree is an
    association list; each directory fsync may fail, as the list \<open>dps_sync_faults\<close> says; other threads' calls run
    between any two steps of a recovery pass.
  \<^item> \<open>Upload\<close>, \<open>UploadRuns\<close>: the uploaders of \<^verbatim>\<open>spool.py\<close>. The parallel one is its scheduler loop with submissions,
    completions in any order, retries and backoff.
  \<^item> \<open>Catalog\<close>, \<open>Indexing\<close>: \<^verbatim>\<open>catalog.py\<close>. The catalog writer and the inventory are records of functions, the
    parameters of the model; \<open>ci_calls\<close> is the log of the calls made on the writer.
  \<^item> \<open>Reader\<close>, \<open>Hydration\<close>: \<^verbatim>\<open>reader.py\<close>, with the catalog and the stores as parameters.
  \<^item> \<open>Cursor\<close>: \<^verbatim>\<open>cursor.py\<close>.
  \<^item> \<open>EndToEnd\<close> and this theory: lemmas and properties that span the components.

  \<^bold>\<open>What is shown.\<close> The pack format round-trips and what a reader accepts is intact and of one tenant; typed metadata
  survives JSON and its catalog columns. Puts publish, never change and conflict on objects. The pipeline
  accounts for every record, keeps its bounds and order, and its persisted counter counts records that can be
  read back from the sink. The spool keeps its limit and survives restarts; uploads lose no pack and end within
  their bounds. The indexer writes rows before it shows them and records packs after that. Hydration refines
  reading the whole pack, within its limits. Cursors round-trip and are bound to their query. From writer to reader,
  the bytes captured are the bytes hydrated. Four properties show behaviour that the code does not intend:
  a pack lost when it expires before an oversized record, a flush that can wait for ever, a second spelling of
  cursors, and a session name that blocks recovery.

  \<^bold>\<open>Bounds and termination.\<close> Every definition is total. \<open>submit_all\<close> has a termination proof; the scheduler loop is a
  \<open>partial_function\<close> and proved to return for every environment. A recovery makes \<open>RECOVER_ATTEMPTS\<close> optimistic
  passes and then one that cannot be disturbed, as in the code. \<open>publish_loop\<close> and \<open>upload_attempts\<close> recurse on the
  configured number of attempts. A listing ends because the inventory's pages do, which is a hypothesis.
  Integers are unbounded as in Python; the widths of binary fields are those of the format.

  \<^bold>\<open>Environment.\<close> Clocks, UUID factories, callbacks, concurrent writers and failures are arguments. Exception
  messages keep their constant part. The order in which a set is iterated does not matter where one is used.

  \<^bold>\<open>Not modelled.\<close> Payload summaries (\<^verbatim>\<open>summary.py\<close>, \<^verbatim>\<open>CaptureReader.summarize\<close>) are floating-point statistics by
  numpy. The S3 store and the ClickHouse modules are calls of services and SQL text. Temporary files and symbolic
  links to directories of the filesystem store do not change which bytes are visible. \<^verbatim>\<open>extensions.py\<close> and
  \<^verbatim>\<open>record_adapter.py\<close> are registration and glue around torch tensors. The engine, hooks, transport, adapters,
  configuration, command line and user interface drive torch, CUDA, the native extension and HTTP; none of
  them takes part in storing or reading a pack.
\<close>

section \<open>Properties that span the components\<close>

text \<open>C1: the end-to-end guarantee. Records of one tenant are packed, the sealed pack is staged in the spool, the process
  may restart in between as long as the ready file stays, and the uploader puts the pack into the filesystem
  store. Then the indexer reads from the stored object exactly one descriptor per record, in order and with the
  record's metadata, and a fresh reader that the catalog gives any of these descriptors hydrates each of them to
  exactly the bytes that were captured, within the limits of its own estimate.\<close>

theorem captures_survive_end_to_end:
  assumes writer: "PackWriter arg created max_bytes max_recs = Inr w0" "pack_id_arg_ok arg" "max_bytes < 2 ^ 64"
    "list_all record_ok rs" "rs \<noteq> []" "append_all rs w0 = Inr wr" "seal wr = Inr (pack, wr')"
    and tenants: "\<forall>r \<in> set rs. md_tenant_id (rec_metadata r) = md_tenant_id (rec_metadata (hd rs))"
    and persist: "durable_persist None sp \<lparr>rp_pack = pack, rp_first_metadata = rec_metadata (hd rs), rp_reason = reason\<rparr> = (sp1, Inr staged)"
      "node sp (stg_path staged) = None"
    and restart: "node sp2 (stg_path staged) = node sp1 (stg_path staged)"
    and up: "upload None calls staged (sp2, st) = (w, Inr ref)"
    and fresh: "fs_path (stg_object_key staged) = Inr path" "fs_tree st path = None" "list_all scalar_value (fs_store_id st)"
  shows "\<exists>ds n. read_pack (fs_handle (snd w)) ref = Inr (ds, n) \<and> map desc_metadata ds = map rec_metadata rs
    \<and> (\<forall>catalog stores gap r sel found e bl rl.
         CaptureReader catalog stores gap = Inr r \<and> map_of stores (fs_store_id st) = Some (fs_handle (snd w))
         \<and> resolve r sel = Inr found \<and> set found \<subseteq> set ds \<and> estimate r sel = Inr e
         \<and> 0 \<le> bl \<and> 0 < rl \<and> he_request_count e \<le> rl \<and> he_request_bytes e \<le> bl
         \<longrightarrow> (\<exists>r' trace hs. hydrate r sel bl rl = (r', trace, Inr hs) \<and> map hc_descriptor hs = found
               \<and> (\<forall>h \<in> set hs. \<exists>i < length rs. hc_descriptor h = ds ! i \<and> hc_payload h = rec_payload (rs ! i))))"
proof -
  let ?ready = "\<lparr>rp_pack = pack, rp_first_metadata = rec_metadata (hd rs), rp_reason = reason\<rparr>"
  have m: "metadata_ok (rp_first_metadata ?ready)" using writer(4,5) by (cases rs) (auto simp: record_ok_def)
  have ck: "sp_checksum pack = hexdigest (sp_data pack)" using writer(7) by (rule seal_checksum)
  obtain u where u: "sp_pack_id pack = uuid_str u"
    using sealed_readable [OF writer(1-6), of "[]" "[]"] writer(7) from_bytes_all by (metis Inr_inject prod.inject)
  note s = spooled_pack_reaches_the_store [OF _ m _ persist restart up fresh(1,2), simplified, OF ck u]
  obtain rd where rd: "published (fs_holds (snd w)) ref rd" "map ix_metadata (rd_records rd) = map rec_metadata rs"
    "list_all2 (\<lambda>r i. read_payload rd (descriptor_of ref i) = Inr (rec_payload r)) rs (rd_records rd)"
    by (rule packed_published [OF writer tenants s(1), of ref "snd w" path]) (use s fresh(1) in auto)
  have "list_all scalar_value (stg_object_key staged)" using s(5) .
  then have "ref_scalar ref" using fresh(3) ck key_char_scalar [OF hexdigest_key] by (simp add: ref_scalar_def s(4))
  from published_pack_serves [OF rd(1) this rd(2,3)] show ?thesis unfolding s(3) .
qed

theorem captures_survive_end_to_end_witness:
  "\<exists>sp1 staged w ref d n r r' trace hs bl rl.
     durable_persist None demo_spool demo_ready = (sp1, Inr staged)
     \<and> upload None [] staged (sp1, demo_store) = (w, Inr ref) \<and> read_pack (fs_handle (snd w)) ref = Inr ([d], n)
     \<and> CaptureReader (demo_catalog d) [(lit ''fs'', fs_handle (snd w))] 0 = Inr r
     \<and> hydrate r demo_selection bl rl = (r', trace, Inr hs) \<and> map hc_payload hs = [[7, 9]]"
proof (rule demo_uploaded)
  fix sp1 e w ref path
  assume h: "durable_persist None demo_spool demo_ready = (sp1, Inr e)" "upload None [] e (sp1, demo_store) = (w, Inr ref)"
    "fs_path (stg_object_key e) = Inr path" "fs_tree demo_store path = None" "fs_store_id (snd w) = lit ''fs''"
  have "rp_first_metadata demo_ready = demo_metadata" using demo_ready(2) by (simp add: pack_of_def demo_record_def)
  then have same: "\<lparr>rp_pack = rp_pack demo_ready, rp_first_metadata = rec_metadata (hd [demo_record]), rp_reason = rp_reason demo_ready\<rparr> = demo_ready"
    by (cases demo_ready) (simp add: demo_record_def)
  have ps: "durable_persist None demo_spool \<lparr>rp_pack = rp_pack demo_ready, rp_first_metadata = rec_metadata (hd [demo_record]),
      rp_reason = rp_reason demo_ready\<rparr> = (sp1, Inr e)" using h(1) by (simp only: same)
  obtain w' where sl: "seal demo_open = Inr (rp_pack demo_ready, w')" using demo_open_sealed by blast
  have ap: "append_all [demo_record] demo_writer = Inr demo_open" using demo_open by simp
  have rs: "list_all record_ok [demo_record]" "[demo_record] \<noteq> []" "pack_id_arg_ok (IdUUID 5)" "(4096 :: int) < 2 ^ 64"
    "\<forall>r \<in> set [demo_record]. md_tenant_id (rec_metadata r) = md_tenant_id (rec_metadata (hd [demo_record]))"
    "list_all scalar_value (fs_store_id demo_store)" "node demo_spool (stg_path e) = None"
    using demo_record_ok by (simp_all add: pack_id_arg_ok_def demo_store_def lit_def ascii_scalar demo_spool_def node_def)
  obtain ds n where ds: "read_pack (fs_handle (snd w)) ref = Inr (ds, n)" "map desc_metadata ds = [demo_metadata]"
    and hyd: "\<forall>catalog stores gap r sel found e bl rl.
         CaptureReader catalog stores gap = Inr r \<and> map_of stores (fs_store_id demo_store) = Some (fs_handle (snd w))
         \<and> resolve r sel = Inr found \<and> set found \<subseteq> set ds \<and> estimate r sel = Inr e
         \<and> 0 \<le> bl \<and> 0 < rl \<and> he_request_count e \<le> rl \<and> he_request_bytes e \<le> bl
         \<longrightarrow> (\<exists>r' trace hs. hydrate r sel bl rl = (r', trace, Inr hs) \<and> map hc_descriptor hs = found
               \<and> (\<forall>h \<in> set hs. \<exists>i < length [demo_record]. hc_descriptor h = ds ! i \<and> hc_payload h = rec_payload ([demo_record] ! i)))"
    using captures_survive_end_to_end [OF demo_writer rs(3,4,1,2) ap sl rs(5) ps rs(7) refl h(2-4) rs(6)]
    by (auto simp: demo_record_def)
  obtain d where d: "ds = [d]" "desc_metadata d = demo_metadata" using ds(2) by auto
  obtain r where r: "CaptureReader (demo_catalog d) [(lit ''fs'', fs_handle (snd w))] 0 = Inr r"
    using h(5) by (simp add: CaptureReader_def fs_handle_def handle_def)
  have res: "resolve r demo_selection = Inr [d]"
    using demo_resolve [OF r] d(2) by (simp add: desc_capture_id_def demo_metadata_def)
  obtain e' where e': "estimate r demo_selection = Inr e'" using estimate_resolved [OF res] by blast
  have pos: "0 < max 1 (he_request_count e')" by simp
  let ?bl = "max 0 (he_request_bytes e')" let ?rl = "max 1 (he_request_count e')"
  have "CaptureReader (demo_catalog d) [(lit ''fs'', fs_handle (snd w))] 0 = Inr r
      \<and> map_of [(lit ''fs'', fs_handle (snd w))] (fs_store_id demo_store) = Some (fs_handle (snd w))
      \<and> resolve r demo_selection = Inr [d] \<and> set [d] \<subseteq> set ds \<and> estimate r demo_selection = Inr e'
      \<and> 0 \<le> ?bl \<and> 0 < ?rl \<and> he_request_count e' \<le> ?rl \<and> he_request_bytes e' \<le> ?bl"
    using r res e' d(1) pos by (simp add: demo_store_def)
  from hyd [rule_format, OF this] obtain r' trace hs where hs: "hydrate r demo_selection ?bl ?rl = (r', trace, Inr hs)" "map hc_descriptor hs = [d]"
    "\<forall>h \<in> set hs. \<exists>i < length [demo_record]. hc_descriptor h = ds ! i \<and> hc_payload h = rec_payload ([demo_record] ! i)"
    by (elim exE conjE)
  have "map hc_payload hs = [[7, 9]]" using hs(2,3) by (auto simp: demo_record_def)
  with h(1,2) ds(1) [unfolded d(1)] r hs(1) show ?thesis by (intro exI conjI)
qed

end
